(* ===== verification/S2c_Prelude.thy ===== *)
theory S2c_Prelude
  imports Main "HOL-Library.Word" "HOL-Library.Char_ord" "HOL-Library.Sublist"
begin

text \<open>
  Shared vocabulary of the development: the machine integers of the Rust sources, the
  \<open>Result\<close> type, the possibility of a panic, and the parts of the Rust standard library
  that the sources use (decimal printing and parsing of \<open>u64\<close>, ASCII lower-casing,
  substring search, checked and saturating arithmetic), each with the lemmas the
  components share.
\<close>

section \<open>Types\<close>

type_synonym u8 = "8 word"
type_synonym u32 = "32 word"
type_synonym u64 = "64 word"
type_synonym byte = "8 word"
type_synonym bytes = "byte list"

text \<open>Rust's \<open>Result<T, E>\<close>, with the constructors of the source.\<close>

datatype ('a, 'e) result = Ok 'a | Err 'e

text \<open>
  An evaluation that may panic (\<open>expect\<close>, \<open>panic!\<close>): the message is the one of the
  source.
\<close>

datatype 'a exec = Return 'a | Panic string

named_theorems u64_simps \<open>reading \<open>u64\<close> and \<open>u32\<close> arithmetic as natural numbers\<close>
named_theorems key_simps \<open>shape of object-store keys\<close>

definition is_ok :: "('a, 'e) result \<Rightarrow> bool" where
  "is_ok r = (case r of Ok _ \<Rightarrow> True | Err _ \<Rightarrow> False)"

lemma is_ok_simps [simp]: "is_ok (Ok a)" "\<not> is_ok (Err e)"
  by (simp_all add: is_ok_def)

section \<open>Integers\<close>

definition u64_max :: u64 where
  "u64_max = 18446744073709551615"

text \<open>\<open>u64::checked_shl\<close>: \<open>None\<close> when the shift is at least the width.\<close>

definition checked_shl :: "u64 \<Rightarrow> u32 \<Rightarrow> u64 option" where
  "checked_shl x n = (if unat n < 64 then Some (push_bit (unat n) x) else None)"

text \<open>\<open>u64::saturating_mul\<close>.\<close>

definition saturating_mul :: "u64 \<Rightarrow> u64 \<Rightarrow> u64" where
  "saturating_mul a b = (if unat a * unat b < 2 ^ 64 then a * b else u64_max)"

lemma unat_u64_max [u64_simps]: "unat u64_max = 18446744073709551615"
  by (simp add: u64_max_def)

lemma unat_u64_lt [simp]: "unat (x :: u64) < 18446744073709551616"
proof -
  have "unat x < 2 ^ LENGTH(64)" by (rule unsigned_less)
  then show ?thesis by simp
qed

lemma unat_u32_lt [simp]: "unat (x :: u32) < 4294967296"
proof -
  have "unat x < 2 ^ LENGTH(32)" by (rule unsigned_less)
  then show ?thesis by simp
qed

lemma u64_max_ge [simp]: "x \<le> u64_max"
  unfolding word_le_nat_alt unat_u64_max using unat_u64_lt [of x] by linarith

lemma unat_u64_Suc [u64_simps]:
  assumes "x \<noteq> u64_max"
  shows "unat (x + 1) = Suc (unat x)"
proof -
  have "unat x \<noteq> unat u64_max" using assms by (metis word_unat_eq_iff)
  then have "unat x < 18446744073709551615"
    unfolding unat_u64_max using unat_u64_lt [of x] by linarith
  then show ?thesis by (simp add: unat_word_ariths)
qed

lemma unat_u32_Suc [u64_simps]:
  "unat (x :: u32) < 4294967295 \<Longrightarrow> unat (x + 1) = Suc (unat x)"
  by (simp add: unat_word_ariths)

lemma unat_saturating_mul [u64_simps]:
  "unat (saturating_mul a b) = min (unat a * unat b) 18446744073709551615"
  by (auto simp: saturating_mul_def unat_word_ariths unat_u64_max min_def)

lemma checked_shl_one: "checked_shl 1 n = (if unat n < 64 then Some (2 ^ unat n) else None)"
  by (simp add: checked_shl_def push_bit_eq_mult)

lemma unat_two_power_u64 [u64_simps]:
  assumes "n < 64"
  shows "unat ((2 :: u64) ^ n) = 2 ^ n"
proof -
  have "(2 :: nat) ^ n < 2 ^ 64" using assms by (rule power_strict_increasing) simp
  moreover have "unat ((2 :: u64) ^ n) = unat (of_nat (2 ^ n) :: u64)" by simp
  ultimately show ?thesis by (simp only: unat_of_nat) simp
qed

section \<open>Decimal numbers\<close>

text \<open>\<open>u64\<close>'s \<open>Display\<close>, as \<open>format!\<close> and \<open>to_string\<close> use it.\<close>

definition digit_char :: "nat \<Rightarrow> char" where
  "digit_char d = char_of (48 + d)"

fun show_nat :: "nat \<Rightarrow> string" where
  "show_nat n = (if n < 10 then [digit_char n] else show_nat (n div 10) @ [digit_char (n mod 10)])"

definition show_u64 :: "u64 \<Rightarrow> string" where
  "show_u64 n = show_nat (unat n)"

text \<open>
  \<open>str::parse::<u64>\<close>: an optional plus sign, then at least one digit; anything else, and a
  value beyond \<open>u64::MAX\<close>, is an error (\<open>None\<close>).
\<close>

definition digit_val :: "char \<Rightarrow> nat option" where
  "digit_val c = (let n = of_char c in if 48 \<le> n \<and> n \<le> 57 then Some (n - 48) else None)"

fun digits_val :: "nat \<Rightarrow> string \<Rightarrow> nat option" where
  "digits_val acc [] = Some acc"
| "digits_val acc (c # cs) =
     (case digit_val c of None \<Rightarrow> None | Some d \<Rightarrow> digits_val (10 * acc + d) cs)"

definition parse_u64 :: "string \<Rightarrow> u64 option" where
  "parse_u64 s =
     (let ds = (case s of [] \<Rightarrow> [] | c # cs \<Rightarrow> if c = CHR ''+'' then cs else s)
      in if ds = [] then None
         else case digits_val 0 ds of
                None \<Rightarrow> None
              | Some n \<Rightarrow> if n < 2 ^ 64 then Some (of_nat n) else None)"

declare show_nat.simps [simp del]

lemma digit_val_char [simp]: "d < 10 \<Longrightarrow> digit_val (digit_char d) = Some d"
  by (simp add: digit_val_def digit_char_def Let_def of_char_of)

lemma digit_char_less_iff:
  "a < 10 \<Longrightarrow> b < 10 \<Longrightarrow> digit_char a < digit_char b \<longleftrightarrow> a < b"
  by (simp add: digit_char_def less_char_def of_char_of)

lemma show_nat_nonempty [simp]: "show_nat n \<noteq> []"
  by (subst show_nat.simps) simp

lemma digits_val_append:
  "digits_val acc (xs @ ys) =
     (case digits_val acc xs of None \<Rightarrow> None | Some a \<Rightarrow> digits_val a ys)"
  by (induction xs arbitrary: acc) (auto split: option.splits)

lemma digits_val_show_nat: "digits_val 0 (show_nat n) = Some n"
proof (induction n rule: show_nat.induct)
  case (1 n)
  show ?case
  proof (cases "n < 10")
    case True
    then show ?thesis by (simp add: show_nat.simps [of n])
  next
    case False
    with "1.IH" show ?thesis
      by (simp add: show_nat.simps [of n] digits_val_append)
  qed
qed

lemma show_nat_inj [simp]: "show_nat m = show_nat n \<longleftrightarrow> m = n"
  by (metis digits_val_show_nat option.inject)

lemma show_u64_inj [simp]: "show_u64 m = show_u64 n \<longleftrightarrow> m = n"
  by (simp add: show_u64_def word_unat_eq_iff)

text \<open>The characters of a printed number are digits.\<close>

definition is_digit :: "char \<Rightarrow> bool" where
  "is_digit c = (digit_val c \<noteq> None)"

lemma is_digit_digit_char [simp]: "d < 10 \<Longrightarrow> is_digit (digit_char d)"
  by (simp add: is_digit_def)

lemma show_nat_digits: "c \<in> set (show_nat n) \<Longrightarrow> is_digit c"
proof (induction n rule: show_nat.induct)
  case (1 n)
  then show ?case by (auto simp: show_nat.simps [of n] split: if_splits)
qed

lemma not_digit [simp]: "\<not> is_digit CHR ''/''" "\<not> is_digit CHR ''+''"
  by (simp_all add: is_digit_def digit_val_def)

text \<open>Parsing a printed \<open>u64\<close> gives it back.\<close>

lemma parse_show_u64 [simp]: "parse_u64 (show_u64 n) = Some n"
proof -
  obtain c cs where s: "show_u64 n = c # cs"
    unfolding show_u64_def using show_nat_nonempty by (metis neq_Nil_conv)
  then have "is_digit c"
    unfolding show_u64_def by (metis list.set_intros(1) show_nat_digits)
  then have "c \<noteq> CHR ''+''" by auto
  with s have "parse_u64 (show_u64 n) =
      (case digits_val 0 (show_u64 n) of None \<Rightarrow> None
       | Some n \<Rightarrow> if n < 2 ^ 64 then Some (of_nat n) else None)"
    by (simp add: parse_u64_def)
  then show ?thesis by (simp add: show_u64_def digits_val_show_nat)
qed

subsection \<open>Lexicographic order of printed numbers\<close>

text \<open>
  Object stores list keys in byte order. Two printed numbers of the same length compare
  as strings the way they compare as numbers.
\<close>

abbreviation str_less :: "string \<Rightarrow> string \<Rightarrow> bool" where
  "str_less \<equiv> ord_class.lexordp"

lemma length_show_nat:
  "10 ^ k \<le> n \<Longrightarrow> n < 10 ^ Suc k \<Longrightarrow> length (show_nat n) = Suc k"
proof (induction k arbitrary: n)
  case 0
  then show ?case by (simp add: show_nat.simps [of n])
next
  case (Suc k)
  then have "10 ^ k \<le> n div 10" "n div 10 < 10 ^ Suc k" by auto
  then have "length (show_nat (n div 10)) = Suc k" by (rule Suc.IH)
  moreover have "10 * 1 \<le> n"
    using Suc.prems(1) order_trans [OF mult_le_mono2 [of 1 "10 ^ k" 10]] by simp
  ultimately show ?case by (simp add: show_nat.simps [of n])
qed

lemma digits_val_bounds:
  "digits_val a xs = Some m \<Longrightarrow>
   a * 10 ^ length xs \<le> m \<and> m < (a + 1) * 10 ^ length xs"
proof (induction xs arbitrary: a)
  case Nil
  then show ?case by simp
next
  case (Cons c cs)
  then obtain d where d: "digit_val c = Some d" and rest: "digits_val (10 * a + d) cs = Some m"
    by (auto split: option.splits)
  from d have "d < 10" by (auto simp: digit_val_def Let_def split: if_splits)
  then have "(10 * a + d + 1) * 10 ^ length cs \<le> (10 * a + 10) * 10 ^ length cs"
    by (intro mult_le_mono1) simp
  with Cons.IH [OF rest] have "m < (10 * a + 10) * 10 ^ length cs" by linarith
  moreover have "10 * a * 10 ^ length cs \<le> m"
    using Cons.IH [OF rest] by (simp add: add_mult_distrib)
  ultimately show ?case by (simp add: algebra_simps)
qed

lemma digit_val_less_iff:
  "digit_val c = Some a \<Longrightarrow> digit_val d = Some b \<Longrightarrow> c < d \<longleftrightarrow> a < b"
  by (auto simp: digit_val_def Let_def less_char_def split: if_splits)

lemma digit_val_inj: "digit_val c = Some a \<Longrightarrow> digit_val d = Some a \<Longrightarrow> c = d"
  by (auto simp: digit_val_def Let_def split: if_splits)
    (metis le_add_diff_inverse of_char_eq_iff)

lemma str_less_digits_val:
  assumes "length xs = length ys"
    and "digits_val a xs = Some m" and "digits_val a ys = Some n"
  shows "str_less xs ys \<longleftrightarrow> m < n"
  using assms
proof (induction xs ys arbitrary: a rule: list_induct2)
  case Nil
  then show ?case by simp
next
  case (Cons x xs y ys)
  then obtain d e where d: "digit_val x = Some d" and e: "digit_val y = Some e"
    and m: "digits_val (10 * a + d) xs = Some m" and n: "digits_val (10 * a + e) ys = Some n"
    by (auto split: option.splits)
  note bm = digits_val_bounds [OF m] and bn = digits_val_bounds [OF n]
  consider "d < e" | "d = e" | "e < d" by linarith
  then show ?case
  proof cases
    case 1
    then have "(10 * a + d + 1) * 10 ^ length xs \<le> (10 * a + e) * 10 ^ length xs"
      by (intro mult_le_mono1) simp
    with bm bn Cons.hyps have "m < n" by simp
    with 1 show ?thesis using digit_val_less_iff [OF d e] by simp
  next
    case 2
    with d e have "x = y" using digit_val_inj by blast
    with 2 m n Cons.IH [of "10 * a + d"] show ?thesis by simp
  next
    case 3
    then have "(10 * a + e + 1) * 10 ^ length ys \<le> (10 * a + d) * 10 ^ length ys"
      by (intro mult_le_mono1) simp
    with bm bn Cons.hyps have "n < m" by simp
    moreover have "y < x" using 3 digit_val_less_iff [OF e d] by simp
    ultimately show ?thesis by auto
  qed
qed

lemma str_less_show_nat:
  "length (show_nat m) = length (show_nat n) \<Longrightarrow>
   str_less (show_nat m) (show_nat n) \<longleftrightarrow> m < n"
  using str_less_digits_val digits_val_show_nat by blast

lemma str_less_append_same: "str_less (p @ xs) (p @ ys) \<longleftrightarrow> str_less xs ys"
  by (induction p) auto

section \<open>Strings\<close>

text \<open>
  \<open>str::to_lowercase\<close> on ASCII text, and \<open>str::contains\<close>. Strings are byte strings; the
  development's strings are ASCII.
\<close>

definition ascii_lower :: "char \<Rightarrow> char" where
  "ascii_lower c = (let n = of_char c :: nat in if 65 \<le> n \<and> n \<le> 90 then char_of (n + 32) else c)"

definition to_lowercase :: "string \<Rightarrow> string" where
  "to_lowercase s = map ascii_lower s"

fun contains :: "string \<Rightarrow> string \<Rightarrow> bool" where
  "contains [] pat = (pat = [])"
| "contains (c # cs) pat = (take (length pat) (c # cs) = pat \<or> contains cs pat)"

lemma contains_iff: "contains s pat \<longleftrightarrow> (\<exists>xs ys. s = xs @ pat @ ys)"
proof (induction s)
  case Nil
  then show ?case by auto
next
  case (Cons c cs)
  have "take (length pat) (c # cs) = pat \<longleftrightarrow> (\<exists>ys. c # cs = pat @ ys)"
    by (metis append_eq_conv_conj)
  then show ?case using Cons.IH by (simp add: Cons_eq_append_conv) blast
qed

section \<open>Atomic enumerations\<close>

text \<open>
  The client and the server keep their state in an \<open>AtomicU8\<close>: an enumeration cast with
  \<open>as u8\<close> when it is stored and matched when it is loaded. The contract of such a cell,
  with \<open>compare_exchange\<close> as a function to success and new content.
\<close>

locale atomic_enum =
  fixes as_u8 :: "'a \<Rightarrow> u8"
    and match_u8 :: "u8 \<Rightarrow> 'a"
  assumes match_as: "match_u8 (as_u8 a) = a"
begin

lemma as_u8_inj: "as_u8 a = as_u8 b \<longleftrightarrow> a = b"
  by (metis match_as)

end

locale atomic_cas_enum = atomic_enum +
  fixes cas :: "u8 \<Rightarrow> 'a \<Rightarrow> 'a \<Rightarrow> bool \<times> u8"
  assumes cas_eq: "cas cell current new =
                   (if cell = as_u8 current then (True, as_u8 new) else (False, cell))"
begin

text \<open>On a cell that was stored, an exchange succeeds exactly when the cell holds the expected value.\<close>

lemma cas_stored:
  "cas (as_u8 a) current new = (if a = current then (True, as_u8 new) else (False, as_u8 a))"
  by (simp add: cas_eq as_u8_inj)

lemma cas_loads:
  "match_u8 (snd (cas (as_u8 a) current new)) = (if a = current then new else a)"
  by (simp add: cas_stored match_as)

end

end
