(* ===== verification/S2c_Proto.thy ===== *)
theory S2c_Proto
  imports S2c_Prelude
begin

text \<open>
  The data of \<^verbatim>\<open>proto/messages.proto\<close> and \<^verbatim>\<open>proto/state.proto\<close>, as the generated Rust
  structs carry them: a message-typed field is an \<open>option\<close>, a \<open>repeated\<close> field a list, a
  \<open>oneof\<close> an optional tagged union. The generated encoders and decoders are not part of
  the sources; they are the record \<open>prost_codec\<close> of functions, a parameter of every
  definition that serialises, and \<open>log_codec_ok\<close> and its companions name what the code
  relies on.
\<close>

section \<open>state.proto\<close>

record node_identity =
  node_id :: string
  node_address :: string
  node_port :: "32 word"
  node_az :: string

record batch_entry =
  entry_body :: bytes
  entry_internal :: bool

record batch =
  batch_entries :: "batch_entry list"

record follower_info =
  fi_node_identity :: "node_identity option"
  fi_replicated_apply_index :: u64

record leader_state =
  ls_epoch :: u64
  ls_commit_index :: u64
  ls_node_identity :: "node_identity option"
  ls_followers :: "follower_info list"

record log_entry =
  le_batch :: "batch option"
  le_leader_state :: "leader_state option"

text \<open>Two messages that no call of the sources builds or reads.\<close>

record state_snapshot =
  ss_start_apply_index :: u64
  ss_end_apply_index :: u64
  ss_leader_epoch :: u64
  ss_body :: bytes

record s2c_group_status =
  gst_leader_node_identity :: "node_identity option"
  gst_epoch :: u64
  gst_commit_index :: u64
  gst_leaders_apply_index :: u64
  gst_followers :: "follower_info list"

section \<open>messages.proto\<close>

datatype internal_body = GroupStatusRequest

record internal_state_request =
  isr_body :: "internal_body option"

text \<open>\<open>sr_type\<close> is the \<open>i32\<close> of a \<open>StateRequestType\<close>: 0 for a command, 1 for a read.\<close>

record state_request =
  sr_body :: bytes
  sr_type :: "32 word"
  sr_group_id :: string
  sr_internal :: bool
  sr_leader_command :: bool

record handshake_msg =
  hs_group_id :: string
  hs_node_identity :: "node_identity option"

record follow_msg =
  fo_apply_index :: u64
  fo_node_identity :: "node_identity option"
  fo_group_id :: string

record replicate_request =
  rr_batch :: "batch option"
  rr_commit_index :: u64
  rr_group_id :: string
  rr_follower_too_far_behind_error :: bool

text \<open>
  \<open>S2CMessage.body\<close> and \<open>S2CMessage.error\<close>; \<open>StateRequestResponse\<close> is its optional
  \<open>ApplicationResult\<close> body.
\<close>

datatype body =
    StateRequest state_request
  | StateRequestResponse "bytes option"
  | ReplicateRequest replicate_request
  | ReplicateResponse u64
  | Follow follow_msg
  | FollowResponse
  | Handshake handshake_msg

datatype s2c_error =
    NotLeaderError
  | LeaderStartingError
  | NotFollowerError
  | SlowDownError
  | InternalError
  | UnknownGroupError

record s2c_message =
  msg_correlation_id :: string
  msg_body :: "body option"
  msg_error :: "s2c_error option"

section \<open>Serialisation\<close>

text \<open>
  \<open>encode_x\<close> is \<open>x.encode_to_vec()\<close>; \<open>decode_x\<close> is \<open>X::decode\<close> with the error's text;
  \<open>encode_into buf bs\<close> is the content of a growable buffer (\<open>Vec<u8>\<close>, \<open>BytesMut\<close>) that
  held \<open>buf\<close> after \<open>encode\<close> wrote the encoding \<open>bs\<close> to it.
\<close>

record prost_codec =
  encode_message :: "s2c_message \<Rightarrow> bytes"
  decode_message :: "bytes \<Rightarrow> (s2c_message, string) result"
  encode_log_entry :: "log_entry \<Rightarrow> bytes"
  decode_log_entry :: "bytes \<Rightarrow> (log_entry, string) result"
  encode_batch :: "batch \<Rightarrow> bytes"
  encode_state_request :: "state_request \<Rightarrow> bytes"
  encode_into :: "bytes \<Rightarrow> bytes \<Rightarrow> bytes"

text \<open>Decoding an encoded message returns it (protocol buffers' round trip).\<close>

definition message_codec_ok :: "prost_codec \<Rightarrow> s2c_message set \<Rightarrow> bool" where
  "message_codec_ok c M = (\<forall>m \<in> M. decode_message c (encode_message c m) = Ok m)"

definition log_codec_ok :: "prost_codec \<Rightarrow> log_entry set \<Rightarrow> bool" where
  "log_codec_ok c E = (\<forall>e \<in> E. decode_log_entry c (encode_log_entry c e) = Ok e)"

text \<open>A growable buffer is written at its end.\<close>

definition buf_mut_appends :: "prost_codec \<Rightarrow> bool" where
  "buf_mut_appends c = (\<forall>buf bs. encode_into c buf bs = buf @ bs)"

end
