(* ===== verification/S2c_Config.thy ===== *)
theory S2c_Config
  imports S2c_Proto
begin

text \<open>
  \<^verbatim>\<open>src/config.rs\<close> and \<^verbatim>\<open>src/context.rs\<close>: the option records with their defaults, and the
  logging context.
\<close>

section \<open>Options\<close>

record s2c_retry_options =
  max_delay_seconds :: u64
  base_delay_ms :: u64
  max_attempts :: "u32 option"

definition retry_default :: s2c_retry_options where
  "retry_default = \<lparr>max_delay_seconds = 5, base_delay_ms = 300, max_attempts = Some 3\<rparr>"

definition to_unlimited :: "s2c_retry_options \<Rightarrow> s2c_retry_options" where
  "to_unlimited self =
     \<lparr>max_delay_seconds = max_delay_seconds self, base_delay_ms = base_delay_ms self,
      max_attempts = None\<rparr>"

record s2c_network_options =
  connect_timeout_ms :: u64
  throttle_delay_ms :: u64
  handshake_timeout_ms :: u64
  max_pending_reqs_per_client :: u32
  max_pending_resps_per_client :: u32
  max_pending_server_responses :: u32

definition network_default :: s2c_network_options where
  "network_default =
     \<lparr>connect_timeout_ms = 10000, throttle_delay_ms = 10000, handshake_timeout_ms = 10000,
      max_pending_reqs_per_client = 1000, max_pending_resps_per_client = 1000,
      max_pending_server_responses = 1000\<rparr>"

record s2c_exactly_once_options =
  out_of_seq_buffer_size :: u32
  out_of_seq_buffer_gc_delay_sec :: u64
  enabled :: bool

definition exactly_once_default :: s2c_exactly_once_options where
  "exactly_once_default =
     \<lparr>out_of_seq_buffer_size = 1000, out_of_seq_buffer_gc_delay_sec = 30, enabled = True\<rparr>"

record s2c_options =
  max_message_size :: u64
  snapshotting_threshold :: u32
  flush_interval_ms :: u64
  batch_min_count :: u32
  request_timeout_ms :: u64
  leader_heartbeat_timeout_ms :: u64
  max_missed_heartbeats :: u32
  max_concurrent_state_requests_handling :: u32
  leadership_delay_ms :: u64
  log_lru_cache_size :: u32
  max_batches_pending_for_apply :: u32
  max_deduplicated_clients :: u32
  read_index :: bool
  opt_log_node_identity :: bool
  network :: s2c_network_options
  retry :: s2c_retry_options
  exactly_once :: s2c_exactly_once_options

definition options_default :: s2c_options where
  "options_default =
     \<lparr>max_message_size = 500 * 1024, snapshotting_threshold = 100, flush_interval_ms = 2000,
      batch_min_count = 100, request_timeout_ms = 10000, leader_heartbeat_timeout_ms = 5000,
      max_missed_heartbeats = 10, max_concurrent_state_requests_handling = 100,
      leadership_delay_ms = 3000, log_lru_cache_size = 1000,
      max_batches_pending_for_apply = 1000, max_deduplicated_clients = 1000,
      read_index = True, opt_log_node_identity = False,
      network = network_default, retry = retry_default, exactly_once = exactly_once_default\<rparr>"

section \<open>Context\<close>

record context_t =
  ctx_s2c_group_id :: string
  ctx_port_str :: string
  ctx_log_node_identity :: bool
  ctx_node_identity :: node_identity

text \<open>\<open>i32::to_string\<close>.\<close>

definition show_i32 :: "32 word \<Rightarrow> string" where
  "show_i32 p = (if sint p < 0 then ''-'' @ show_nat (nat (- sint p)) else show_nat (nat (sint p)))"

definition context_new :: "string \<Rightarrow> node_identity \<Rightarrow> bool \<Rightarrow> context_t" where
  "context_new group_id ni log_ni =
     \<lparr>ctx_s2c_group_id = group_id, ctx_port_str = show_i32 (node_port ni),
      ctx_log_node_identity = log_ni, ctx_node_identity = ni\<rparr>"

definition as_vec :: "context_t \<Rightarrow> (string \<times> string) list" where
  "as_vec self =
     (let vec = [(''s2c_group_id'', ctx_s2c_group_id self)]
      in if ctx_log_node_identity self
         then vec @ [(''node_id'', node_id (ctx_node_identity self))]
                  @ [(''node_address'', node_address (ctx_node_identity self))]
                  @ [(''node_port'', ctx_port_str self)]
         else vec)"

lemma to_unlimited_simps [simp]:
  "max_attempts (to_unlimited r) = None"
  "max_delay_seconds (to_unlimited r) = max_delay_seconds r"
  "base_delay_ms (to_unlimited r) = base_delay_ms r"
  by (simp_all add: to_unlimited_def)

lemma as_vec_hides_identity:
  "\<not> ctx_log_node_identity c \<Longrightarrow> as_vec c = [(''s2c_group_id'', ctx_s2c_group_id c)]"
  by (simp add: as_vec_def)

end
