(* ===== verification/S2c_Backoff.thy ===== *)
theory S2c_Backoff
  imports S2c_Config "HOL-Library.Log_Nat"
begin

text \<open>
  \<^verbatim>\<open>src/backoff.rs\<close>: the retry counter and its jittered exponential delays. The random
  jitter of \<open>random_range(0.1..1.0)\<close> is a parameter. An \<open>f64\<close> of that range is a multiple
  of \<open>2 ^ -56\<close>, so a jitter is given by its numerator over \<open>2 ^ 56\<close>, and the \<open>f64\<close>
  conversion and product of the source are computed exactly: every operation rounds its
  exact result to 53 significant bits, to nearest, ties to even (\<open>round_f64\<close>). The integer
  arithmetic is that of the release profile (\<open>+\<close> wraps).
\<close>

section \<open>Doubles\<close>

definition round_f64 :: "nat \<Rightarrow> nat" where
  "round_f64 n =
     (let s = floorlog 2 n - 53; q = n div 2 ^ s; r = n mod 2 ^ s
      in if s = 0 then n
         else if r < 2 ^ (s - 1) \<or> r = 2 ^ (s - 1) \<and> even q then q * 2 ^ s
         else (q + 1) * 2 ^ s)"

text \<open>\<open>(m as f64 * jitter) as u64\<close> with \<open>jitter = k / 2 ^ 56\<close>; the last cast saturates.\<close>

definition f64_scale :: "u64 \<Rightarrow> nat \<Rightarrow> u64" where
  "f64_scale m k = of_nat (min (round_f64 (round_f64 (unat m) * k) div 2 ^ 56) (2 ^ 64 - 1))"

text \<open>The numerators of the doubles in \<open>0.1..1.0\<close>; the double \<open>0.1\<close> is \<open>7205759403792794 / 2 ^ 56\<close>.\<close>

definition jitter_ok :: "nat \<Rightarrow> bool" where
  "jitter_ok k = (7205759403792794 \<le> k \<and> k < 2 ^ 56)"

section \<open>The counter\<close>

record backoff_counter =
  current_attempt :: u32
  retry_options :: s2c_retry_options

definition backoff_new :: "s2c_retry_options \<Rightarrow> backoff_counter" where
  "backoff_new ro = \<lparr>current_attempt = 0, retry_options = ro\<rparr>"

definition can_attempt :: "backoff_counter \<Rightarrow> bool" where
  "can_attempt self =
     (case max_attempts (retry_options self) of
        Some m \<Rightarrow> current_attempt self + 1 \<le> m
      | None \<Rightarrow> True)"

definition backoff_reset :: "backoff_counter \<Rightarrow> backoff_counter" where
  "backoff_reset self = self\<lparr>current_attempt := 0\<rparr>"

definition calculate_duration :: "backoff_counter \<Rightarrow> u32 \<Rightarrow> nat \<Rightarrow> u64" where
  "calculate_duration self attempt jitter =
     (let max_ms = of_nat (unat (max_delay_seconds (retry_options self)) * 1000) :: u64;
          multiplier = (case checked_shl 1 (attempt - 1) of Some m \<Rightarrow> m | None \<Rightarrow> u64_max);
          base_backoff_ms = base_delay_ms (retry_options self);
          calculated_ms = saturating_mul base_backoff_ms multiplier
      in f64_scale (min max_ms calculated_ms) jitter)"

text \<open>The counter after the call and how long it sleeps; \<open>None\<close> when no attempt is left.\<close>

definition await_attempt :: "nat \<Rightarrow> backoff_counter \<Rightarrow> backoff_counter \<times> u64 option" where
  "await_attempt jitter self =
     (if \<not> can_attempt self then (self, None)
      else let self' = self\<lparr>current_attempt := current_attempt self + 1\<rparr>
           in (self', Some (calculate_duration self' (current_attempt self') jitter)))"

text \<open>
  The effect of \<open>await_attempt\<close> on the counter. It does not depend on the jitter, and the
  loops of the other components use it: the length of a sleep decides nothing in them.
\<close>

definition awaited :: "backoff_counter \<Rightarrow> backoff_counter" where
  "awaited self = fst (await_attempt 0 self)"

lemma awaited_eq: "fst (await_attempt j self) = awaited self"
  by (simp add: awaited_def await_attempt_def Let_def)

section \<open>Rounding\<close>

lemma round_f64_cases:
  assumes "0 < s" and "s = floorlog 2 n - 53"
  shows "2 ^ (52 + s) \<le> n"
    and "round_f64 n = n div 2 ^ s * 2 ^ s \<or>
         round_f64 n = (n div 2 ^ s + 1) * 2 ^ s \<and> 0 < n mod 2 ^ s"
proof -
  from assms have "floorlog 2 n = 53 + s" by simp
  moreover from this have "0 < n" by (metis floorlog_eq_zero_iff add_is_0 assms(1) not_gr_zero not_less)
  ultimately show "2 ^ (52 + s) \<le> n" using floorlog_bounds [of n 2] by simp
  have "0 < n mod 2 ^ s" if "\<not> n mod 2 ^ s < 2 ^ (s - 1)"
    using that by (metis not_less_zero not_gr_zero zero_less_numeral zero_less_power)
  with assms show "round_f64 n = n div 2 ^ s * 2 ^ s \<or>
         round_f64 n = (n div 2 ^ s + 1) * 2 ^ s \<and> 0 < n mod 2 ^ s"
    by (simp add: round_f64_def Let_def)
qed

text \<open>Rounding never crosses a number that is itself representable.\<close>

lemma round_f64_le:
  assumes "n \<le> a * 2 ^ t" and "a \<le> 2 ^ 53"
  shows "round_f64 n \<le> a * 2 ^ t"
proof (cases "floorlog 2 n - 53 = 0")
  case True
  with assms(1) show ?thesis by (simp add: round_f64_def)
next
  case False
  define s where "s = floorlog 2 n - 53"
  with False have s: "0 < s" by simp
  note facts = round_f64_cases [OF s s_def]
  have exact: "round_f64 n = n" if "n mod 2 ^ s = 0"
    using facts(2) that by auto
  show ?thesis
  proof (cases "s \<le> t")
    case True
    then have m: "a * 2 ^ t = (a * 2 ^ (t - s)) * 2 ^ s"
      by (simp add: power_add [symmetric])
    show ?thesis
    proof (cases "n mod 2 ^ s = 0")
      case True
      with assms(1) show ?thesis by (simp add: exact)
    next
      case False
      then have "n div 2 ^ s * 2 ^ s < a * 2 ^ (t - s) * 2 ^ s"
        using assms(1) m div_mult_mod_eq [of n "2 ^ s"] by linarith
      then have "(n div 2 ^ s + 1) * 2 ^ s \<le> a * 2 ^ (t - s) * 2 ^ s"
        by (intro mult_le_mono1) simp
      moreover from this have "n div 2 ^ s * 2 ^ s \<le> a * 2 ^ (t - s) * 2 ^ s"
        unfolding add_mult_distrib by linarith
      ultimately show ?thesis using facts(2) m by auto
    qed
  next
    case False
    have "a * 2 ^ t \<le> 2 ^ 53 * 2 ^ t" using assms(2) by (rule mult_le_mono1)
    also have "\<dots> \<le> 2 ^ (52 + s)"
      using False by (simp only: power_add [symmetric]) (rule power_increasing, simp_all)
    finally have "n = 2 ^ 52 * 2 ^ s" using facts(1) assms(1) by (simp add: power_add)
    then have "n mod 2 ^ s = 0" by simp
    with assms(1) show ?thesis by (simp add: exact)
  qed
qed

lemma round_f64_ge:
  assumes "a * 2 ^ t \<le> n" and "a \<le> 2 ^ 53"
  shows "a * 2 ^ t \<le> round_f64 n"
proof (cases "floorlog 2 n - 53 = 0")
  case True
  with assms(1) show ?thesis by (simp add: round_f64_def)
next
  case False
  define s where "s = floorlog 2 n - 53"
  with False have s: "0 < s" by simp
  note facts = round_f64_cases [OF s s_def]
  have "a * 2 ^ t \<le> n div 2 ^ s * 2 ^ s"
  proof (cases "s \<le> t")
    case True
    then have m: "a * 2 ^ t = (a * 2 ^ (t - s)) * 2 ^ s"
      by (simp add: power_add [symmetric])
    with assms(1) have "a * 2 ^ (t - s) \<le> n div 2 ^ s"
      by (metis div_le_mono nonzero_mult_div_cancel_right power_not_zero zero_neq_numeral)
    then show ?thesis unfolding m by (rule mult_le_mono1)
  next
    case False
    have "a * 2 ^ t \<le> 2 ^ 53 * 2 ^ t" using assms(2) by (rule mult_le_mono1)
    also have "\<dots> \<le> 2 ^ (52 + s)"
      using False by (simp only: power_add [symmetric]) (rule power_increasing, simp_all)
    also have "\<dots> = 2 ^ 52 * 2 ^ s" by (simp add: power_add)
    also have "\<dots> \<le> n div 2 ^ s * 2 ^ s"
    proof (rule mult_le_mono1)
      have "2 ^ (52 + s) div 2 ^ s \<le> n div 2 ^ s" using facts(1) by (rule div_le_mono)
      then show "2 ^ 52 \<le> n div 2 ^ s" by (simp add: power_add)
    qed
    finally show ?thesis .
  qed
  then show ?thesis using facts(2) by (auto simp: add_mult_distrib)
qed

lemma round_f64_exact: "n \<le> 2 ^ 53 \<Longrightarrow> round_f64 n = n"
  using round_f64_le [of n n 0] round_f64_ge [of n 0 n] by simp

text \<open>
  The product of a whole number and a jitter, cut to a whole number after all rounding, is the
  exact product cut to a whole number, or one more when the product was rounded up to it.
\<close>

lemma unat_f64_scale:
  assumes "jitter_ok k" and "unat m \<le> 2 ^ 53"
  shows "unat (f64_scale m k) = round_f64 (unat m * k) div 2 ^ 56"
    and "unat m * k div 2 ^ 56 \<le> unat (f64_scale m k)"
    and "unat (f64_scale m k) \<le> unat m * k div 2 ^ 56 + 1"
    and "unat (f64_scale m k) \<le> unat m"
proof -
  let ?p = "unat m * k" and ?r = "round_f64 (unat m * k)"
  have k: "k < 2 ^ 56" using assms(1) by (simp add: jitter_ok_def)
  have "?p \<le> unat m * 2 ^ 56" using k by (intro mult_le_mono2) simp
  then have "?r \<le> unat m * 2 ^ 56" using assms(2) by (rule round_f64_le)
  then have up: "?r div 2 ^ 56 \<le> unat m"
    by (simp add: div_le_mono [of _ "unat m * 2 ^ 56", simplified])
  show scale: "unat (f64_scale m k) = ?r div 2 ^ 56"
    using order_le_less_trans [OF up unat_u64_lt [of m]]
    by (simp add: f64_scale_def round_f64_exact [OF assms(2)] unat_of_nat min_def)
  with up show "unat (f64_scale m k) \<le> unat m" by simp
  have q: "?p div 2 ^ 56 \<le> unat m"
    using div_le_mono [OF \<open>?p \<le> unat m * 2 ^ 56\<close>, of "2 ^ 56"] by simp
  have "?p div 2 ^ 56 * 2 ^ 56 \<le> ?r"
    using q assms(2) by (intro round_f64_ge) simp_all
  then show "?p div 2 ^ 56 \<le> unat (f64_scale m k)"
    unfolding scale using div_le_mono [of "?p div 2 ^ 56 * 2 ^ 56" ?r "2 ^ 56"] by simp
  show "unat (f64_scale m k) \<le> ?p div 2 ^ 56 + 1"
  proof (cases "unat m = 0")
    case True
    with up scale show ?thesis by simp
  next
    case False
    then have "?p < unat m * 2 ^ 56" using k by simp
    then have "?p div 2 ^ 56 + 1 \<le> 2 ^ 53"
      using assms(2) less_mult_imp_div_less [of ?p "unat m" "2 ^ 56"] by simp
    moreover have "?p \<le> (?p div 2 ^ 56 + 1) * 2 ^ 56"
      using div_mult_mod_eq [of ?p "2 ^ 56"] mod_less_divisor [of "2 ^ 56" ?p]
      by (simp add: add_mult_distrib)
    ultimately have "?r \<le> (?p div 2 ^ 56 + 1) * 2 ^ 56" by (intro round_f64_le)
    then show ?thesis
      unfolding scale using div_le_mono [of ?r "(?p div 2 ^ 56 + 1) * 2 ^ 56" "2 ^ 56"] by simp
  qed
qed

section \<open>The retry contract\<close>

text \<open>
  What the retrying loops rely on: a budget that every awaited attempt spends, and that is
  exhausted exactly when no further attempt is allowed.
\<close>

locale retry_budget =
  fixes can :: "'b \<Rightarrow> bool"
    and wait :: "'b \<Rightarrow> 'b"
    and budget :: "'b \<Rightarrow> nat"
    and limited :: "'b \<Rightarrow> bool"
  assumes can_iff: "limited b \<Longrightarrow> can b \<longleftrightarrow> 0 < budget b"
    and wait_budget: "limited b \<Longrightarrow> can b \<Longrightarrow> Suc (budget (wait b)) = budget b"
    and wait_limited: "limited b \<Longrightarrow> limited (wait b)"
    and wait_exhausted: "limited b \<Longrightarrow> \<not> can b \<Longrightarrow> wait b = b"
begin

text \<open>Induction along the attempts of a limited counter: the termination of a retry loop.\<close>

lemma retry_induct [consumes 1, case_names exhausted attempt]:
  assumes lim: "limited b"
    and exhausted: "\<And>b. limited b \<Longrightarrow> \<not> can b \<Longrightarrow> P b"
    and attempt: "\<And>b. limited b \<Longrightarrow> can b \<Longrightarrow> P (wait b) \<Longrightarrow> P b"
  shows "P b"
  using lim
proof (induction "budget b" arbitrary: b)
  case 0
  then show ?case using can_iff exhausted by auto
next
  case (Suc n)
  then have "can b" using can_iff by auto
  moreover from this Suc have "P (wait b)" using wait_budget [of b] wait_limited by auto
  ultimately show ?case using attempt Suc.prems by blast
qed

lemma wait_iterate_limited: "limited b \<Longrightarrow> limited ((wait ^^ n) b)"
  by (induction n) (auto intro: wait_limited)

lemma wait_iterate_budget: "limited b \<Longrightarrow> budget ((wait ^^ n) b) = budget b - n"
proof (induction n)
  case (Suc n)
  let ?c = "(wait ^^ n) b"
  have lim: "limited ?c" using Suc.prems by (rule wait_iterate_limited)
  show ?case
  proof (cases "can ?c")
    case True
    with lim show ?thesis using wait_budget [of ?c] Suc by simp
  next
    case False
    then have "budget ?c = 0" using lim can_iff by blast
    with False lim Suc show ?thesis by (simp add: wait_exhausted)
  qed
qed simp

lemma can_after: "limited b \<Longrightarrow> can ((wait ^^ n) b) \<longleftrightarrow> n < budget b"
  using can_iff [OF wait_iterate_limited] by (simp add: wait_iterate_budget)

end

text \<open>
  A counter is limited when its options set a maximum below \<open>u32::MAX\<close> (at \<open>u32::MAX\<close>
  itself \<open>current_attempt + 1\<close> overflows) that it has not passed.
\<close>

definition backoff_limited :: "backoff_counter \<Rightarrow> bool" where
  "backoff_limited b =
     (case max_attempts (retry_options b) of
        None \<Rightarrow> False
      | Some m \<Rightarrow> unat m < 2 ^ 32 - 1 \<and> current_attempt b \<le> m)"

definition attempts_left :: "backoff_counter \<Rightarrow> nat" where
  "attempts_left b =
     (case max_attempts (retry_options b) of
        None \<Rightarrow> 0
      | Some m \<Rightarrow> unat m - unat (current_attempt b))"

lemma awaited_simps:
  "awaited b = (if can_attempt b then b\<lparr>current_attempt := current_attempt b + 1\<rparr> else b)"
  by (simp add: awaited_def await_attempt_def Let_def)

lemma retry_options_awaited [simp]: "retry_options (awaited b) = retry_options b"
  by (simp add: awaited_simps)

lemma backoff_new_simps [simp]:
  "retry_options (backoff_new ro) = ro" "current_attempt (backoff_new ro) = 0"
  by (simp_all add: backoff_new_def)

lemma can_attempt_iff:
  assumes "backoff_limited b"
  shows "can_attempt b \<longleftrightarrow> 0 < attempts_left b"
proof -
  obtain m where m: "max_attempts (retry_options b) = Some m" "unat m < 2 ^ 32 - 1"
    and le: "current_attempt b \<le> m"
    using assms by (auto simp: backoff_limited_def split: option.splits)
  from m(2) le have "unat (current_attempt b + 1) = Suc (unat (current_attempt b))"
    by (intro unat_u32_Suc) (simp add: word_le_nat_alt)
  with m(1) show ?thesis by (auto simp: can_attempt_def attempts_left_def word_le_nat_alt)
qed

lemma awaited_limited:
  assumes "backoff_limited b"
  shows "backoff_limited (awaited b)"
  using assms
  by (auto simp: backoff_limited_def awaited_simps can_attempt_def split: option.splits)

lemma awaited_attempts_left:
  assumes "backoff_limited b" and "can_attempt b"
  shows "Suc (attempts_left (awaited b)) = attempts_left b"
proof -
  obtain m where m: "max_attempts (retry_options b) = Some m" "unat m < 2 ^ 32 - 1"
    and le: "current_attempt b \<le> m"
    using assms by (auto simp: backoff_limited_def split: option.splits)
  from m(2) le have "unat (current_attempt b + 1) = Suc (unat (current_attempt b))"
    by (intro unat_u32_Suc) (simp add: word_le_nat_alt)
  with m(1) assms show ?thesis
    using can_attempt_iff [OF assms(1)] by (auto simp: attempts_left_def awaited_simps)
qed

interpretation backoff: retry_budget can_attempt awaited attempts_left backoff_limited
  by unfold_locales
    (simp_all add: can_attempt_iff awaited_limited awaited_attempts_left,
     simp add: awaited_simps can_attempt_iff)

section \<open>Delays\<close>

text \<open>
  The delay before jitter, over the natural numbers: the base doubled at every attempt and
  capped by the configured maximum.
\<close>

definition nominal_delay_ms :: "s2c_retry_options \<Rightarrow> nat \<Rightarrow> nat" where
  "nominal_delay_ms ro attempt =
     min (unat (max_delay_seconds ro) * 1000) (unat (base_delay_ms ro) * 2 ^ (attempt - 1))"

lemma unat_multiplier:
  assumes "0 < unat a"
  shows "unat (case checked_shl 1 (a - 1) of Some m \<Rightarrow> m | None \<Rightarrow> u64_max) =
         (if unat a - 1 < 64 then 2 ^ (unat a - 1) else 18446744073709551615)"
proof -
  from assms have "a \<noteq> 0" by auto
  then have "unat (a - 1) = unat a - 1" by (rule unat_minus_one)
  then show ?thesis by (simp add: checked_shl_one u64_simps)
qed

lemma min_saturating_mul:
  assumes "M \<le> 2 ^ 53" and "0 < unat a"
  shows "min M (unat (saturating_mul b
            (case checked_shl 1 (a - 1) of Some m \<Rightarrow> m | None \<Rightarrow> u64_max))) =
         min M (unat b * 2 ^ (unat a - 1))"
proof (cases "unat a - 1 < 64")
  case True
  with assms show ?thesis by (simp add: unat_saturating_mul unat_multiplier min_def)
next
  case False
  show ?thesis
  proof (cases "unat b = 0")
    case True
    then show ?thesis by (simp add: unat_saturating_mul)
  next
    case b: False
    have "2 ^ 64 \<le> (2 :: nat) ^ (unat a - 1)" using False by (intro power_increasing) simp_all
    with b have "M \<le> unat b * 2 ^ (unat a - 1)"
      using assms(1) mult_le_mono [of 1 "unat b" "2 ^ 64" "2 ^ (unat a - 1)"] by simp
    moreover have "M \<le> unat b * 18446744073709551615"
      using b assms(1) mult_le_mono1 [of 1 "unat b" 18446744073709551615] by simp
    ultimately show ?thesis
      using False assms by (simp add: unat_saturating_mul unat_multiplier)
  qed
qed

lemma calculate_duration_nominal:
  assumes "unat (max_delay_seconds (retry_options b)) * 1000 \<le> 2 ^ 53" and "0 < unat a"
  shows "\<exists>m. calculate_duration b a j = f64_scale m j \<and>
             unat m = nominal_delay_ms (retry_options b) (unat a) \<and> unat m \<le> 2 ^ 53"
proof -
  define m where "m = min (of_nat (unat (max_delay_seconds (retry_options b)) * 1000) :: u64)
    (saturating_mul (base_delay_ms (retry_options b))
      (case checked_shl 1 (a - 1) of Some m \<Rightarrow> m | None \<Rightarrow> u64_max))"
  let ?M = "unat (max_delay_seconds (retry_options b)) * 1000"
  have "unat (of_nat ?M :: u64) = ?M" using assms(1) by (simp add: unat_word_ariths)
  then have m: "unat m = nominal_delay_ms (retry_options b) (unat a)"
    unfolding m_def nominal_delay_ms_def min_saturating_mul [OF assms, symmetric]
    by (simp add: min_def word_le_nat_alt)
  moreover have "unat m \<le> 2 ^ 53" using m assms(1) by (simp add: nominal_delay_ms_def)
  moreover have "calculate_duration b a j = f64_scale m j"
    by (simp add: calculate_duration_def m_def Let_def)
  ultimately show ?thesis by blast
qed

text \<open>
  C36: how long \<open>await_attempt\<close> sleeps. Whatever the counter, limited or not, as long as its
  number of attempts is below \<open>u32::MAX\<close>: when no attempt is left it returns at once and
  unchanged; otherwise it counts one attempt and sleeps for the nominal delay of that attempt
  (the base delay doubled at every attempt, capped by \<open>max_delay_seconds\<close>) multiplied by the
  jitter \<open>j / 2 ^ 56\<close> in \<open>f64\<close> arithmetic and cut to whole milliseconds. All the rounding of
  that arithmetic moves the result by at most one millisecond up from the exact product, and
  never above the nominal delay.
\<close>

theorem await_attempt_delay:
  assumes "jitter_ok j" and "unat (current_attempt b) < 2 ^ 32 - 1"
    and "unat (max_delay_seconds (retry_options b)) * 1000 \<le> 2 ^ 53"
    and "nominal = nominal_delay_ms (retry_options b) (unat (current_attempt b) + 1)"
  shows "case await_attempt j b of
           (b', None) \<Rightarrow> \<not> can_attempt b \<and> b' = b
         | (b', Some d) \<Rightarrow>
             can_attempt b \<and> unat (current_attempt b') = unat (current_attempt b) + 1 \<and>
             retry_options b' = retry_options b \<and>
             unat d = round_f64 (nominal * j) div 2 ^ 56 \<and>
             nominal * j div 2 ^ 56 \<le> unat d \<and> unat d \<le> nominal * j div 2 ^ 56 + 1 \<and>
             unat d \<le> nominal"
proof (cases "can_attempt b")
  case False
  then show ?thesis by (simp add: await_attempt_def)
next
  case True
  let ?b = "b\<lparr>current_attempt := current_attempt b + 1\<rparr>"
  have n: "unat (current_attempt b + 1) = Suc (unat (current_attempt b))"
    using assms(2) by (intro unat_u32_Suc) simp
  then obtain m where m: "calculate_duration ?b (current_attempt b + 1) j = f64_scale m j"
    "unat m = nominal" "unat m \<le> 2 ^ 53"
    using calculate_duration_nominal [of ?b "current_attempt b + 1" j] assms(3,4) by auto
  show ?thesis
    using True n m unat_f64_scale [OF assms(1) m(3)] by (simp add: await_attempt_def Let_def)
qed

theorem await_attempt_delay_witness:
  "case await_attempt 36028797018963968 ((awaited ^^ 2) (backoff_new (to_unlimited retry_default))) of
     (b', None) \<Rightarrow> False
   | (b', Some d) \<Rightarrow> current_attempt b' = 3 \<and> 600 \<le> unat d \<and> unat d \<le> 601"
proof -
  let ?b = "(awaited ^^ 2) (backoff_new (to_unlimited retry_default))"
  have b: "?b = \<lparr>current_attempt = 2, retry_options = to_unlimited retry_default\<rparr>"
    by (simp add: numeral_2_eq_2 awaited_simps backoff_new_def can_attempt_def to_unlimited_def)
  have nom: "1200 = nominal_delay_ms (retry_options ?b) (unat (current_attempt ?b) + 1)"
    unfolding b by (simp add: nominal_delay_ms_def retry_default_def to_unlimited_def)
  have h: "jitter_ok 36028797018963968" "unat (current_attempt ?b) < 2 ^ 32 - 1"
    "unat (max_delay_seconds (retry_options ?b)) * 1000 \<le> 2 ^ 53"
    unfolding b by (simp_all add: jitter_ok_def retry_default_def to_unlimited_def)
  show ?thesis
    using await_attempt_delay [OF h nom] unfolding b
    by (simp add: await_attempt_def can_attempt_def to_unlimited_def Let_def)
qed

text \<open>
  C35: with \<open>max_attempts = Some m\<close>, \<open>m < u32::MAX\<close>, a new counter, and any counter once it
  has been reset, however it was used before, grants exactly \<open>m\<close> attempts: the calls of
  \<open>await_attempt\<close> that sleep are the first \<open>m\<close> ones.
\<close>

theorem backoff_grants_exactly:
  assumes "max_attempts (retry_options b) = Some m" and "unat m < 2 ^ 32 - 1"
    and "fresh = backoff_reset b \<or> fresh = backoff_new (retry_options b)"
  shows "(can_attempt ((awaited ^^ n) fresh) \<longleftrightarrow> n < unat m) \<and>
         (snd (await_attempt j ((awaited ^^ n) fresh)) \<noteq> None \<longleftrightarrow> n < unat m)"
proof -
  have "backoff_limited fresh" "attempts_left fresh = unat m"
    using assms by (auto simp: backoff_limited_def attempts_left_def backoff_reset_def)
  then have "can_attempt ((awaited ^^ n) fresh) \<longleftrightarrow> n < unat m" using backoff.can_after by metis
  then show ?thesis by (simp add: await_attempt_def Let_def)
qed

theorem backoff_grants_exactly_witness:
  "can_attempt ((awaited ^^ 2) (backoff_reset ((awaited ^^ 3) (backoff_new retry_default)))) \<and>
   \<not> can_attempt ((awaited ^^ 3) (backoff_reset ((awaited ^^ 3) (backoff_new retry_default))))"
proof -
  let ?b = "(awaited ^^ 3) (backoff_new retry_default)"
  have m: "max_attempts (retry_options ?b) = Some 3"
    by (simp add: numeral_3_eq_3 retry_default_def)
  show ?thesis
    using backoff_grants_exactly [OF m, of "backoff_reset ?b" 2] backoff_grants_exactly [OF m, of "backoff_reset ?b" 3]
    by simp
qed

end
