(* ===== verification/S2c_Error.thy ===== *)
theory S2c_Error
  imports S2c_Prelude
begin

text \<open>
  \<^verbatim>\<open>src/error.rs\<close> and \<^verbatim>\<open>src/network/error.rs\<close>: the object store's errors and which of them
  are transient, and the errors of the network layer.
\<close>

section \<open>Object-store errors\<close>

text \<open>
  \<open>object_store::Error\<close>. \<open>Generic\<close> carries the store's name and the text of its source;
  the variants that the sources never distinguish are \<open>OtherStoreError\<close> with the
  variant's name.
\<close>

datatype os_error =
    Generic (err_store: string) (err_source: string)
  | AlreadyExists (err_path: string)
  | NotFound (err_path: string)
  | OtherStoreError string

definition is_transient :: "os_error \<Rightarrow> bool" where
  "is_transient error =
     (case error of
        Generic store source \<Rightarrow>
          (let err_msg = to_lowercase source in
             contains err_msg ''slowdown''
             \<or> contains err_msg ''503''
             \<or> contains err_msg ''timeout''
             \<or> contains err_msg ''requesttimeout''
             \<or> contains err_msg ''internalerror''
             \<or> contains err_msg ''serviceunavailable''
             \<or> contains err_msg ''skewed'')
      | _ \<Rightarrow> False)"

lemma is_transient_simps [simp]:
  "\<not> is_transient (AlreadyExists p)"
  "\<not> is_transient (NotFound p)"
  "\<not> is_transient (OtherStoreError n)"
  by (simp_all add: is_transient_def)

lemma is_transient_generic: "is_transient e \<Longrightarrow> \<exists>store source. e = Generic store source"
  by (auto simp: is_transient_def split: os_error.splits)

section \<open>Network errors\<close>

text \<open>\<open>std::io::ErrorKind\<close> and an \<open>std::io::Error\<close> as its kind and text.\<close>

datatype error_kind =
    KNotFound | PermissionDenied | ConnectionRefused | ConnectionReset | ConnectionAborted
  | NotConnectedKind | AddrInUse | AddrNotAvailable | BrokenPipe | WouldBlock | InvalidInput
  | InvalidData | TimedOut | WriteZero | Interrupted | UnexpectedEof | OutOfMemory | Other

record io_error =
  io_kind :: error_kind
  io_msg :: string

datatype network_error =
    NetIo (net_kind: error_kind) (net_msg: string)
  | MessageTooLarge (net_max: u32) (net_size: u32)
  | InvalidProtobuf (net_err: string)

datatype client_error =
    ClientClosed
  | ClientIo network_error
  | ConnectTimeout
  | ClientNotConnected
  | Timeout

text \<open>\<open>map_err(|e| NetworkError::Io { kind: e.kind(), msg: e.to_string() })\<close>.\<close>

definition net_io :: "io_error \<Rightarrow> network_error" where
  "net_io e = NetIo (io_kind e) (io_msg e)"

end
