(* ===== verification/S2c_Paths.thy ===== *)
theory S2c_Paths
  imports S2c_Prelude
begin

text \<open>
  \<^verbatim>\<open>src/paths.rs\<close>: the object-store keys of a group. Log keys carry the inverted index, so
  that a listing in key order starts at the newest entry.
\<close>

record keys_resolver =
  group_prefix :: string
  log_prefix :: string
  snapshot :: string

definition keys_resolver_new :: "string \<Rightarrow> keys_resolver" where
  "keys_resolver_new group_id =
     (let gp = ''s2c/'' @ group_id @ ''/'';
          sn = gp @ ''snapshot.pb'';
          lp = gp @ ''log/''
      in \<lparr>group_prefix = gp, log_prefix = lp, snapshot = sn\<rparr>)"

definition log_entry_key :: "keys_resolver \<Rightarrow> u64 \<Rightarrow> string" where
  "log_entry_key self index = log_prefix self @ show_u64 index"

definition invert :: "u64 \<Rightarrow> u64" where
  "invert index = u64_max - index"

text \<open>The key under which the log stores the entry of an index (\<open>log_entry(invert(index))\<close>).\<close>

definition entry_key :: "string \<Rightarrow> u64 \<Rightarrow> string" where
  "entry_key group_id index = log_entry_key (keys_resolver_new group_id) (invert index)"

section \<open>Inversion\<close>

lemma unat_invert [u64_simps]: "unat (invert i) = 18446744073709551615 - unat i"
  unfolding invert_def by (subst unat_sub) (simp_all add: unat_u64_max)

lemma invert_invert [simp]: "invert (invert i) = i"
  by (simp add: invert_def)

lemma invert_inj [simp]: "invert i = invert j \<longleftrightarrow> i = j"
  by (metis invert_invert)

lemma invert_less_iff: "invert i < invert j \<longleftrightarrow> j < i"
  using unat_u64_lt [of i] unat_u64_lt [of j] unfolding word_less_nat_alt unat_invert by linarith

section \<open>Keys\<close>

lemma keys_resolver_new_simps [key_simps]:
  "group_prefix (keys_resolver_new g) = ''s2c/'' @ g @ ''/''"
  "log_prefix (keys_resolver_new g) = ''s2c/'' @ g @ ''/log/''"
  "snapshot (keys_resolver_new g) = ''s2c/'' @ g @ ''/snapshot.pb''"
  by (simp_all add: keys_resolver_new_def Let_def)

lemma entry_key_eq [key_simps]:
  "entry_key g i = ''s2c/'' @ g @ ''/log/'' @ show_u64 (invert i)"
  by (simp add: entry_key_def log_entry_key_def key_simps)

text \<open>Cutting a key at its last slash separates the index from everything before it.\<close>

lemma slash_notin_show_u64: "CHR ''/'' \<notin> set (show_u64 n)"
  unfolding show_u64_def using show_nat_digits not_digit(1) by blast

lemma last_segment_unique:
  assumes "p @ [c] @ s = q @ [c] @ t" and "c \<notin> set s" and "c \<notin> set t"
  shows "p = q \<and> s = t"
  using assms by (auto simp: append_eq_append_conv2 Cons_eq_append_conv append_eq_Cons_conv)

lemma entry_key_inj [simp]: "entry_key g i = entry_key h j \<longleftrightarrow> g = h \<and> i = j"
proof
  assume "entry_key g i = entry_key h j"
  then have "(''s2c/'' @ g @ ''/log'') @ [CHR ''/''] @ show_u64 (invert i) =
             (''s2c/'' @ h @ ''/log'') @ [CHR ''/''] @ show_u64 (invert j)"
    by (simp add: entry_key_eq)
  then have "''s2c/'' @ g @ ''/log'' = ''s2c/'' @ h @ ''/log'' \<and> show_u64 (invert i) = show_u64 (invert j)"
    by (rule last_segment_unique) (rule slash_notin_show_u64)+
  then show "g = h \<and> i = j" by simp
qed simp

lemma snapshot_not_entry: "entry_key g i \<noteq> snapshot (keys_resolver_new g)"
  by (simp add: key_simps)

text \<open>
  No two objects of the log collide. The key determines the group and the index, for any
  group names, slashes included, and no log entry has the key of a snapshot of its group.
\<close>

theorem entry_key_injective:
  "(entry_key g i = entry_key h j \<longleftrightarrow> g = h \<and> i = j) \<and>
   entry_key g i \<noteq> snapshot (keys_resolver_new g)"
  using snapshot_not_entry by simp

section \<open>Listing order\<close>

text \<open>
  Indices up to \<open>8446744073709551615\<close> invert to numbers of twenty digits, whose order as
  strings is their order as numbers.
\<close>

definition max_ordered_index :: u64 where
  "max_ordered_index = 8446744073709551615"

lemma length_show_inverted:
  assumes "i \<le> max_ordered_index"
  shows "length (show_u64 (invert i)) = 20"
proof -
  have "unat i \<le> 8446744073709551615"
    using assms by (simp add: max_ordered_index_def word_le_nat_alt)
  then have "10 ^ 19 \<le> unat (invert i)" "unat (invert i) < 10 ^ Suc 19"
    by (simp_all add: unat_invert)
  then show ?thesis unfolding show_u64_def using length_show_nat by fastforce
qed

lemma entry_key_less_iff:
  assumes "i \<le> max_ordered_index" and "j \<le> max_ordered_index"
  shows "str_less (entry_key g i) (entry_key g j) \<longleftrightarrow> j < i"
proof -
  have "str_less (entry_key g i) (entry_key g j) \<longleftrightarrow>
        str_less (show_u64 (invert i)) (show_u64 (invert j))"
    using str_less_append_same [of "''s2c/'' @ g @ ''/log/''"] by (simp add: entry_key_eq)
  also have "\<dots> \<longleftrightarrow> unat (invert i) < unat (invert j)"
    unfolding show_u64_def
    by (rule str_less_show_nat) (metis length_show_inverted assms show_u64_def)
  also have "\<dots> \<longleftrightarrow> j < i"
    using invert_less_iff by (simp add: word_less_nat_alt)
  finally show ?thesis .
qed

text \<open>
  A listing in byte order is a listing from the newest entry to the oldest. For indices
  up to \<open>max_ordered_index\<close>, sorting the keys of a group's log entries sorts the entries by
  descending index.
\<close>

theorem entry_keys_newest_first:
  assumes "\<And>i. i \<in> set is \<Longrightarrow> i \<le> max_ordered_index"
  shows "sorted_wrt str_less (map (entry_key g) is) \<longleftrightarrow> sorted_wrt (\<lambda>i j. j < i) is"
  using assms
proof (induction "is")
  case (Cons i "is")
  then have "str_less (entry_key g i) (entry_key g j) \<longleftrightarrow> j < i" if "j \<in> set is" for j
    using entry_key_less_iff that by simp
  with Cons show ?case by simp
qed simp

theorem entry_keys_newest_first_witness:
  "sorted_wrt str_less (map (entry_key ''g'') [100, 10, 9, 1]) \<and>
   \<not> sorted_wrt str_less (map (entry_key ''g'') [1, 9, 10, 100])"
proof -
  have "i \<le> max_ordered_index" if "i \<in> set [100, 10, 9, 1]" for i
    using that by (auto simp: max_ordered_index_def)
  note this [THEN entry_keys_newest_first [of "[100, 10, 9, 1]" "''g''"]]
  moreover have "i \<le> max_ordered_index" if "i \<in> set [1, 9, 10, 100]" for i
    using that by (auto simp: max_ordered_index_def)
  note this [THEN entry_keys_newest_first [of "[1, 9, 10, 100]" "''g''"]]
  ultimately show ?thesis by simp
qed

text \<open>
  The bound is the last one: one index further, the inverted number loses a digit and the
  newer entry sorts behind the older one.
\<close>

lemma entry_key_order_bound_sharp:
  "\<not> str_less (entry_key g (max_ordered_index + 1)) (entry_key g max_ordered_index)"
proof -
  have "invert max_ordered_index = 10000000000000000000"
    "invert (max_ordered_index + 1) = 9999999999999999999"
    by (simp_all add: invert_def u64_max_def max_ordered_index_def)
  then have "\<not> str_less (show_u64 (invert (max_ordered_index + 1))) (show_u64 (invert max_ordered_index))"
    by (simp add: show_u64_def show_nat.simps digit_char_def less_char_def)
  then show ?thesis
    using str_less_append_same [of "''s2c/'' @ g @ ''/log/''"] by (simp add: entry_key_eq)
qed

end
