(* ===== verification/S2c_Log.thy ===== *)
theory S2c_Log
  imports S2c_Backoff S2c_Error S2c_Paths
begin

text \<open>
  \<^verbatim>\<open>src/log.rs\<close>: the replicated log, one object per entry, created with \<open>PutMode::Create\<close>.

  The object store is a parameter: the record \<open>object_store\<close> of the calls the sources
  make, over an arbitrary store state \<open>'s\<close> (which holds whatever decides their outcome,
  failures included) and an arbitrary type \<open>'h\<close> of opened objects. \<open>create_store\<close> and
  its companions name the documented behaviour the log relies on, in terms of the
  contents of the store. The retry loops can run forever; they are
  \<open>partial_function (option)\<close>s, and \<open>None\<close> is a call that never returns.
\<close>

section \<open>The object store\<close>

record put_result =
  e_tag :: "string option"
  version :: "string option"

record ('s, 'h) object_store =
  path_from :: "string \<Rightarrow> string"
  filename :: "string \<Rightarrow> string option"
  put_opts :: "'s \<Rightarrow> string \<Rightarrow> bytes \<Rightarrow> (put_result, os_error) result \<times> 's"
  os_get :: "'s \<Rightarrow> string \<Rightarrow> ('h, os_error) result \<times> 's"
  os_bytes :: "'s \<Rightarrow> 'h \<Rightarrow> (bytes, os_error) result \<times> 's"
  os_list :: "'s \<Rightarrow> string \<Rightarrow> (string, os_error) result list \<times> 's"

text \<open>
  Documented behaviour of a store with contents \<open>C\<close>: \<open>PutMode::Create\<close> creates the
  object atomically or fails, and objects are never changed or removed (other writers may
  create further objects at any time, and a put that reports an error may still have taken
  effect).
\<close>

definition create_store :: "('s, 'h) object_store \<Rightarrow> ('s \<Rightarrow> string \<rightharpoonup> bytes) \<Rightarrow> bool" where
  "create_store os C =
     ((\<forall>s p b r s'. put_opts os s p b = (r, s') \<longrightarrow> C s \<subseteq>\<^sub>m C s') \<and>
      (\<forall>s p b x s'. put_opts os s p b = (Ok x, s') \<longrightarrow> C s p = None \<and> C s' p = Some b) \<and>
      (\<forall>s p b q s'. put_opts os s p b = (Err (AlreadyExists q), s') \<longrightarrow> C s' p \<noteq> None) \<and>
      (\<forall>s p r s'. os_get os s p = (r, s') \<longrightarrow> C s \<subseteq>\<^sub>m C s') \<and>
      (\<forall>s h r s'. os_bytes os s h = (r, s') \<longrightarrow> C s \<subseteq>\<^sub>m C s') \<and>
      (\<forall>s p r s'. os_list os s p = (r, s') \<longrightarrow> C s \<subseteq>\<^sub>m C s'))"

text \<open>No other writer: a put creates the object it names or changes nothing, and reads change
  nothing.\<close>

definition sole_writer :: "('s, 'h) object_store \<Rightarrow> ('s \<Rightarrow> string \<rightharpoonup> bytes) \<Rightarrow> bool" where
  "sole_writer os C =
     ((\<forall>s p b r s'. put_opts os s p b = (r, s') \<longrightarrow>
         C s' = C s \<or> C s p = None \<and> C s' = (C s)(p \<mapsto> b)) \<and>
      (\<forall>s p r s'. os_get os s p = (r, s') \<longrightarrow> C s' = C s) \<and>
      (\<forall>s h r s'. os_bytes os s h = (r, s') \<longrightarrow> C s' = C s) \<and>
      (\<forall>s p r s'. os_list os s p = (r, s') \<longrightarrow> C s' = C s))"

text \<open>Reads of an existing object succeed and return its bytes.\<close>

definition readable_store :: "('s, 'h) object_store \<Rightarrow> ('s \<Rightarrow> string \<rightharpoonup> bytes) \<Rightarrow> bool" where
  "readable_store os C =
     (\<forall>s p b. C s p = Some b \<longrightarrow>
        (\<exists>h s1 s2. os_get os s p = (Ok h, s1) \<and> os_bytes os s1 h = (Ok b, s2)))"

section \<open>The log\<close>

record s2c_log =
  log_key_resolver :: keys_resolver
  log_options :: s2c_options

definition s2c_log_new :: "string \<Rightarrow> s2c_options \<Rightarrow> s2c_log" where
  "s2c_log_new group_id options =
     \<lparr>log_key_resolver = keys_resolver_new group_id, log_options = options\<rparr>"

partial_function (option) append_loop ::
  "('s, 'h) object_store \<Rightarrow> string \<Rightarrow> bytes \<Rightarrow> backoff_counter \<Rightarrow> 's \<Rightarrow>
   ((put_result, os_error) result \<times> 's) option" where
  "append_loop os key payload backoff s =
     (case put_opts os s (path_from os key) payload of
        (Ok re, s') \<Rightarrow> Some (Ok re, s')
      | (Err e, s') \<Rightarrow>
          (case e of
             AlreadyExists p \<Rightarrow> Some (Err e, s')
           | Generic store source \<Rightarrow>
               if is_transient e
               then if can_attempt backoff
                    then append_loop os key payload (awaited backoff) s'
                    else Some (Err e, s')
               else append_loop os key payload backoff s'
           | NotFound p \<Rightarrow> Some (Err e, s')
           | OtherStoreError n \<Rightarrow> Some (Err e, s')))"

definition append_log ::
  "('s, 'h) object_store \<Rightarrow> s2c_log \<Rightarrow> u64 \<Rightarrow> bytes \<Rightarrow> 's \<Rightarrow>
   ((put_result, os_error) result \<times> 's) option" where
  "append_log os self index payload s =
     append_loop os (log_entry_key (log_key_resolver self) (invert index)) payload
       (backoff_new (retry (log_options self))) s"

text \<open>
  \<open>get_head\<close> consumes the listing stream. A listing is a finite sequence of locations and
  errors that ends; once the attempts are used up the source polls it again without a delay,
  which on a finite stream still comes to an end, and on one that yielded transient errors for
  ever would not.
\<close>

fun get_head_loop ::
  "('s, 'h) object_store \<Rightarrow> backoff_counter \<Rightarrow> (string, os_error) result list \<Rightarrow>
   (u64 option, os_error) result exec" where
  "get_head_loop os backoff [] = Return (Ok None)"
| "get_head_loop os backoff (Err e # stream) =
     (if is_transient e
      then if can_attempt backoff
           then get_head_loop os (awaited backoff) stream
           else get_head_loop os backoff stream
      else Return (Err e))"
| "get_head_loop os backoff (Ok location # stream) =
     (case filename os location of
        None \<Rightarrow> Return (Ok None)
      | Some name \<Rightarrow>
          (case parse_u64 name of
             None \<Rightarrow> Panic ''Not a valid index''
           | Some index \<Rightarrow> Return (Ok (Some index))))"

definition get_head ::
  "('s, 'h) object_store \<Rightarrow> s2c_log \<Rightarrow> 's \<Rightarrow> (u64 option, os_error) result exec \<times> 's" where
  "get_head os self s =
     (case os_list os s (path_from os (log_prefix (log_key_resolver self))) of
        (stream, s') \<Rightarrow>
          (get_head_loop os (backoff_new (retry (log_options self))) stream, s'))"

partial_function (option) get_at_loop ::
  "('s, 'h) object_store \<Rightarrow> string \<Rightarrow> backoff_counter \<Rightarrow> 's \<Rightarrow>
   ((bytes, os_error) result \<times> 's) option" where
  "get_at_loop os p backoff s =
     (case os_get os s (path_from os p) of
        (Ok re, s1) \<Rightarrow>
          (case os_bytes os s1 re of
             (Ok bs, s2) \<Rightarrow> Some (Ok bs, s2)
           | (Err e, s2) \<Rightarrow>
               if is_transient e \<and> can_attempt (backoff_reset backoff)
               then get_at_loop os p (awaited (backoff_reset backoff)) s2
               else Some (Err e, s2))
      | (Err e, s1) \<Rightarrow>
          if is_transient e \<and> can_attempt backoff
          then get_at_loop os p (awaited backoff) s1
          else Some (Err e, s1))"

definition get_at ::
  "('s, 'h) object_store \<Rightarrow> s2c_log \<Rightarrow> u64 \<Rightarrow> 's \<Rightarrow> ((bytes, os_error) result \<times> 's) option" where
  "get_at os self index s =
     get_at_loop os (log_entry_key (log_key_resolver self) (invert index))
       (backoff_new (retry (log_options self))) s"

section \<open>Rules for the loops\<close>

lemma create_storeD:
  assumes "create_store os C"
  shows create_store_put_mono: "put_opts os s p b = (r, s') \<Longrightarrow> C s \<subseteq>\<^sub>m C s'"
    and create_store_put_ok: "put_opts os s p b = (Ok x, s') \<Longrightarrow> C s p = None \<and> C s' p = Some b"
    and create_store_put_exists: "put_opts os s p b = (Err (AlreadyExists q), s') \<Longrightarrow> C s' p \<noteq> None"
    and create_store_get_mono: "os_get os s p = (g, s') \<Longrightarrow> C s \<subseteq>\<^sub>m C s'"
    and create_store_bytes_mono: "os_bytes os s h = (y, s') \<Longrightarrow> C s \<subseteq>\<^sub>m C s'"
    and create_store_list_mono: "os_list os s p = (l, s') \<Longrightarrow> C s \<subseteq>\<^sub>m C s'"
  using assms unfolding create_store_def by metis+

text \<open>
  Induction on the puts of an \<open>append\<close> that returned: the last put gives the answer, every
  earlier one failed with a \<open>Generic\<close> error.
\<close>

lemma append_loop_induct [consumes 1, case_names last retry]:
  assumes ret: "append_loop os key payload backoff s = Some (r, s')"
    and last: "\<And>backoff s r s'. put_opts os s (path_from os key) payload = (r, s') \<Longrightarrow>
                 (\<And>store source. r = Err (Generic store source) \<Longrightarrow>
                    is_transient (Generic store source) \<and> \<not> can_attempt backoff) \<Longrightarrow>
                 P backoff s r s'"
    and retry: "\<And>backoff backoff' s store source s1 r s'.
                 put_opts os s (path_from os key) payload = (Err (Generic store source), s1) \<Longrightarrow>
                 P backoff' s1 r s' \<Longrightarrow> P backoff s r s'"
  shows "P backoff s r s'"
proof -
  let ?Q = "\<lambda>os' key' payload' backoff s (res :: (put_result, os_error) result \<times> 'a).
     os' = os \<longrightarrow> key' = key \<longrightarrow> payload' = payload \<longrightarrow> P backoff s (fst res) (snd res)"
  have "?Q os key payload backoff s (r, s')"
  proof (rule append_loop.raw_induct [where P = ?Q, OF _ ret], goal_cases)
    case (1 loop os' key' payload' backoff s res)
    show ?case
    proof (intro impI)
      assume eq: "os' = os" "key' = key" "payload' = payload"
      obtain r0 s1 where put: "put_opts os s (path_from os key) payload = (r0, s1)" by fastforce
      have again: "P backoff s (fst res) (snd res)"
        if "r0 = Err (Generic store source)" "loop os key payload b' s1 = Some res" for store source b'
        using retry [of s store source s1 b' "fst res" "snd res" backoff] put that 1(1) [OF that(2)]
        by simp
      have here: "P backoff s (fst res) (snd res)"
        if "res = (r0, s1)" "\<And>store source. r0 = Err (Generic store source) \<Longrightarrow>
              is_transient (Generic store source) \<and> \<not> can_attempt backoff"
        using last [OF put that(2)] that(1) by simp
      note body = 1(2) [unfolded eq put prod.case]
      show "P backoff s (fst res) (snd res)"
      proof (cases r0)
        case (Ok re)
        with body here show ?thesis by simp
      next
        case (Err e)
        with body here again show ?thesis by (cases e) (auto split: if_splits)
      qed
    qed
  qed
  then show ?thesis by simp
qed

section \<open>What a call of \<open>append\<close> does\<close>

lemma append_loop_mono:
  assumes "append_loop os key payload backoff s = Some (r, s')" and "create_store os C"
  shows "C s \<subseteq>\<^sub>m C s'"
  using assms(1)
  by (induction rule: append_loop_induct)
    (use create_store_put_mono [OF assms(2)] in \<open>blast intro: map_le_trans\<close>)+

lemma append_loop_ok:
  assumes "append_loop os key payload backoff s = Some (Ok x, s')" and cs: "create_store os C"
  shows "C s (path_from os key) = None \<and> C s' (path_from os key) = Some payload"
  using assms(1)
proof (induction backoff s "Ok x :: (put_result, os_error) result" s' rule: append_loop_induct)
  case (last backoff s s')
  from last(1) show ?case by (rule create_store_put_ok [OF cs])
next
  case (retry backoff backoff' s store source s1 s')
  then have "C s \<subseteq>\<^sub>m C s1" using create_store_put_mono [OF cs] by blast
  with retry show ?case by (metis domIff map_le_def)
qed

lemma append_loop_exists:
  assumes "append_loop os key payload backoff s = Some (Err (AlreadyExists q), s')"
    and cs: "create_store os C"
  shows "C s' (path_from os key) \<noteq> None"
  using assms(1)
  by (induction backoff s "Err (AlreadyExists q) :: (put_result, os_error) result" s'
      rule: append_loop_induct)
    (use create_store_put_exists [OF cs] in blast)+

lemma append_loop_sole_writer:
  assumes "append_loop os key payload backoff s = Some (r, s')" and sw: "sole_writer os C"
  shows "C s' = C s \<or> C s (path_from os key) = None \<and> C s' = (C s)(path_from os key \<mapsto> payload)"
  using assms(1)
proof (induction rule: append_loop_induct)
  case (last backoff s r s')
  from last(1) sw show ?case unfolding sole_writer_def by blast
next
  case (retry backoff backoff' s store source s1 r s')
  from retry(1) sw
  have "C s1 = C s \<or> C s (path_from os key) = None \<and> C s1 = (C s)(path_from os key \<mapsto> payload)"
    unfolding sole_writer_def by blast
  with retry.IH show ?case by auto
qed

subsection \<open>Termination\<close>

text \<open>\<open>append\<close> gives up after its attempts when every \<open>Generic\<close> failure is transient.\<close>

definition generic_is_transient :: "('s, 'h) object_store \<Rightarrow> bool" where
  "generic_is_transient os =
     (\<forall>s p b store source s'. put_opts os s p b = (Err (Generic store source), s') \<longrightarrow>
        is_transient (Generic store source))"

lemma append_loop_terminates:
  assumes "backoff_limited backoff" and gt: "generic_is_transient os"
  shows "\<exists>r s'. append_loop os key payload backoff s = Some (r, s')"
  using assms(1)
proof (induction backoff arbitrary: s rule: backoff.retry_induct)
  case (exhausted b)
  obtain r s' where put: "put_opts os s (path_from os key) payload = (r, s')" by fastforce
  with gt have "is_transient (Generic store source)" if "r = Err (Generic store source)" for store source
    using that unfolding generic_is_transient_def by blast
  with put exhausted show ?case
    by (subst append_loop.simps) (auto split: result.splits os_error.splits)
next
  case (attempt b)
  obtain r s' where put: "put_opts os s (path_from os key) payload = (r, s')" by fastforce
  with gt have "is_transient (Generic store source)" if "r = Err (Generic store source)" for store source
    using that unfolding generic_is_transient_def by blast
  with put attempt show ?case
    by (subst append_loop.simps) (auto split: result.splits os_error.splits)
qed

section \<open>What a call of \<open>get_at\<close> does\<close>

lemma get_at_loop_induct [consumes 1, case_names last retry_get retry_bytes]:
  assumes ret: "get_at_loop os p backoff s = Some (r, s')"
    and last: "\<And>backoff s re s1 r s'.
        (os_get os s (path_from os p) = (Ok re, s1) \<and> os_bytes os s1 re = (r, s')) \<or>
        (\<exists>e. os_get os s (path_from os p) = (Err e, s') \<and> r = Err e) \<Longrightarrow> P backoff s r s'"
    and retry_get: "\<And>backoff backoff' s e s1 r s'.
        os_get os s (path_from os p) = (Err e, s1) \<Longrightarrow> P backoff' s1 r s' \<Longrightarrow> P backoff s r s'"
    and retry_bytes: "\<And>backoff backoff' s re s1 e s2 r s'.
        os_get os s (path_from os p) = (Ok re, s1) \<Longrightarrow> os_bytes os s1 re = (Err e, s2) \<Longrightarrow>
        P backoff' s2 r s' \<Longrightarrow> P backoff s r s'"
  shows "P backoff s r s'"
proof -
  let ?Q = "\<lambda>os' p' backoff s (res :: (bytes, os_error) result \<times> 'a).
     os' = os \<longrightarrow> p' = p \<longrightarrow> P backoff s (fst res) (snd res)"
  have "?Q os p backoff s (r, s')"
    by (rule get_at_loop.raw_induct [where P = ?Q, OF _ ret])
      (auto split: prod.splits result.splits if_splits intro: last,
        (metis retry_get retry_bytes last)+)
  then show ?thesis by simp
qed

lemma get_at_loop_mono:
  assumes "get_at_loop os p backoff s = Some (r, s')" and cs: "create_store os C"
  shows "C s \<subseteq>\<^sub>m C s'"
  using assms(1)
  by (induction rule: get_at_loop_induct)
    (use create_store_get_mono [OF cs] create_store_bytes_mono [OF cs]
      in \<open>metis map_le_trans\<close>)+

lemma get_at_loop_readable:
  assumes "readable_store os C" and "C s (path_from os p) = Some b"
  shows "\<exists>s'. get_at_loop os p backoff s = Some (Ok b, s')"
proof -
  obtain h s1 s2 where "os_get os s (path_from os p) = (Ok h, s1)" "os_bytes os s1 h = (Ok b, s2)"
    using assms unfolding readable_store_def by blast
  then show ?thesis by (subst get_at_loop.simps) simp
qed

section \<open>A store that recovers\<close>

text \<open>
  The faults of the store run out: \<open>faults\<close> bounds how many transient failures of reads
  and \<open>Generic\<close> failures of puts are still to come.
\<close>

definition recovering :: "('s, 'h) object_store \<Rightarrow> ('s \<Rightarrow> nat) \<Rightarrow> bool" where
  "recovering os faults =
     ((\<forall>s p b r s'. put_opts os s p b = (r, s') \<longrightarrow>
         faults s' \<le> faults s \<and> (\<forall>store source. r = Err (Generic store source) \<longrightarrow> faults s' < faults s)) \<and>
      (\<forall>s p r s'. os_get os s p = (r, s') \<longrightarrow>
         faults s' \<le> faults s \<and> (\<forall>e. r = Err e \<longrightarrow> is_transient e \<longrightarrow> faults s' < faults s)) \<and>
      (\<forall>s h r s'. os_bytes os s h = (r, s') \<longrightarrow>
         faults s' \<le> faults s \<and> (\<forall>e. r = Err e \<longrightarrow> is_transient e \<longrightarrow> faults s' < faults s)) \<and>
      (\<forall>s p items s'. os_list os s p = (items, s') \<longrightarrow> faults s' \<le> faults s))"

lemma recoveringD:
  assumes "recovering os faults"
  shows recovering_put: "put_opts os s p b = (r, s') \<Longrightarrow> faults s' \<le> faults s"
    and recovering_put_generic:
      "put_opts os s p b = (Err (Generic store source), s') \<Longrightarrow> faults s' < faults s"
    and recovering_get: "os_get os s p = (g, s') \<Longrightarrow> faults s' \<le> faults s"
    and recovering_get_transient:
      "os_get os s p = (Err e, s') \<Longrightarrow> is_transient e \<Longrightarrow> faults s' < faults s"
    and recovering_bytes: "os_bytes os s h = (y, s') \<Longrightarrow> faults s' \<le> faults s"
    and recovering_bytes_transient:
      "os_bytes os s h = (Err e, s') \<Longrightarrow> is_transient e \<Longrightarrow> faults s' < faults s"
    and recovering_list: "os_list os s p = (items, s') \<Longrightarrow> faults s' \<le> faults s"
  using assms unfolding recovering_def by metis+

lemma append_loop_recovers:
  assumes rec: "recovering os faults"
  shows "\<exists>r s'. append_loop os key b backoff s = Some (r, s') \<and> faults s' \<le> faults s \<and>
           (\<forall>store source. r = Err (Generic store source) \<longrightarrow> faults s' < faults s)"
proof (induction "faults s" arbitrary: s backoff rule: less_induct)
  case less
  obtain r s1 where put: "put_opts os s (path_from os key) b = (r, s1)" by fastforce
  note le = recovering_put [OF rec put]
  have again: "\<exists>r s'. append_loop os key b backoff' s1 = Some (r, s') \<and> faults s' \<le> faults s \<and>
      (\<forall>store source. r = Err (Generic store source) \<longrightarrow> faults s' < faults s)"
    if "faults s1 < faults s" for backoff'
    using less [OF that, of backoff'] le by fastforce
  show ?case
  proof (cases r)
    case (Ok x)
    with put le show ?thesis by (subst append_loop.simps) simp
  next
    case (Err e)
    show ?thesis
    proof (cases e)
      case (Generic store source)
      with put Err have lt: "faults s1 < faults s" by (simp add: recovering_put_generic [OF rec])
      with again [OF lt] put Err Generic show ?thesis by (subst append_loop.simps) auto
    qed (use put Err le in \<open>subst append_loop.simps, simp\<close>)+
  qed
qed

lemma append_log_recovers:
  assumes "recovering os faults"
  obtains r s' where "append_log os self i b s = Some (r, s')" "faults s' \<le> faults s"
    "\<And>store source. r = Err (Generic store source) \<Longrightarrow> faults s' < faults s"
  using append_loop_recovers [OF assms] unfolding append_log_def by blast

lemma get_at_loop_recovers:
  assumes rec: "recovering os faults"
  shows "\<exists>r s'. get_at_loop os p backoff s = Some (r, s') \<and> faults s' \<le> faults s \<and>
           (\<forall>e. r = Err e \<longrightarrow> is_transient e \<longrightarrow> faults s' < faults s)"
proof (induction "faults s" arbitrary: s backoff rule: less_induct)
  case less
  have again: "\<exists>r s'. get_at_loop os p backoff' s1 = Some (r, s') \<and> faults s' \<le> faults s \<and>
      (\<forall>e. r = Err e \<longrightarrow> is_transient e \<longrightarrow> faults s' < faults s)"
    if "faults s1 < faults s" for s1 backoff'
    using less [OF that, of backoff'] that by fastforce
  obtain g s1 where get: "os_get os s (path_from os p) = (g, s1)" by fastforce
  show ?case
  proof (cases g)
    case (Err e)
    with get have "is_transient e \<Longrightarrow> faults s1 < faults s" by (simp add: recovering_get_transient [OF rec])
    then show ?thesis
      using again [of s1 "awaited backoff"] get Err recovering_get [OF rec get]
      by (subst get_at_loop.simps) auto
  next
    case (Ok h)
    obtain y s2 where bytes: "os_bytes os s1 h = (y, s2)" by fastforce
    note le = order.trans [OF recovering_bytes [OF rec bytes] recovering_get [OF rec get]]
    show ?thesis
    proof (cases y)
      case (Err e)
      with bytes recovering_get [OF rec get] have "is_transient e \<Longrightarrow> faults s2 < faults s"
        using recovering_bytes_transient [OF rec] by fastforce
      then show ?thesis
        using again [of s2 "awaited (backoff_reset backoff)"] get bytes Ok Err le
        by (subst get_at_loop.simps) auto
    qed (use get bytes Ok le in \<open>subst get_at_loop.simps, simp\<close>)
  qed
qed

lemma get_at_recovers:
  assumes "recovering os faults"
  obtains r s' where "get_at os self i s = Some (r, s')" "faults s' \<le> faults s"
    "\<And>e. r = Err e \<Longrightarrow> is_transient e \<Longrightarrow> faults s' < faults s"
  using get_at_loop_recovers [OF assms] unfolding get_at_def by blast

lemma get_head_loop_error:
  "get_head_loop os backoff items = Return (Err e) \<Longrightarrow> \<not> is_transient e"
  by (induction os backoff items rule: get_head_loop.induct) (auto split: if_splits option.splits)

lemma get_head_recovers:
  assumes "recovering os faults" and "get_head os self s = (r, s')"
  shows "faults s' \<le> faults s \<and> (\<forall>e. r = Return (Err e) \<longrightarrow> \<not> is_transient e)"
  using assms(2) recovering_list [OF assms(1)]
  by (auto simp: get_head_def dest: get_head_loop_error split: prod.splits)

section \<open>The log as an interface\<close>

text \<open>
  What the state machine relies on: a log of entries by index in which an append that
  succeeds found its index free and leaves its payload there, and in which nothing is ever
  lost. \<open>env\<close> is whatever the operations run against; \<open>valid\<close> is the contract on it.
\<close>

locale write_once_log =
  fixes valid :: "'env \<Rightarrow> bool"
    and entry :: "'env \<Rightarrow> 's \<Rightarrow> u64 \<Rightarrow> bytes option"
    and app :: "'env \<Rightarrow> u64 \<Rightarrow> bytes \<Rightarrow> 's \<Rightarrow> (('r, os_error) result \<times> 's) option"
  assumes app_mono: "valid env \<Longrightarrow> app env i b s = Some (r, s') \<Longrightarrow> entry env s \<subseteq>\<^sub>m entry env s'"
    and app_ok: "valid env \<Longrightarrow> app env i b s = Some (Ok x, s') \<Longrightarrow>
                 entry env s i = None \<and> entry env s' i = Some b"
    and app_exists: "valid env \<Longrightarrow> app env i b s = Some (Err (AlreadyExists q), s') \<Longrightarrow>
                 entry env s' i \<noteq> None"
begin

lemma app_ok_stored:
  "valid env \<Longrightarrow> app env i b s = Some (Ok x, s') \<Longrightarrow> entry env s' \<subseteq>\<^sub>m entry env t \<Longrightarrow>
   entry env t i = Some b"
  by (metis app_ok domI map_le_def)

lemma app_ok_exclusive:
  "valid env \<Longrightarrow> app env i b s = Some (Ok x, s') \<Longrightarrow> entry env s' \<subseteq>\<^sub>m entry env t \<Longrightarrow>
   app env i c t = Some (r, t') \<Longrightarrow> \<not> is_ok r"
  by (cases r) (metis app_ok app_ok_stored option.distinct(1), simp)

lemma app_taken:
  "valid env \<Longrightarrow> entry env s i \<noteq> None \<Longrightarrow> app env i b s = Some (r, s') \<Longrightarrow> \<not> is_ok r"
  by (cases r) (metis app_ok, simp)

end

text \<open>A log whose entries can be read back.\<close>

locale readable_log = write_once_log +
  fixes readable :: "'env \<Rightarrow> bool"
    and rd :: "'env \<Rightarrow> u64 \<Rightarrow> 's \<Rightarrow> ((bytes, os_error) result \<times> 's) option"
  assumes rd_mono: "valid env \<Longrightarrow> rd env i s = Some (r, s') \<Longrightarrow> entry env s \<subseteq>\<^sub>m entry env s'"
    and rd_entry: "readable env \<Longrightarrow> entry env s i = Some b \<Longrightarrow> \<exists>s'. rd env i s = Some (Ok b, s')"
begin

lemma rd_after_app:
  assumes "valid env" and "readable env" and "app env i b s = Some (Ok x, s')"
    and "entry env s' \<subseteq>\<^sub>m entry env t"
  shows "\<exists>t'. rd env i t = Some (Ok b, t') \<and> entry env t \<subseteq>\<^sub>m entry env t'"
  using assms app_ok_stored rd_entry rd_mono by blast

end

type_synonym ('s, 'h) log_env =
  "('s, 'h) object_store \<times> ('s \<Rightarrow> string \<rightharpoonup> bytes) \<times> s2c_log"

definition log_valid :: "('s, 'h) log_env \<Rightarrow> bool" where
  "log_valid env = (case env of (os, C, self) \<Rightarrow> create_store os C)"

definition log_readable :: "('s, 'h) log_env \<Rightarrow> bool" where
  "log_readable env = (case env of (os, C, self) \<Rightarrow> readable_store os C)"

definition log_contents :: "('s, 'h) log_env \<Rightarrow> 's \<Rightarrow> u64 \<Rightarrow> bytes option" where
  "log_contents env s i =
     (case env of (os, C, self) \<Rightarrow>
        C s (path_from os (log_entry_key (log_key_resolver self) (invert i))))"

definition log_append :: "('s, 'h) log_env \<Rightarrow> u64 \<Rightarrow> bytes \<Rightarrow> 's \<Rightarrow> ((put_result, os_error) result \<times> 's) option" where
  "log_append env i b s = (case env of (os, C, self) \<Rightarrow> append_log os self i b s)"

definition log_read :: "('s, 'h) log_env \<Rightarrow> u64 \<Rightarrow> 's \<Rightarrow> ((bytes, os_error) result \<times> 's) option" where
  "log_read env i s = (case env of (os, C, self) \<Rightarrow> get_at os self i s)"

lemmas log_env_defs =
  log_valid_def log_readable_def log_contents_def log_append_def log_read_def

lemma log_contents_mono: "C s \<subseteq>\<^sub>m C s' \<Longrightarrow> log_contents (os, C, self) s \<subseteq>\<^sub>m log_contents (os, C, self) s'"
  by (auto simp: map_le_def log_contents_def dom_def)

interpretation slog: write_once_log log_valid log_contents log_append
proof (unfold_locales, goal_cases)
  case (1 env i b s r s')
  then show ?case
    by (cases env) (auto simp: log_valid_def log_append_def append_log_def
        intro: log_contents_mono append_loop_mono)
next
  case (2 env i b s x s')
  then show ?case
    by (cases env) (auto simp: log_env_defs append_log_def dest: append_loop_ok)
next
  case (3 env i b s q s')
  then show ?case
    by (cases env) (auto simp: log_env_defs append_log_def dest: append_loop_exists)
qed

interpretation slog: readable_log log_valid log_contents log_append log_readable log_read
proof (unfold_locales, goal_cases)
  case (1 env i s r s')
  then show ?case
    by (cases env) (auto simp: log_valid_def log_read_def get_at_def
        intro: log_contents_mono get_at_loop_mono)
next
  case (2 env s i b)
  then show ?case
    by (cases env) (auto simp: log_env_defs get_at_def intro: get_at_loop_readable)
qed

section \<open>A store in memory\<close>

text \<open>
  A concrete store, for the examples below: its objects, and a queue of failures that the
  next puts report as \<open>Generic\<close> errors before touching anything.
\<close>

record mem_store =
  mem_objects :: "(string \<times> bytes) list"
  mem_faults :: "string list"

definition mem_put :: "mem_store \<Rightarrow> string \<Rightarrow> bytes \<Rightarrow> (put_result, os_error) result \<times> mem_store" where
  "mem_put s p b =
     (case mem_faults s of
        f # fs \<Rightarrow> (Err (Generic ''memory'' f), s\<lparr>mem_faults := fs\<rparr>)
      | [] \<Rightarrow>
          (case map_of (mem_objects s) p of
             Some _ \<Rightarrow> (Err (AlreadyExists p), s)
           | None \<Rightarrow> (Ok \<lparr>e_tag = None, version = None\<rparr>,
                      s\<lparr>mem_objects := (p, b) # mem_objects s\<rparr>)))"

definition mem_get :: "mem_store \<Rightarrow> string \<Rightarrow> (string, os_error) result \<times> mem_store" where
  "mem_get s p = (case map_of (mem_objects s) p of None \<Rightarrow> (Err (NotFound p), s) | Some _ \<Rightarrow> (Ok p, s))"

definition mem_bytes :: "mem_store \<Rightarrow> string \<Rightarrow> (bytes, os_error) result \<times> mem_store" where
  "mem_bytes s p = (case map_of (mem_objects s) p of None \<Rightarrow> (Err (NotFound p), s) | Some b \<Rightarrow> (Ok b, s))"

fun insert_key :: "string \<Rightarrow> string list \<Rightarrow> string list" where
  "insert_key k [] = [k]"
| "insert_key k (x # xs) = (if str_less k x then k # x # xs else x # insert_key k xs)"

definition mem_list :: "mem_store \<Rightarrow> string \<Rightarrow> (string, os_error) result list \<times> mem_store" where
  "mem_list s p =
     (map Ok (foldr insert_key (filter (\<lambda>k. take (length p) k = p) (map fst (mem_objects s))) []), s)"

definition memory :: "(mem_store, string) object_store" where
  "memory =
     \<lparr>path_from = (\<lambda>k. k), filename = (\<lambda>k. Some (rev (takeWhile (\<lambda>c. c \<noteq> CHR ''/'') (rev k)))),
      put_opts = mem_put, os_get = mem_get, os_bytes = mem_bytes, os_list = mem_list\<rparr>"

abbreviation mem_contents :: "mem_store \<Rightarrow> string \<rightharpoonup> bytes" where
  "mem_contents s \<equiv> map_of (mem_objects s)"

lemmas memory_defs = memory_def mem_put_def mem_get_def mem_bytes_def mem_list_def

lemma memory_simps [simp]:
  "path_from memory = (\<lambda>k. k)" "put_opts memory = mem_put" "os_get memory = mem_get"
  "os_bytes memory = mem_bytes" "os_list memory = mem_list"
  by (simp_all add: memory_def)

lemma memory_create_store: "create_store memory mem_contents"
  unfolding create_store_def
  by (auto simp: memory_defs map_le_def split: list.splits option.splits)

lemma memory_sole_writer: "sole_writer memory mem_contents"
  unfolding sole_writer_def
  by (auto simp: memory_defs split: list.splits option.splits)

lemma memory_recovering: "recovering memory (\<lambda>s. length (mem_faults s))"
  unfolding recovering_def
  by (auto simp: memory_defs split: list.splits option.splits)

lemma memory_readable: "readable_store memory mem_contents"
  unfolding readable_store_def by (auto simp: memory_defs)

definition mem_empty :: mem_store where
  "mem_empty = \<lparr>mem_objects = [], mem_faults = []\<rparr>"

definition example_log :: s2c_log where
  "example_log = s2c_log_new ''g'' options_default"

lemma example_log_simps:
  "retry (log_options example_log) = retry_default"
  "log_entry_key (log_key_resolver example_log) (invert i) = entry_key ''g'' i"
  by (simp_all add: example_log_def s2c_log_new_def options_default_def entry_key_def)

lemma example_append:
  "append_log memory example_log 1 b mem_empty =
     Some (Ok \<lparr>e_tag = None, version = None\<rparr>, mem_empty\<lparr>mem_objects := [(entry_key ''g'' 1, b)]\<rparr>)"
  unfolding append_log_def
  by (subst append_loop.simps) (simp add: example_log_simps mem_put_def mem_empty_def)

section \<open>Properties\<close>

text \<open>
  C3: the log is write-once. When an append at an index has succeeded, every later append
  at that index, by whichever node and with whatever payload, fails, for as long as the
  store keeps its objects.
\<close>

theorem append_exclusive:
  assumes "create_store os C"
    and "append_log os self i b s = Some (Ok x, s1)"
    and "C s1 \<subseteq>\<^sub>m C t"
    and "append_log os self i c t = Some (r, t')"
  shows "\<not> is_ok r"
  using slog.app_ok_exclusive [of "(os, C, self)" i b s x s1 t c r t']
    log_contents_mono [OF assms(3), of os self] assms
  by (simp add: log_valid_def log_append_def)

theorem append_exclusive_witness:
  "(case append_log memory example_log 1 [7] mem_empty of
      Some (Ok _, s1) \<Rightarrow>
        (case append_log memory example_log 1 [8] s1 of
           Some (r, _) \<Rightarrow> \<not> is_ok r | None \<Rightarrow> False)
    | _ \<Rightarrow> False)"
proof -
  let ?s1 = "mem_empty\<lparr>mem_objects := [(entry_key ''g'' 1, [7])]\<rparr>"
  have second: "append_log memory example_log 1 [8] ?s1 =
      Some (Err (AlreadyExists (entry_key ''g'' 1)), ?s1)"
    unfolding append_log_def
    by (subst append_loop.simps) (simp add: example_log_simps mem_put_def mem_empty_def)
  have "\<not> is_ok (Err (AlreadyExists (entry_key ''g'' 1)) :: (put_result, os_error) result)"
    by (rule append_exclusive [OF memory_create_store example_append map_le_refl second])
  then show ?thesis using second by (simp add: example_append)
qed

text \<open>
  C4: what an append does to the store. It creates the object of its index with its
  payload or changes nothing at all, retries included; if it reports success the object
  was missing before and holds the payload after; if it reports \<open>AlreadyExists\<close> the object
  is there.
\<close>

theorem append_effect:
  assumes "create_store os C" and "sole_writer os C"
    and "append_log os (s2c_log_new g options) i b s = Some (r, s')"
  shows "(C s' = C s \<or>
          C s (path_from os (entry_key g i)) = None \<and>
          C s' = (C s)(path_from os (entry_key g i) \<mapsto> b)) \<and>
         (is_ok r \<longrightarrow> C s (path_from os (entry_key g i)) = None \<and>
                     C s' = (C s)(path_from os (entry_key g i) \<mapsto> b)) \<and>
         ((\<exists>q. r = Err (AlreadyExists q)) \<longrightarrow> C s' (path_from os (entry_key g i)) \<noteq> None)"
proof -
  have ret: "append_loop os (entry_key g i) b (backoff_new (retry options)) s = Some (r, s')"
    using assms(3) by (simp add: append_log_def s2c_log_new_def entry_key_def)
  let ?k = "path_from os (entry_key g i)"
  note sw = append_loop_sole_writer [OF ret assms(2)]
  have ok: "C s ?k = None \<and> C s' = (C s)(?k \<mapsto> b)" if "is_ok r"
  proof -
    from that obtain x where "r = Ok x" by (cases r) simp_all
    with ret have "C s ?k = None \<and> C s' ?k = Some b"
      using append_loop_ok [OF _ assms(1)] by simp
    with sw show ?thesis by (elim disjE conjE) simp_all
  qed
  have ex: "C s' ?k \<noteq> None" if "\<exists>q. r = Err (AlreadyExists q)"
    using that ret append_loop_exists [OF _ assms(1)] by (elim exE) simp
  show ?thesis by (intro conjI impI sw) (use ok ex in simp_all)
qed

theorem append_effect_witness:
  "(case append_log memory example_log 1 [7] mem_empty of
      Some (r, s1) \<Rightarrow> is_ok r \<and> mem_contents s1 = [entry_key ''g'' 1 \<mapsto> [7]]
    | None \<Rightarrow> False)"
proof -
  note ret = example_append [of "[7]", unfolded example_log_def]
  show ?thesis
    using append_effect [OF memory_create_store memory_sole_writer ret]
    unfolding example_append by (simp add: mem_empty_def)
qed

text \<open>
  C7: what was appended is what is read. After a successful append, and whatever is
  created afterwards, \<open>get_at\<close> of the same index returns exactly the payload, provided reads
  of existing objects succeed.
\<close>

theorem get_at_after_append:
  assumes "create_store os C" and "readable_store os C"
    and "append_log os self i b s = Some (Ok x, s1)" and "C s1 \<subseteq>\<^sub>m C t"
  shows "\<exists>t'. get_at os self i t = Some (Ok b, t')"
  using slog.rd_after_app [of "(os, C, self)" i b s x s1 t]     log_contents_mono [OF assms(4), of os self] assms
  by (auto simp: log_valid_def log_readable_def log_append_def log_read_def)

theorem get_at_after_append_witness:
  "\<exists>s1 t'. append_log memory example_log 1 [7] mem_empty =
            Some (Ok \<lparr>e_tag = None, version = None\<rparr>, s1) \<and>
          get_at memory example_log 1 s1 = Some (Ok [7], t')"
  using get_at_after_append [OF memory_create_store memory_readable example_append map_le_refl]
    example_append by blast

text \<open>
  C37: \<open>append\<close> always returns when the retry options set a maximum below \<open>u32::MAX\<close> and
  every \<open>Generic\<close> failure of the store is a transient one.
\<close>

theorem append_terminates:
  assumes "max_attempts (retry (log_options self)) = Some m" and "unat m < 2 ^ 32 - 1"
    and "generic_is_transient os"
  shows "\<exists>r s'. append_log os self i b s = Some (r, s')"
proof -
  have "backoff_limited (backoff_new (retry (log_options self)))"
    using assms(1,2) by (simp add: backoff_limited_def)
  then show ?thesis unfolding append_log_def using assms(3) by (rule append_loop_terminates)
qed

text \<open>A store on which every put fails with a given text, as a state-free example.\<close>

definition failing :: "string \<Rightarrow> (unit, unit) object_store" where
  "failing f =
     \<lparr>path_from = (\<lambda>k. k), filename = (\<lambda>k. Some k),
      put_opts = (\<lambda>s p b. (Err (Generic ''failing'' f), s)), os_get = (\<lambda>s p. (Err (NotFound p), s)),
      os_bytes = (\<lambda>s h. (Err (OtherStoreError ''closed''), s)), os_list = (\<lambda>s p. ([], s))\<rparr>"

theorem append_terminates_witness:
  "\<exists>r s'. append_log (failing ''503 Slow Down'') example_log 1 [7] () = Some (r, s')"
proof (rule append_terminates)
  show "max_attempts (retry (log_options example_log)) = Some 3"
    by (simp add: example_log_simps retry_default_def)
  show "generic_is_transient (failing ''503 Slow Down'')"
    by (auto simp: generic_is_transient_def failing_def is_transient_def to_lowercase_def
        ascii_lower_def)
qed simp

text \<open>
  \<open>append\<close> never returns while the store answers with \<open>Generic\<close> errors that are not
  transient: the branch neither waits nor leaves the loop, whatever the retry options say.
\<close>

theorem append_spins_on_permanent_error:
  assumes "\<And>s b. \<exists>store source s'.
             put_opts os s (path_from os (log_entry_key (log_key_resolver self) (invert i))) b =
               (Err (Generic store source), s') \<and> \<not> is_transient (Generic store source)"
  shows "append_log os self i b s = None"
proof (rule ccontr)
  assume "append_log os self i b s \<noteq> None"
  then obtain r s' where
    "append_loop os (log_entry_key (log_key_resolver self) (invert i)) b
       (backoff_new (retry (log_options self))) s = Some (r, s')"
    unfolding append_log_def by auto
  then show False
  proof (induction rule: append_loop_induct)
    case (last backoff s r s')
    with assms [of s b] show ?case by auto
  qed
qed

theorem append_spins_on_permanent_error_witness:
  "append_log (failing ''access denied'') example_log 1 [7] () = None"
  by (rule append_spins_on_permanent_error)
    (simp add: failing_def is_transient_def to_lowercase_def ascii_lower_def)

text \<open>
  \<open>get_at\<close> never returns while the object can be opened but its bytes fail with transient
  errors: every successful \<open>get\<close> resets the counter, so one permitted attempt is enough for
  an endless loop.
\<close>

theorem get_at_never_gives_up:
  assumes "\<And>s p. \<exists>h s'. os_get os s p = (Ok h, s')"
    and "\<And>s h. \<exists>e s'. os_bytes os s h = (Err e, s') \<and> is_transient e"
    and "can_attempt (backoff_new (retry (log_options self)))"
  shows "get_at os self i s = None"
proof (rule ccontr)
  let ?ro = "retry (log_options self)"
  let ?Q = "\<lambda>os' p b (s :: 'a) (res :: (bytes, os_error) result \<times> 'a).
     os' = os \<longrightarrow> retry_options b = ?ro \<longrightarrow> False"
  assume "get_at os self i s \<noteq> None"
  then obtain res where ret: "get_at_loop os (log_entry_key (log_key_resolver self) (invert i))
      (backoff_new ?ro) s = Some res"
    unfolding get_at_def by blast
  have "?Q os (log_entry_key (log_key_resolver self) (invert i)) (backoff_new ?ro) s res"
  proof (rule get_at_loop.raw_induct [where P = ?Q, OF _ ret], goal_cases)
    case (1 loop os' p b s res)
    show ?case
    proof (intro impI)
      assume eq: "os' = os" "retry_options b = ?ro"
      obtain h s1 e s2 where "os_get os s (path_from os p) = (Ok h, s1)"
        "os_bytes os s1 h = (Err e, s2)" "is_transient e"
        using assms(1) [of s "path_from os p"] assms(2) by metis
      moreover have "can_attempt (backoff_reset b)"
        using assms(3) eq(2)
        by (simp add: can_attempt_def backoff_reset_def backoff_new_def split: option.splits)
      ultimately have "loop os p (awaited (backoff_reset b)) s2 = Some res"
        using 1(2) eq(1) by simp
      moreover have "retry_options (awaited (backoff_reset b)) = ?ro"
        using eq(2) by (simp add: backoff_reset_def)
      ultimately show False using 1(1) by blast
    qed
  qed
  then show False by (simp add: backoff_new_def)
qed

subsection \<open>The head of the log\<close>

lemma sorted_keys_head:
  assumes "sorted_wrt str_less (entry_key g j # keys)"
    and "insert (entry_key g j) (set keys) = entry_key g ` I"
    and "\<And>i. i \<in> I \<Longrightarrow> i \<le> max_ordered_index"
  shows "j \<in> I \<and> (\<forall>i \<in> I. i \<le> j)"
proof
  have "entry_key g j \<in> entry_key g ` I" using assms(2) by blast
  then show j: "j \<in> I" by auto
  show "\<forall>i \<in> I. i \<le> j"
  proof
    fix i assume i: "i \<in> I"
    then have "entry_key g i = entry_key g j \<or> entry_key g i \<in> set keys" using assms(2) by blast
    then show "i \<le> j"
    proof
      assume "entry_key g i \<in> set keys"
      then have "str_less (entry_key g j) (entry_key g i)" using assms(1) by simp
      then have "i < j" using entry_key_less_iff assms(3) i j by metis
      then show ?thesis by simp
    qed simp
  qed
qed

lemma get_head_sorted:
  assumes "os_list os s (path_from os (log_prefix (keys_resolver_new g))) = (map Ok keys, s')"
    and "sorted_wrt str_less keys" and "set keys = entry_key g ` I"
    and "finite I" and "I \<noteq> {}" and "\<And>i. i \<in> I \<Longrightarrow> i \<le> max_ordered_index"
    and "\<And>i. i \<in> I \<Longrightarrow> filename os (entry_key g i) = Some (show_u64 (invert i))"
  shows "get_head os (s2c_log_new g options) s = (Return (Ok (Some (invert (Max I)))), s')"
proof -
  from assms(3,5) obtain k ks where keys: "keys = k # ks" by (cases keys) auto
  with assms(3) obtain j where k: "k = entry_key g j" by (metis image_iff list.set_intros(1))
  have "insert (entry_key g j) (set ks) = entry_key g ` I" using assms(3) keys k by simp
  then have j: "j \<in> I \<and> (\<forall>i \<in> I. i \<le> j)"
    using sorted_keys_head [of g j ks I] assms(2,6) keys k by blast
  then have "Max I = j" using assms(4) by (intro Max_eqI) auto
  with j show ?thesis
    using assms(1) assms(7) [of j]
    by (simp add: get_head_def s2c_log_new_def keys k)
qed

text \<open>
  On a store that lists keys in byte order, \<open>get_head\<close> of a non-empty log whose indices
  do not exceed \<open>max_ordered_index\<close> returns the newest entry, as the number in its key: the
  inverted index, not the index.
\<close>

theorem get_head_newest:
  assumes "os_list os s (path_from os (log_prefix (keys_resolver_new g))) = (map Ok keys, s')"
    and "sorted_wrt str_less keys" and "set keys = entry_key g ` I"
    and "finite I" and "I \<noteq> {}" and "\<And>i. i \<in> I \<Longrightarrow> i \<le> max_ordered_index"
    and "\<And>i. i \<in> I \<Longrightarrow> filename os (entry_key g i) = Some (show_u64 (invert i))"
  shows "get_head os (s2c_log_new g options) s = (Return (Ok (Some (invert (Max I)))), s')"
  using assms by (rule get_head_sorted)

lemma rev_takeWhile_segment:
  assumes "c \<notin> set xs"
  shows "rev (takeWhile (\<lambda>x. x \<noteq> c) (rev (p @ [c] @ xs))) = xs"
proof -
  have "takeWhile (\<lambda>x. x \<noteq> c) (rev xs @ c # rev p) = rev xs"
    by (subst takeWhile_append2) (use assms in auto)
  then show ?thesis by simp
qed

lemma memory_filename: "filename memory (entry_key g i) = Some (show_u64 (invert i))"
  using rev_takeWhile_segment [OF slash_notin_show_u64, of "''s2c/'' @ g @ ''/log''" "invert i"]
  by (simp add: memory_def entry_key_eq)

definition example_store :: mem_store where
  "example_store =
     \<lparr>mem_objects = [(entry_key ''g'' 9, [9]), (entry_key ''g'' 10, [10])], mem_faults = []\<rparr>"

theorem get_head_newest_witness:
  "fst (get_head memory example_log example_store) = Return (Ok (Some (invert 10)))"
proof -
  have less: "str_less (entry_key ''g'' 10) (entry_key ''g'' 9)"
    "\<not> str_less (entry_key ''g'' 9) (entry_key ''g'' 10)"
    by (simp_all add: entry_key_less_iff max_ordered_index_def)
  have pre: "take (length (log_prefix (keys_resolver_new ''g''))) (entry_key ''g'' i) =
      log_prefix (keys_resolver_new ''g'')" for i
    by (simp add: key_simps)
  have listing: "os_list memory example_store (path_from memory (log_prefix (keys_resolver_new ''g''))) =
      (map Ok [entry_key ''g'' 10, entry_key ''g'' 9], example_store)"
    using pre less by (simp add: mem_list_def example_store_def)
  have "get_head memory (s2c_log_new ''g'' options_default) example_store =
      (Return (Ok (Some (invert (Max {10, 9})))), example_store)"
    by (rule get_head_newest [OF listing])
      (use less in \<open>auto simp: memory_filename max_ordered_index_def\<close>)
  moreover have "Max {10, 9 :: u64} = 10" by simp
  ultimately show ?thesis by (simp add: example_log_def)
qed

end
