(* ===== verification/S2c_Sync_Queue.thy ===== *)
theory S2c_Sync_Queue
  imports S2c_Proto
begin

text \<open>
  \<^verbatim>\<open>src/sync_queue.rs\<close>: the follower's queue of replicated batches. The \<open>VecDeque\<close> is a
  list, its front first; \<open>size\<close> is a \<open>usize\<close>.
\<close>

record replicate_queue =
  queue :: "replicate_request list"
  queue_size :: u64
  last_received_index :: u64

definition replicate_queue_new :: "u64 \<Rightarrow> replicate_queue" where
  "replicate_queue_new capacity = \<lparr>queue = [], queue_size = capacity, last_received_index = 0\<rparr>"

definition queue_put :: "replicate_queue \<Rightarrow> replicate_request \<Rightarrow> replicate_queue" where
  "queue_put self req =
     (if unat (queue_size self) \<le> length (queue self)
      then self\<lparr>last_received_index := rr_commit_index req, queue := queue self @ [req]\<rparr>
      else self)"

definition queue_pop :: "replicate_queue \<Rightarrow> replicate_request option \<times> replicate_queue" where
  "queue_pop self =
     (case queue self of
        [] \<Rightarrow> (None, self)
      | req # rest \<Rightarrow> (Some req, self\<lparr>queue := rest\<rparr>))"

text \<open>Indices that run without a gap and end at \<open>hi\<close>.\<close>

definition gap_free :: "u64 \<Rightarrow> u64 list \<Rightarrow> bool" where
  "gap_free hi is = (\<forall>k < length is. is ! (length is - 1 - k) = hi - of_nat k)"

lemma gap_free_Nil [simp]: "gap_free hi []"
  by (simp add: gap_free_def)

lemma gap_free_snoc: "gap_free hi is \<Longrightarrow> gap_free (hi + 1) (is @ [hi + 1])"
  unfolding gap_free_def
proof (intro allI impI)
  fix k
  assume g: "\<forall>k < length is. is ! (length is - 1 - k) = hi - of_nat k"
    and k: "k < length (is @ [hi + 1])"
  show "(is @ [hi + 1]) ! (length (is @ [hi + 1]) - 1 - k) = hi + 1 - of_nat k"
  proof (cases k)
    case (Suc j)
    with k have "j < length is" by simp
    moreover from this have "length is - Suc j < length is" by simp
    ultimately show ?thesis using g Suc by (simp add: nth_append)
  qed simp
qed

lemma gap_free_tl: "gap_free hi (i # is) \<Longrightarrow> gap_free hi is"
  unfolding gap_free_def
proof (intro allI impI)
  fix k
  assume g: "\<forall>k < length (i # is). (i # is) ! (length (i # is) - 1 - k) = hi - of_nat k"
    and k: "k < length is"
  from k have "(i # is) ! (length (i # is) - 1 - k) = is ! (length is - 1 - k)"
    by (simp add: nth_Cons')
  with g k show "is ! (length is - 1 - k) = hi - of_nat k"
    by (metis length_Cons less_SucI)
qed

section \<open>The queue as an interface\<close>

text \<open>
  What the follower relies on: requests leave in the order in which they were accepted,
  and an accepted request is the one the index reports.
\<close>

locale fifo_queue =
  fixes items :: "'q \<Rightarrow> 'a list"
    and index :: "'q \<Rightarrow> u64"
    and index_of :: "'a \<Rightarrow> u64"
    and accepts :: "'q \<Rightarrow> bool"
    and put :: "'q \<Rightarrow> 'a \<Rightarrow> 'q"
    and pop :: "'q \<Rightarrow> 'a option \<times> 'q"
  assumes put_accepted: "accepts q \<Longrightarrow> items (put q x) = items q @ [x] \<and> index (put q x) = index_of x"
    and put_refused: "\<not> accepts q \<Longrightarrow> put q x = q"
    and pop_empty: "items q = [] \<Longrightarrow> pop q = (None, q)"
    and pop_item: "items q = x # xs \<Longrightarrow>
                     \<exists>q'. pop q = (Some x, q') \<and> items q' = xs \<and> index q' = index q"
begin

lemma put_gap_free:
  assumes "gap_free (index q) (map index_of (items q))" and "index_of x = index q + 1"
  shows "gap_free (index (put q x)) (map index_of (items (put q x)))"
  using assms put_accepted [of q x] put_refused [of q x] gap_free_snoc
  by (cases "accepts q") auto

lemma pop_gap_free:
  assumes "gap_free (index q) (map index_of (items q))"
  shows "gap_free (index (snd (pop q))) (map index_of (items (snd (pop q))))"
proof (cases "items q")
  case Nil
  with assms show ?thesis by (simp add: pop_empty)
next
  case (Cons x xs)
  then show ?thesis using assms pop_item [OF Cons] gap_free_tl by fastforce
qed

end

definition queue_accepts :: "replicate_queue \<Rightarrow> bool" where
  "queue_accepts q = (unat (queue_size q) \<le> length (queue q))"

interpretation rq: fifo_queue queue last_received_index rr_commit_index queue_accepts queue_put queue_pop
  by unfold_locales (auto simp: queue_put_def queue_pop_def queue_accepts_def)

section \<open>Runs of the queue\<close>

datatype queue_op = Put replicate_request | Pop

fun queue_step :: "replicate_queue \<Rightarrow> queue_op \<Rightarrow> replicate_queue" where
  "queue_step q (Put req) = queue_put q req"
| "queue_step q Pop = snd (queue_pop q)"

lemma queue_step_keeps_empty:
  "queue_size q \<noteq> 0 \<Longrightarrow> queue q = [] \<Longrightarrow> queue_step q op = q"
  by (cases op) (simp_all add: queue_put_def queue_pop_def unat_eq_zero)

text \<open>
  A queue created with a capacity other than zero never holds anything. Whatever is put
  and popped, it stays the empty queue it was, and \<open>last_received_index\<close> stays 0: \<open>put\<close>
  accepts only when the queue is already full.
\<close>

theorem replicate_queue_stays_empty:
  assumes "capacity \<noteq> 0"
  shows "foldl queue_step (replicate_queue_new capacity) ops = replicate_queue_new capacity"
proof (induction ops)
  case (Cons op ops)
  have "queue_step (replicate_queue_new capacity) op = replicate_queue_new capacity"
    using assms by (intro queue_step_keeps_empty) (simp_all add: replicate_queue_new_def)
  with Cons show ?case by simp
qed simp

definition example_request :: "u64 \<Rightarrow> replicate_request" where
  "example_request i =
     \<lparr>rr_batch = None, rr_commit_index = i, rr_group_id = ''g'',
      rr_follower_too_far_behind_error = False\<rparr>"

theorem replicate_queue_stays_empty_witness:
  "queue (foldl queue_step (replicate_queue_new 1000) [Put (example_request 1), Pop]) = []"
  using replicate_queue_stays_empty [of 1000 "[Put (example_request 1), Pop]"]
  by (simp add: replicate_queue_new_def)

end
