(* ===== verification/S2c_Inflight.thy ===== *)
theory S2c_Inflight
  imports S2c_Proto S2c_Error "HOL-Library.AList"
begin

text \<open>
  \<^verbatim>\<open>src/network/inflight.rs\<close>: the table of requests that wait for a response. The
  \<open>HashMap\<close> from correlation ids to \<open>oneshot\<close> senders is an association list; a sender or
  receiver is the number of its channel, and \<open>oneshots\<close> holds what the receiver of a
  channel sees. Dropping a sender that has not sent closes its channel.
\<close>

datatype oneshot =
    Pending
  | Delivered "(s2c_message, client_error) result"
  | SenderDropped

record inflight_requests =
  requests :: "(string \<times> nat) list"
  oneshots :: "nat \<Rightarrow> oneshot"
  next_oneshot :: nat

definition inflight_new :: inflight_requests where
  "inflight_new = \<lparr>requests = [], oneshots = (\<lambda>_. SenderDropped), next_oneshot = 0\<rparr>"

text \<open>Dropping the sender under a key, if there is one.\<close>

definition drop_sender :: "inflight_requests \<Rightarrow> string \<Rightarrow> nat \<Rightarrow> oneshot" where
  "drop_sender self cid =
     (case map_of (requests self) cid of
        None \<Rightarrow> oneshots self
      | Some c \<Rightarrow> (oneshots self)(c := SenderDropped))"

text \<open>\<open>add\<close> returns the receiver; inserting over an existing key drops the old sender.\<close>

definition inflight_add :: "inflight_requests \<Rightarrow> string \<Rightarrow> nat \<times> inflight_requests" where
  "inflight_add self cid =
     (let c = next_oneshot self in
      (c, self\<lparr>requests := (cid, c) # AList.delete cid (requests self),
               oneshots := (drop_sender self cid)(c := Pending),
               next_oneshot := Suc c\<rparr>))"

definition inflight_respond :: "inflight_requests \<Rightarrow> s2c_message \<Rightarrow> inflight_requests" where
  "inflight_respond self message =
     (case map_of (requests self) (msg_correlation_id message) of
        None \<Rightarrow> self
      | Some c \<Rightarrow>
          self\<lparr>requests := AList.delete (msg_correlation_id message) (requests self),
               oneshots := (oneshots self)(c := Delivered (Ok message))\<rparr>)"

definition inflight_discard :: "inflight_requests \<Rightarrow> string \<Rightarrow> inflight_requests" where
  "inflight_discard self cid =
     self\<lparr>requests := AList.delete cid (requests self), oneshots := drop_sender self cid\<rparr>"

text \<open>Settling every sender of the table at once (\<open>drain\<close>, \<open>clear\<close>).\<close>

definition settle_all :: "oneshot \<Rightarrow> inflight_requests \<Rightarrow> inflight_requests" where
  "settle_all v self =
     self\<lparr>requests := [],
          oneshots := fold (\<lambda>(_, c) f. f(c := v)) (requests self) (oneshots self)\<rparr>"

definition fail_all :: "inflight_requests \<Rightarrow> client_error \<Rightarrow> inflight_requests" where
  "fail_all self err = settle_all (Delivered (Err err)) self"

definition inflight_clear :: "inflight_requests \<Rightarrow> inflight_requests" where
  "inflight_clear self = settle_all SenderDropped self"

definition inflight_size :: "inflight_requests \<Rightarrow> nat" where
  "inflight_size self = length (requests self)"

section \<open>Invariant\<close>

text \<open>
  The keys and the channels of the table are distinct, its channels have been handed out,
  and of all channels handed out exactly those in the table are unsettled: no receiver
  waits for a sender that is gone.
\<close>

definition inflight_inv :: "inflight_requests \<Rightarrow> bool" where
  "inflight_inv self =
     (distinct (map fst (requests self)) \<and> distinct (map snd (requests self)) \<and>
      (\<forall>c \<in> set (map snd (requests self)). c < next_oneshot self) \<and>
      (\<forall>c < next_oneshot self. oneshots self c = Pending \<longleftrightarrow> c \<in> set (map snd (requests self))))"

lemma fold_fun_upd_const:
  "fold (\<lambda>(_, c) f. f(c := v)) kvs f c = (if c \<in> snd ` set kvs then v else f c)"
  by (induction kvs arbitrary: f) (auto split: prod.splits)

lemma settle_all_oneshots:
  "oneshots (settle_all v self) c = (if c \<in> snd ` set (requests self) then v else oneshots self c)"
  by (simp add: settle_all_def fold_fun_upd_const)

lemma delete_channels:
  assumes "distinct (map snd kvs)" and "map_of kvs k = Some c" and "distinct (map fst kvs)"
  shows "snd ` set (AList.delete k kvs) = snd ` set kvs - {c}"
proof -
  have mem: "(k, c) \<in> set kvs" using assms(2) by (rule map_of_SomeD)
  have "x = c \<longleftrightarrow> k' = k" if "(k', x) \<in> set kvs" for k' x
    using that mem assms(1,3) by (metis eq_key_imp_eq_value distinct_map inj_on_contraD fst_conv snd_conv)
  then show ?thesis using mem by (force simp: AList.delete_eq)
qed

lemma delete_distinct:
  assumes "distinct (map fst kvs)" and "distinct (map snd kvs)"
  shows "distinct (map fst (AList.delete k kvs))" and "distinct (map snd (AList.delete k kvs))"
  using assms by (simp_all add: AList.delete_eq distinct_map_filter)

lemma inflight_invD:
  assumes "inflight_inv self"
  shows inflight_distinct: "distinct (map fst (requests self))" "distinct (map snd (requests self))"
    and inflight_lt: "(k, c) \<in> set (requests self) \<Longrightarrow> c < next_oneshot self"
    and inflight_pending: "d < next_oneshot self \<Longrightarrow>
          oneshots self d = Pending \<longleftrightarrow> d \<in> snd ` set (requests self)"
  using assms by (auto simp: inflight_inv_def)

lemma inflight_inv_new: "inflight_inv inflight_new"
  by (simp add: inflight_inv_def inflight_new_def)

text \<open>Removing a key and settling its channel keeps the invariant.\<close>

lemma inflight_inv_remove:
  assumes inv: "inflight_inv self" and v: "v \<noteq> Pending"
    and key: "map_of (requests self) k = Some c"
  shows "inflight_inv (self\<lparr>requests := AList.delete k (requests self),
                            oneshots := (oneshots self)(c := v)\<rparr>)"
proof -
  note dist = inflight_distinct [OF inv]
  note channels = delete_channels [OF dist(2) key dist(1)]
  have "snd ` set (AList.delete k (requests self)) \<subseteq> snd ` set (requests self)"
    unfolding channels by blast
  then show ?thesis
    using delete_distinct [OF dist] inflight_lt [OF inv] inflight_pending [OF inv] v channels
    by (auto simp: inflight_inv_def)
qed

lemma inflight_inv_discard:
  assumes "inflight_inv self"
  shows "inflight_inv (inflight_discard self cid)"
proof (cases "map_of (requests self) cid")
  case None
  then have "AList.delete cid (requests self) = requests self"
    by (metis AList.delete_id map_of_eq_None_iff dom_map_of_conv_image_fst domIff)
  with assms None show ?thesis by (simp add: inflight_discard_def drop_sender_def)
next
  case (Some c)
  with inflight_inv_remove [OF assms _ Some, of SenderDropped] show ?thesis
    by (simp add: inflight_discard_def drop_sender_def)
qed

lemma inflight_inv_respond: "inflight_inv self \<Longrightarrow> inflight_inv (inflight_respond self m)"
  by (auto simp: inflight_respond_def intro: inflight_inv_remove split: option.splits)

lemma inflight_inv_add:
  assumes inv: "inflight_inv self"
  shows "inflight_inv (snd (inflight_add self cid))"
proof -
  let ?d = "inflight_discard self cid"
  have d: "inflight_inv ?d" using inv by (rule inflight_inv_discard)
  have eq: "snd (inflight_add self cid) =
      ?d\<lparr>requests := (cid, next_oneshot self) # requests ?d,
         oneshots := (oneshots ?d)(next_oneshot self := Pending),
         next_oneshot := Suc (next_oneshot self)\<rparr>"
    by (simp add: inflight_add_def inflight_discard_def Let_def)
  have n: "next_oneshot ?d = next_oneshot self" by (simp add: inflight_discard_def)
  have "cid \<notin> fst ` set (requests ?d)" by (auto simp: inflight_discard_def AList.delete_eq)
  moreover have "next_oneshot self \<notin> snd ` set (requests ?d)"
    using inflight_lt [OF d] n by fastforce
  ultimately show ?thesis
    using d unfolding eq inflight_inv_def by (auto simp: n less_Suc_eq)
qed

lemma inflight_inv_settle_all:
  "inflight_inv self \<Longrightarrow> v \<noteq> Pending \<Longrightarrow> inflight_inv (settle_all v self)"
  by (auto simp: inflight_inv_def settle_all_def fold_fun_upd_const)

section \<open>One-shot channels as an interface\<close>

text \<open>
  What the callers of the client rely on: a channel, once settled, keeps its value whatever
  happens to the table afterwards.
\<close>

locale one_shot_table =
  fixes slot :: "'t \<Rightarrow> nat \<Rightarrow> oneshot"
    and used :: "'t \<Rightarrow> nat \<Rightarrow> bool"
    and good :: "'t \<Rightarrow> bool"
    and step :: "'t \<Rightarrow> 'op \<Rightarrow> 't"
  assumes step_good: "good t \<Longrightarrow> good (step t op)"
    and step_used: "good t \<Longrightarrow> used t c \<Longrightarrow> used (step t op) c"
    and step_settled: "good t \<Longrightarrow> used t c \<Longrightarrow> slot t c \<noteq> Pending \<Longrightarrow> slot (step t op) c = slot t c"
begin

lemma run_settled:
  assumes "good t" and "used t c" and "slot t c \<noteq> Pending"
  shows "slot (foldl step t ops) c = slot t c"
  using assms
proof (induction ops arbitrary: t)
  case (Cons op ops)
  then have "slot (step t op) c = slot t c" by (simp add: step_settled)
  with Cons show ?case by (simp add: step_good step_used)
qed simp

lemma run_good: "good t \<Longrightarrow> good (foldl step t ops)"
  by (induction ops arbitrary: t) (simp_all add: step_good)

end

datatype inflight_op =
    Add string
  | Respond s2c_message
  | Discard string
  | FailAll client_error
  | Clear

fun inflight_step :: "inflight_requests \<Rightarrow> inflight_op \<Rightarrow> inflight_requests" where
  "inflight_step t (Add cid) = snd (inflight_add t cid)"
| "inflight_step t (Respond m) = inflight_respond t m"
| "inflight_step t (Discard cid) = inflight_discard t cid"
| "inflight_step t (FailAll e) = fail_all t e"
| "inflight_step t Clear = inflight_clear t"

definition oneshot_used :: "inflight_requests \<Rightarrow> nat \<Rightarrow> bool" where
  "oneshot_used t c = (c < next_oneshot t)"

lemma inflight_step_inv: "inflight_inv t \<Longrightarrow> inflight_inv (inflight_step t op)"
  by (cases op)
    (simp_all add: inflight_inv_add inflight_inv_respond inflight_inv_discard fail_all_def
      inflight_clear_def inflight_inv_settle_all)

lemma inflight_step_settled:
  assumes "inflight_inv t" and "c < next_oneshot t" and "oneshots t c \<noteq> Pending"
  shows "oneshots (inflight_step t op) c = oneshots t c"
proof -
  have "c \<notin> snd ` set (requests t)" using assms inflight_pending by blast
  moreover from this have "map_of (requests t) k \<noteq> Some c" for k
    by (metis imageI map_of_SomeD snd_conv)
  ultimately show ?thesis
    using assms(2)
    by (cases op)
      (auto simp: inflight_add_def drop_sender_def inflight_respond_def inflight_discard_def
        fail_all_def inflight_clear_def settle_all_oneshots Let_def split: option.splits)
qed

interpretation flight: one_shot_table oneshots oneshot_used inflight_inv inflight_step
proof (unfold_locales, goal_cases)
  case (2 t c op)
  then show ?case
    by (cases op)
      (auto simp: oneshot_used_def inflight_add_def inflight_respond_def inflight_discard_def
        fail_all_def inflight_clear_def settle_all_def Let_def split: option.splits)
qed (simp_all add: inflight_step_inv inflight_step_settled oneshot_used_def)

section \<open>Properties\<close>

text \<open>Operations that concern a given correlation id.\<close>

fun touches :: "string \<Rightarrow> inflight_op \<Rightarrow> bool" where
  "touches cid (Add k) = (k = cid)"
| "touches cid (Respond m) = (msg_correlation_id m = cid)"
| "touches cid (Discard k) = (k = cid)"
| "touches cid (FailAll e) = True"
| "touches cid Clear = True"

lemma untouched_registered:
  assumes "\<not> touches cid op" and "map_of (requests t) cid = Some c"
  shows "map_of (requests (inflight_step t op)) cid = Some c"
  using assms
  by (cases op)
    (auto simp: inflight_add_def inflight_respond_def inflight_discard_def AList.delete_conv
      Let_def split: option.splits)

lemma untouched_run_registered:
  assumes "\<forall>op \<in> set ops. \<not> touches cid op" and "map_of (requests t) cid = Some c"
  shows "map_of (requests (foldl inflight_step t ops)) cid = Some c"
  using assms by (induction ops arbitrary: t) (simp_all add: untouched_registered)

lemma registered_pending:
  assumes "inflight_inv t" and "map_of (requests t) cid = Some c"
  shows "oneshots t c = Pending"
  using inflight_lt [OF assms(1) map_of_SomeD [OF assms(2)]] inflight_pending [OF assms(1)]
    map_of_SomeD [OF assms(2)] by force

text \<open>
  C22: a response reaches the request it answers and nobody else. After \<open>add\<close> handed out a
  receiver, and any operations for other requests, the receiver is still waiting, and a
  response with its correlation id is delivered to it and changes no other channel.
\<close>

theorem response_reaches_requester:
  assumes "inflight_inv t" and "inflight_add t cid = (c, t1)"
    and "\<forall>op \<in> set ops. \<not> touches cid op"
    and "t2 = foldl inflight_step t1 ops" and "msg_correlation_id m = cid"
  shows "oneshots t2 c = Pending \<and>
         oneshots (inflight_respond t2 m) = (oneshots t2)(c := Delivered (Ok m)) \<and>
         map_of (requests (inflight_respond t2 m)) cid = None"
proof -
  have t1: "map_of (requests t1) cid = Some c" and inv1: "inflight_inv t1"
    using assms(1,2) inflight_inv_add [of t cid] by (auto simp: inflight_add_def Let_def)
  have reg: "map_of (requests t2) cid = Some c"
    unfolding assms(4) by (rule untouched_run_registered [OF assms(3) t1])
  have "inflight_inv t2" unfolding assms(4) using inv1 by (rule flight.run_good)
  then show ?thesis
    using reg registered_pending assms(5) by (simp add: inflight_respond_def AList.delete_conv)
qed

definition example_response :: "string \<Rightarrow> s2c_message" where
  "example_response cid = \<lparr>msg_correlation_id = cid, msg_body = Some FollowResponse, msg_error = None\<rparr>"

theorem response_reaches_requester_witness:
  "oneshots (foldl inflight_step inflight_new
     [Add ''x'', Add ''y'', Discard ''y'', Respond (example_response ''x'')]) 0 =
   Delivered (Ok (example_response ''x''))"
proof -
  have "inflight_add inflight_new ''x'' = (0, snd (inflight_add inflight_new ''x''))"
    by (simp add: inflight_add_def inflight_new_def Let_def)
  from response_reaches_requester [OF inflight_inv_new this _ refl, of "[Add ''y'', Discard ''y'']"
      "example_response ''x''"]
  show ?thesis by (simp add: example_response_def)
qed

text \<open>
  C23: a request is settled at most once. Whatever a receiver has been given, or that its
  sender is gone, no later operation on the table changes it.
\<close>

theorem settled_request_is_final:
  assumes "c < next_oneshot (foldl inflight_step inflight_new ops)"
    and "oneshots (foldl inflight_step inflight_new ops) c \<noteq> Pending"
  shows "oneshots (foldl inflight_step inflight_new (ops @ ops')) c =
         oneshots (foldl inflight_step inflight_new ops) c"
  using flight.run_settled [of "foldl inflight_step inflight_new ops" c ops'] assms
    flight.run_good [OF inflight_inv_new]
  by (simp add: oneshot_used_def)

theorem settled_request_is_final_witness:
  "oneshots (foldl inflight_step inflight_new
     ([Add ''x'', FailAll Timeout] @ [Respond (example_response ''x''), Add ''x''])) 0 =
   Delivered (Err Timeout)"
proof -
  have "next_oneshot (foldl inflight_step inflight_new [Add ''x'', FailAll Timeout]) = 1"
    "oneshots (foldl inflight_step inflight_new [Add ''x'', FailAll Timeout]) 0 = Delivered (Err Timeout)"
    by (simp_all add: inflight_add_def inflight_new_def fail_all_def settle_all_def Let_def)
  then show ?thesis
    using settled_request_is_final [of 0 "[Add ''x'', FailAll Timeout]"
      "[Respond (example_response ''x''), Add ''x'']"] by simp
qed

text \<open>
  No request is forgotten. At any time the receivers still waiting are exactly those of
  the requests in the table, and \<open>fail_all\<close> gives the error to every one of them and
  leaves the table empty.
\<close>

theorem fail_all_settles_everyone:
  fixes ops :: "inflight_op list"
  defines "t \<equiv> foldl inflight_step inflight_new ops"
  assumes "c < next_oneshot t"
  shows "(oneshots t c = Pending \<longleftrightarrow> (\<exists>cid. map_of (requests t) cid = Some c)) \<and>
         oneshots (fail_all t e) c =
           (if oneshots t c = Pending then Delivered (Err e) else oneshots t c) \<and>
         inflight_size (fail_all t e) = 0"
proof -
  have inv: "inflight_inv t" unfolding t_def by (rule flight.run_good [OF inflight_inv_new])
  note pend = inflight_pending [OF inv assms(2)]
  have "c \<in> snd ` set (requests t) \<longleftrightarrow> (\<exists>cid. map_of (requests t) cid = Some c)"
    using inflight_distinct(1) [OF inv] by (force dest: map_of_SomeD)
  then show ?thesis
    using pend by (simp add: fail_all_def settle_all_oneshots inflight_size_def) (simp add: settle_all_def)
qed

theorem fail_all_settles_everyone_witness:
  "oneshots (fail_all (foldl inflight_step inflight_new [Add ''x'', Add ''y'']) ClientClosed) 1 =
   Delivered (Err ClientClosed)"
proof -
  have "1 < next_oneshot (foldl inflight_step inflight_new [Add ''x'', Add ''y''])"
    "oneshots (foldl inflight_step inflight_new [Add ''x'', Add ''y'']) 1 = Pending"
    by (simp_all add: inflight_add_def inflight_new_def Let_def)
  then show ?thesis
    using fail_all_settles_everyone [of 1 "[Add ''x'', Add ''y'']" ClientClosed] by simp
qed

end
