(* ===== verification/S2c_Message_RW.thy ===== *)
theory S2c_Message_RW
  imports S2c_Proto S2c_Error
begin

text \<open>
  \<^verbatim>\<open>src/network/message_rw.rs\<close>: length-prefixed framing of messages on a byte stream.

  The buffered halves of a TCP connection are parameters: records of the calls the sources
  make, over arbitrary reader and writer states. \<open>reads_stream\<close> and \<open>appends_stream\<close> name
  the documented behaviour of these calls in terms of the bytes still to be read and the
  bytes accepted so far. Accepted bytes are not yet on their way: \<open>buffered_stream\<close> tells
  what a \<open>BufWriter\<close> has handed to the connection from what it still holds. Taking a slice
  beyond the end of a vector panics.
\<close>

section \<open>Streams\<close>

record 'r async_reader =
  read_u32 :: "'r \<Rightarrow> (u32, io_error) result \<times> 'r"
  read_exact :: "'r \<Rightarrow> bytes \<Rightarrow> (unit, io_error) result \<times> bytes \<times> 'r"
  copy_to_sink :: "'r \<Rightarrow> nat \<Rightarrow> (nat, io_error) result \<times> 'r"

record 'w async_writer =
  write_u32 :: "'w \<Rightarrow> u32 \<Rightarrow> (unit, io_error) result \<times> 'w"
  write_all :: "'w \<Rightarrow> bytes \<Rightarrow> (unit, io_error) result \<times> 'w"
  flush :: "'w \<Rightarrow> (unit, io_error) result \<times> 'w"

text \<open>Network byte order.\<close>

definition u32_bytes :: "u32 \<Rightarrow> bytes" where
  "u32_bytes n = [ucast (drop_bit 24 n), ucast (drop_bit 16 n), ucast (drop_bit 8 n), ucast n]"

text \<open>
  \<open>read_u32\<close> returns the next bytes and \<open>read_exact\<close> fills the slice it is given with them,
  when there are enough of them; \<open>read_exact\<close> does not look at what the slice holds, and
  what it leaves there when it fails is not specified; copying \<open>take(n)\<close> to a sink drops up
  to \<open>n\<close> bytes.
\<close>

definition reads_stream :: "'r async_reader \<Rightarrow> ('r \<Rightarrow> bytes) \<Rightarrow> bool" where
  "reads_stream rd ahead =
     ((\<forall>r n rest. ahead r = u32_bytes n @ rest \<longrightarrow>
         (\<exists>r'. read_u32 rd r = (Ok n, r') \<and> ahead r' = rest)) \<and>
      (\<forall>r bs rest window. ahead r = bs @ rest \<longrightarrow> length window = length bs \<longrightarrow>
         (\<exists>r'. read_exact rd r window = (Ok (), bs, r') \<and> ahead r' = rest)) \<and>
      (\<forall>r window x filled r'. read_exact rd r window = (x, filled, r') \<longrightarrow> length filled = length window) \<and>
      (\<forall>r window window' x filled r'. read_exact rd r window = (x, filled, r') \<longrightarrow>
         length window' = length window \<longrightarrow>
         (\<exists>filled'. read_exact rd r window' = (x, filled', r') \<and> (x = Ok () \<longrightarrow> filled' = filled))) \<and>
      (\<forall>r n. \<exists>r' k. copy_to_sink rd r n = (Ok k, r') \<and> ahead r' = drop n (ahead r)))"

definition appends_stream :: "'w async_writer \<Rightarrow> ('w \<Rightarrow> bytes) \<Rightarrow> bool" where
  "appends_stream wr accepted =
     ((\<forall>w n w'. write_u32 wr w n = (Ok (), w') \<longrightarrow> accepted w' = accepted w @ u32_bytes n) \<and>
      (\<forall>w bs w'. write_all wr w bs = (Ok (), w') \<longrightarrow> accepted w' = accepted w @ bs) \<and>
      (\<forall>w r w'. flush wr w = (r, w') \<longrightarrow> accepted w' = accepted w))"

text \<open>
  A \<open>BufWriter\<close> with room for \<open>cap\<close> bytes: what it accepts it holds or hands on, in order; it
  hands nothing on while everything fits, and \<open>flush\<close> hands on everything.
\<close>

definition buffered_stream ::
  "'w async_writer \<Rightarrow> ('w \<Rightarrow> bytes) \<Rightarrow> ('w \<Rightarrow> bytes) \<Rightarrow> nat \<Rightarrow> bool" where
  "buffered_stream wr sent pending cap =
     ((\<forall>w n w'. write_u32 wr w n = (Ok (), w') \<longrightarrow>
         sent w' @ pending w' = sent w @ pending w @ u32_bytes n \<and>
         (length (pending w) + 4 < cap \<longrightarrow> sent w' = sent w)) \<and>
      (\<forall>w bs w'. write_all wr w bs = (Ok (), w') \<longrightarrow>
         sent w' @ pending w' = sent w @ pending w @ bs \<and>
         (length (pending w) + length bs < cap \<longrightarrow> sent w' = sent w)) \<and>
      (\<forall>w r w'. flush wr w = (r, w') \<longrightarrow>
         sent w' @ pending w' = sent w @ pending w \<and> (r = Ok () \<longrightarrow> pending w' = [])))"

section \<open>The reader\<close>

record message_reader =
  reader_max_message_size :: u32
  buf :: bytes

definition message_reader_new :: "u32 \<Rightarrow> message_reader" where
  "message_reader_new limit = \<lparr>reader_max_message_size = limit, buf = replicate 1024 0\<rparr>"

text \<open>\<open>Vec::resize\<close> to a larger length.\<close>

definition grow :: "nat \<Rightarrow> bytes \<Rightarrow> bytes" where
  "grow n bs = (if length bs < n then bs @ replicate (n - length bs) 0 else bs)"

text \<open>\<open>&buf[..n]\<close>\<close>

definition slice_to :: "nat \<Rightarrow> bytes \<Rightarrow> bytes exec" where
  "slice_to n bs = (if n \<le> length bs then Return (take n bs) else Panic ''range end index out of range'')"

definition read_next_message ::
  "prost_codec \<Rightarrow> 'r async_reader \<Rightarrow> message_reader \<Rightarrow> 'r \<Rightarrow>
   ((s2c_message, network_error) result \<times> message_reader \<times> 'r) exec" where
  "read_next_message codec rd self reader =
     (case read_u32 rd reader of
        (Err e, r1) \<Rightarrow> Return (Err (net_io e), self, r1)
      | (Ok msg_size, r1) \<Rightarrow>
          if reader_max_message_size self < msg_size
          then (case copy_to_sink rd r1 (unat msg_size) of
                  (Err e, r2) \<Rightarrow> Return (Err (net_io e), self, r2)
                | (Ok _, r2) \<Rightarrow>
                    Return (Err (MessageTooLarge (reader_max_message_size self) msg_size), self, r2))
          else
            (let self = self\<lparr>buf := grow (unat msg_size) (buf self)\<rparr> in
             case slice_to (unat msg_size) (buf self) of
               Panic m \<Rightarrow> Panic m
             | Return window \<Rightarrow>
                 (case read_exact rd r1 window of
                    (res, filled, r2) \<Rightarrow>
                      (let self = self\<lparr>buf := filled @ drop (unat msg_size) (buf self)\<rparr> in
                       case res of
                         Err e \<Rightarrow> Return (Err (net_io e), self, r2)
                       | Ok _ \<Rightarrow>
                           (case slice_to (unat msg_size) (buf self) of
                              Panic m \<Rightarrow> Panic m
                            | Return bs \<Rightarrow>
                                (case decode_message codec bs of
                                   Ok msg \<Rightarrow> Return (Ok msg, self, r2)
                                 | Err err \<Rightarrow> Return (Err (InvalidProtobuf err), self, r2)))))))"

section \<open>The writer\<close>

definition write_bytes ::
  "'w async_writer \<Rightarrow> 'w \<Rightarrow> bytes \<Rightarrow> (unit, io_error) result \<times> 'w" where
  "write_bytes wr writer payload =
     (case write_u32 wr writer (of_nat (length payload)) of
        (Err e, w1) \<Rightarrow> (Err e, w1)
      | (Ok _, w1) \<Rightarrow>
          (case write_all wr w1 payload of
             (Err e, w2) \<Rightarrow> (Err e, w2)
           | (Ok _, w2) \<Rightarrow> (Ok (), w2)))"

section \<open>The failing reader of the tests\<close>

datatype failure = FailIo | FailDrop

text \<open>
  \<open>fail_every\<close> is a stateful closure (\<open>FnMut() -> usize\<close>): a step function on its
  captured state \<open>'f\<close>. The inspector only looks at messages; the ones it saw are recorded.
\<close>

record 'f test_reader =
  inner :: message_reader
  failures :: "failure list"
  reading_counter :: u64
  fail_state :: 'f
  inspected :: "s2c_message list"

definition test_reader_new :: "message_reader \<Rightarrow> failure list \<Rightarrow> 'f \<Rightarrow> 'f test_reader" where
  "test_reader_new inner_reader fs f0 =
     \<lparr>inner = inner_reader, failures = fs, reading_counter = 0, fail_state = f0, inspected = []\<rparr>"

partial_function (option) test_read_next_message ::
  "('f \<Rightarrow> u64 \<times> 'f) \<Rightarrow> prost_codec \<Rightarrow> 'r async_reader \<Rightarrow> 'f test_reader \<Rightarrow> 'r \<Rightarrow>
   ((s2c_message, network_error) result \<times> 'f test_reader \<times> 'r) exec option" where
  "test_read_next_message fail_every codec rd self reader =
     (case read_next_message codec rd (inner self) reader of
        Panic m \<Rightarrow> Some (Panic m)
      | Return (Err e, in', r') \<Rightarrow> Some (Return (Err e, self\<lparr>inner := in'\<rparr>, r'))
      | Return (Ok msg, in', r') \<Rightarrow>
          (case fail_every (fail_state self) of
             (every, f') \<Rightarrow>
               (let counter = reading_counter self + 1;
                    self = self\<lparr>inner := in', inspected := inspected self @ [msg],
                                reading_counter := counter, fail_state := f'\<rparr>;
                    should_fail = (every > 0 \<and> counter mod every = 0)
                in if \<not> should_fail then Some (Return (Ok msg, self, r'))
                   else (case failures self of
                           [] \<Rightarrow> Some (Return (Ok msg, self, r'))
                         | failure # rest \<Rightarrow>
                             (let self = self\<lparr>failures := rest @ [failure]\<rparr> in
                              case failure of
                                FailIo \<Rightarrow> Some (Return (Err (NetIo Other ''some msg''), self, r'))
                              | FailDrop \<Rightarrow> test_read_next_message fail_every codec rd self r')))))"

section \<open>Framing\<close>

definition frame :: "bytes \<Rightarrow> bytes" where
  "frame payload = u32_bytes (of_nat (length payload)) @ payload"

lemma length_u32_bytes [simp]: "length (u32_bytes n) = 4"
  by (simp add: u32_bytes_def)

lemma reads_streamD:
  assumes "reads_stream rd ahead"
  shows reads_stream_u32: "ahead r = u32_bytes n @ rest \<Longrightarrow>
          \<exists>r'. read_u32 rd r = (Ok n, r') \<and> ahead r' = rest"
    and reads_stream_exact: "ahead r = bs @ rest \<Longrightarrow> length window = length bs \<Longrightarrow>
          \<exists>r'. read_exact rd r window = (Ok (), bs, r') \<and> ahead r' = rest"
    and reads_stream_length: "read_exact rd r window = (x, filled, r') \<Longrightarrow> length filled = length window"
    and reads_stream_blind: "read_exact rd r window = (x, filled, r') \<Longrightarrow> length window' = length window \<Longrightarrow>
          \<exists>filled'. read_exact rd r window' = (x, filled', r') \<and> (x = Ok () \<longrightarrow> filled' = filled)"
    and reads_stream_copy: "\<exists>r' k. copy_to_sink rd r m = (Ok k, r') \<and> ahead r' = drop m (ahead r)"
  using assms unfolding reads_stream_def by blast+

lemma length_grow: "length (grow n bs) = max n (length bs)"
  by (simp add: grow_def)

text \<open>The slice of the grown buffer is always there: reading a body never panics.\<close>

lemma slice_to_grow: "slice_to n (grow n bs) = Return (take n (grow n bs))"
  by (simp add: slice_to_def length_grow)

lemma slice_to_filled: "length filled = n \<Longrightarrow> slice_to n (filled @ rest) = Return filled"
  by (simp add: slice_to_def)

text \<open>Reading one frame whose payload is within the limit decodes exactly that payload.\<close>

lemma read_next_message_frame:
  assumes rs: "reads_stream rd ahead" and ahead: "ahead r = frame payload @ rest"
    and fits: "length payload \<le> unat (reader_max_message_size self)"
  shows "\<exists>self' r'. ahead r' = rest \<and> reader_max_message_size self' = reader_max_message_size self \<and>
           read_next_message codec rd self r =
             Return ((case decode_message codec payload of
                        Ok msg \<Rightarrow> Ok msg | Err err \<Rightarrow> Err (InvalidProtobuf err)), self', r')"
proof -
  let ?n = "of_nat (length payload) :: u32"
  have "length payload < 4294967296"
    using order_le_less_trans [OF fits unat_u32_lt] .
  then have n: "unat ?n = length payload" by (simp add: unat_of_nat)
  then have small: "\<not> reader_max_message_size self < ?n"
    using fits by (simp add: word_less_nat_alt)
  obtain r1 where r1: "read_u32 rd r = (Ok ?n, r1)" "ahead r1 = payload @ rest"
    using reads_stream_u32 [OF rs, of r ?n "payload @ rest"] ahead by (auto simp: frame_def)
  let ?slice = "take (length payload) (grow (length payload) (buf self))"
  have "length ?slice = length payload" by (simp add: length_grow)
  then obtain r2 where r2: "read_exact rd r1 ?slice = (Ok (), payload, r2)" "ahead r2 = rest"
    using reads_stream_exact [OF rs r1(2)] by blast
  show ?thesis
    using r1(1) r2 small
    by (auto simp: read_next_message_def n Let_def slice_to_grow slice_to_filled split: result.splits)
qed

text \<open>An oversized frame is skipped as a whole, and the reader is at the next frame.\<close>

lemma read_next_message_oversized:
  assumes rs: "reads_stream rd ahead" and ahead: "ahead r = frame payload @ rest"
    and big: "unat (reader_max_message_size self) < length payload" and u32: "length payload < 2 ^ 32"
  shows "\<exists>r'. ahead r' = rest \<and>
           read_next_message codec rd self r =
             Return (Err (MessageTooLarge (reader_max_message_size self) (of_nat (length payload))), self, r')"
proof -
  let ?n = "of_nat (length payload) :: u32"
  have n: "unat ?n = length payload" using u32 by (simp add: unat_of_nat)
  then have large: "reader_max_message_size self < ?n"
    using big by (simp add: word_less_nat_alt)
  obtain r1 where r1: "read_u32 rd r = (Ok ?n, r1)" "ahead r1 = payload @ rest"
    using reads_stream_u32 [OF rs, of r ?n "payload @ rest"] ahead by (auto simp: frame_def)
  obtain r2 k where r2: "copy_to_sink rd r1 (length payload) = (Ok k, r2)" "ahead r2 = rest"
    using reads_stream_copy [OF rs, of r1 "length payload"] r1(2) by auto
  show ?thesis
    using r1(1) r2 large by (auto simp: read_next_message_def n)
qed

lemma write_bytes_appends:
  assumes "appends_stream wr accepted" and "write_bytes wr w payload = (Ok (), w')"
  shows "accepted w' = accepted w @ frame payload"
  using assms
  by (auto simp: write_bytes_def appends_stream_def frame_def split: prod.splits result.splits)

text \<open>Sending a sequence of messages, and receiving a number of them.\<close>

fun write_messages ::
  "prost_codec \<Rightarrow> 'w async_writer \<Rightarrow> 'w \<Rightarrow> s2c_message list \<Rightarrow> (unit, io_error) result \<times> 'w" where
  "write_messages codec wr w [] = (Ok (), w)"
| "write_messages codec wr w (m # ms) =
     (case write_bytes wr w (encode_message codec m) of
        (Err e, w') \<Rightarrow> (Err e, w')
      | (Ok _, w') \<Rightarrow> write_messages codec wr w' ms)"

fun read_messages ::
  "prost_codec \<Rightarrow> 'r async_reader \<Rightarrow> message_reader \<Rightarrow> 'r \<Rightarrow> nat \<Rightarrow>
   ((s2c_message, network_error) result list \<times> message_reader \<times> 'r) exec" where
  "read_messages codec rd self r 0 = Return ([], self, r)"
| "read_messages codec rd self r (Suc n) =
     (case read_next_message codec rd self r of
        Panic m \<Rightarrow> Panic m
      | Return (res, self', r') \<Rightarrow>
          (case read_messages codec rd self' r' n of
             Panic m \<Rightarrow> Panic m
           | Return (rs, self'', r'') \<Rightarrow> Return (res # rs, self'', r'')))"

lemma write_messages_appends:
  assumes "appends_stream wr accepted" and "write_messages codec wr w ms = (Ok (), w')"
  shows "accepted w' = accepted w @ concat (map (\<lambda>m. frame (encode_message codec m)) ms)"
  using assms(2)
proof (induction ms arbitrary: w)
  case (Cons m ms)
  then obtain w1 where w1: "write_bytes wr w (encode_message codec m) = (Ok (), w1)"
    and rest: "write_messages codec wr w1 ms = (Ok (), w')"
    by (auto split: prod.splits result.splits)
  show ?case using Cons.IH [OF rest] write_bytes_appends [OF assms(1) w1] by simp
qed simp

lemma read_messages_frames:
  assumes rs: "reads_stream rd ahead"
    and "ahead r = concat (map (\<lambda>m. frame (encode_message codec m)) ms) @ rest"
    and "\<And>m. m \<in> set ms \<Longrightarrow> length (encode_message codec m) \<le> unat (reader_max_message_size self)"
    and "message_codec_ok codec (set ms)"
  shows "\<exists>self' r'. ahead r' = rest \<and>
           read_messages codec rd self r (length ms) = Return (map Ok ms, self', r')"
  using assms(2-)
proof (induction ms arbitrary: r self)
  case (Cons m ms)
  let ?rest = "concat (map (\<lambda>m. frame (encode_message codec m)) ms) @ rest"
  have dec: "decode_message codec (encode_message codec m) = Ok m"
    and ok: "message_codec_ok codec (set ms)"
    using Cons.prems(3) by (auto simp: message_codec_ok_def)
  have "ahead r = frame (encode_message codec m) @ ?rest" using Cons.prems(1) by simp
  then obtain self1 r1 where one: "ahead r1 = ?rest"
    "reader_max_message_size self1 = reader_max_message_size self"
    "read_next_message codec rd self r = Return (Ok m, self1, r1)"
    using read_next_message_frame [OF rs, of r "encode_message codec m" ?rest self codec]
      Cons.prems(2) dec by auto
  have "\<exists>self' r'. ahead r' = rest \<and> read_messages codec rd self1 r1 (length ms) = Return (map Ok ms, self', r')"
    by (rule Cons.IH) (use one ok Cons.prems(2) in auto)
  with one(3) show ?case by auto
qed simp

section \<open>Streams as byte lists\<close>

text \<open>A concrete connection: a list of bytes, read from its front and extended at its end.\<close>

definition list_eof :: io_error where
  "list_eof = \<lparr>io_kind = UnexpectedEof, io_msg = ''early eof''\<rparr>"

definition u32_of_bytes :: "bytes \<Rightarrow> u32" where
  "u32_of_bytes bs = of_nat (foldl (\<lambda>n b. 256 * n + unat b) 0 bs)"

definition list_reader :: "bytes async_reader" where
  "list_reader =
     \<lparr>read_u32 = (\<lambda>r. if length r < 4 then (Err list_eof, []) else (Ok (u32_of_bytes (take 4 r)), drop 4 r)),
      read_exact = (\<lambda>r window. if length r < length window then (Err list_eof, r @ drop (length r) window, [])
                              else (Ok (), take (length window) r, drop (length window) r)),
      copy_to_sink = (\<lambda>r n. (Ok (min n (length r)), drop n r))\<rparr>"

definition list_writer :: "bytes async_writer" where
  "list_writer =
     \<lparr>write_u32 = (\<lambda>w n. (Ok (), w @ u32_bytes n)), write_all = (\<lambda>w bs. (Ok (), w @ bs)),
      flush = (\<lambda>w. (Ok (), w))\<rparr>"

lemma u32_of_bytes_u32_bytes: "u32_of_bytes (u32_bytes n) = n"
proof -
  have d: "unat (drop_bit k n) = unat n div 2 ^ k" for k
    by (simp only: unat_drop_bit_eq) (simp add: drop_bit_eq_div)
  let ?m = "unat n"
  have "foldl (\<lambda>n b. 256 * n + unat b) 0 (u32_bytes n) =
      256 * (256 * (256 * (?m div 2 ^ 24 mod 256) + ?m div 2 ^ 16 mod 256) + ?m div 2 ^ 8 mod 256) + ?m mod 256"
    by (simp only: u32_bytes_def foldl.simps unsigned_ucast_eq d take_bit_eq_mod) simp
  also have "\<dots> = ?m"
  proof -
    have q: "?m div 2 ^ 24 = ?m div 256 div 256 div 256" "?m div 2 ^ 16 = ?m div 256 div 256"
      "?m div 2 ^ 8 = ?m div 256"
      by (simp_all add: div_mult2_eq [symmetric])
    have "?m div 256 div 256 div 256 mod 256 = ?m div 256 div 256 div 256"
      using unat_u32_lt [of n] by (intro mod_less) (simp add: less_mult_imp_div_less)
    then show ?thesis unfolding q by (simp only: mult_div_mod_eq)
  qed
  finally show ?thesis by (simp add: u32_of_bytes_def)
qed

lemma list_reader_reads: "reads_stream list_reader (\<lambda>r. r)"
  by (auto simp: reads_stream_def list_reader_def u32_of_bytes_u32_bytes)

lemma list_writer_appends: "appends_stream list_writer (\<lambda>w. w)"
  by (auto simp: appends_stream_def list_writer_def)

text \<open>A codec for the examples: it knows two messages.\<close>

definition example_message :: "string \<Rightarrow> s2c_message" where
  "example_message cid =
     \<lparr>msg_correlation_id = cid, msg_body = Some (ReplicateResponse 3), msg_error = None\<rparr>"

definition example_codec :: prost_codec where
  "example_codec =
     \<lparr>encode_message = (\<lambda>m. if msg_correlation_id m = ''a'' then [1, 2, 3] else [4, 5]),
      decode_message = (\<lambda>bs. if bs = [1, 2, 3] then Ok (example_message ''a'')
                             else if bs = [4, 5] then Ok (example_message ''b'')
                             else Err ''invalid tag value: 0''),
      encode_log_entry = (\<lambda>e. []), decode_log_entry = (\<lambda>bs. Err ''empty''),
      encode_batch = (\<lambda>b. []), encode_state_request = (\<lambda>r. sr_body r),
      encode_into = (\<lambda>b bs. b @ bs)\<rparr>"

lemma example_codec_ok: "message_codec_ok example_codec {example_message ''a'', example_message ''b''}"
  by (simp add: message_codec_ok_def example_codec_def example_message_def)

section \<open>Properties\<close>

text \<open>
  C5: messages survive the wire. When a sequence of messages was written with \<open>write_bytes\<close>
  and the bytes arrive, as many calls of \<open>read_next_message\<close> return exactly these messages,
  in order, and leave the reader after the last of them, provided each encoding fits the
  reader's limit.
\<close>

theorem messages_round_trip:
  assumes "appends_stream wr accepted" and "accepted w = []"
    and "write_messages codec wr w ms = (Ok (), w')"
    and "reads_stream rd ahead" and "ahead r = accepted w' @ rest"
    and "message_codec_ok codec (set ms)"
    and "\<And>m. m \<in> set ms \<Longrightarrow> length (encode_message codec m) \<le> unat limit"
  shows "\<exists>self' r'. ahead r' = rest \<and>
           read_messages codec rd (message_reader_new limit) r (length ms) = Return (map Ok ms, self', r')"
proof -
  have "ahead r = concat (map (\<lambda>m. frame (encode_message codec m)) ms) @ rest"
    using write_messages_appends [OF assms(1,3)] assms(2,5) by simp
  then show ?thesis
    using assms(6,7) by (intro read_messages_frames [OF assms(4)]) (simp_all add: message_reader_new_def)
qed

theorem messages_round_trip_witness:
  "case read_messages example_codec list_reader (message_reader_new 100)
          (snd (write_messages example_codec list_writer [] [example_message ''a'', example_message ''b''])) 2 of
     Return (rs, self', r') \<Rightarrow> rs = [Ok (example_message ''a''), Ok (example_message ''b'')]
   | Panic m \<Rightarrow> False"
proof -
  let ?ms = "[example_message ''a'', example_message ''b'']"
  let ?w = "snd (write_messages example_codec list_writer [] ?ms)"
  have w: "write_messages example_codec list_writer [] ?ms = (Ok (), ?w)"
    by (simp add: write_bytes_def list_writer_def)
  have "\<exists>self' r'. r' = [] \<and>
      read_messages example_codec list_reader (message_reader_new 100) ?w (length ?ms) = Return (map Ok ?ms, self', r')"
  proof (rule messages_round_trip [OF list_writer_appends refl w list_reader_reads])
    show "message_codec_ok example_codec (set ?ms)" using example_codec_ok by (simp add: insert_commute)
    show "length (encode_message example_codec m) \<le> unat (100 :: u32)" for m
      by (simp add: example_codec_def)
  qed simp
  then show ?thesis by (auto simp: numeral_2_eq_2)
qed

text \<open>
  C38: a message beyond the limit costs one error and nothing else. The reader reports
  \<open>MessageTooLarge\<close> with the limit and the announced size, keeps its buffer, and stands at
  the beginning of the next frame, which the next call returns.
\<close>

theorem oversized_message_is_skipped:
  assumes "reads_stream rd ahead"
    and "ahead r = frame big @ frame (encode_message codec m) @ rest"
    and "unat (reader_max_message_size self) < length big" and "length big < 2 ^ 32"
    and "message_codec_ok codec {m}"
    and "length (encode_message codec m) \<le> unat (reader_max_message_size self)"
  shows "\<exists>self' r'. ahead r' = rest \<and>
           read_messages codec rd self r 2 =
             Return ([Err (MessageTooLarge (reader_max_message_size self) (of_nat (length big))), Ok m],
              self', r')"
proof -
  obtain r1 where r1: "ahead r1 = frame (encode_message codec m) @ rest"
    "read_next_message codec rd self r =
       Return (Err (MessageTooLarge (reader_max_message_size self) (of_nat (length big))), self, r1)"
    using read_next_message_oversized [OF assms(1,2,3,4)] by blast
  moreover obtain self2 r2 where "ahead r2 = rest" "read_next_message codec rd self r1 = Return (Ok m, self2, r2)"
    using read_next_message_frame [OF assms(1) r1(1) assms(6), of codec] assms(5)
    by (auto simp: message_codec_ok_def)
  ultimately show ?thesis by (simp add: numeral_2_eq_2)
qed

theorem oversized_message_is_skipped_witness:
  "case read_messages example_codec list_reader (message_reader_new 3)
          (frame [9, 9, 9, 9] @ frame [4, 5]) 2 of
     Return (rs, self', r') \<Rightarrow> rs = [Err (MessageTooLarge 3 4), Ok (example_message ''b'')]
   | Panic m \<Rightarrow> False"
proof -
  have "\<exists>self' r'. r' = [] \<and>
      read_messages example_codec list_reader (message_reader_new 3) (frame [9, 9, 9, 9] @ frame [4, 5]) 2 =
        Return ([Err (MessageTooLarge (reader_max_message_size (message_reader_new 3)) (of_nat (length [9, 9, 9, 9 :: byte]))),
          Ok (example_message ''b'')], self', r')"
  proof (rule oversized_message_is_skipped [OF list_reader_reads])
    show "frame [9, 9, 9, 9] @ frame [4, 5] =
        frame [9, 9, 9, 9] @ frame (encode_message example_codec (example_message ''b'')) @ []"
      by (simp add: example_codec_def example_message_def)
    show "message_codec_ok example_codec {example_message ''b''}"
      using example_codec_ok by (simp add: message_codec_ok_def)
    show "length (encode_message example_codec (example_message ''b'')) \<le>
        unat (reader_max_message_size (message_reader_new 3))"
      by (simp add: example_codec_def example_message_def message_reader_new_def)
  qed (simp_all add: message_reader_new_def)
  then show ?thesis by (auto simp: message_reader_new_def)
qed

text \<open>
  The reader's memory is bounded by its configuration: its buffer never shrinks and never
  grows beyond the larger of 1024 bytes and the message limit, whatever lengths the peer
  announces.
\<close>

theorem reader_buffer_bounded:
  assumes "reads_stream rd ahead"
    and "read_next_message codec rd self r = Return (res, self', r')"
    and "length (buf self) \<le> max 1024 (unat (reader_max_message_size self))"
  shows "length (buf self) \<le> length (buf self') \<and>
         length (buf self') \<le> max 1024 (unat (reader_max_message_size self')) \<and>
         reader_max_message_size self' = reader_max_message_size self"
proof -
  note len = reads_stream_length [OF assms(1)]
  show ?thesis
    using assms(2,3)
    by (auto simp: read_next_message_def slice_to_def length_grow word_less_nat_alt Let_def not_less
        dest!: len split: prod.splits result.splits if_splits exec.splits)
qed

theorem reader_buffer_bounded_witness:
  "case read_next_message example_codec list_reader (message_reader_new 3) (frame [4, 5]) of
     Return (res, self', r') \<Rightarrow> 1024 \<le> length (buf self')
   | Panic m \<Rightarrow> False"
proof -
  have new: "reader_max_message_size (message_reader_new 3) = 3" "length (buf (message_reader_new 3)) = 1024"
    by (simp_all add: message_reader_new_def)
  then have "length [4, 5 :: byte] \<le> unat (reader_max_message_size (message_reader_new 3))" by simp
  from read_next_message_frame [OF list_reader_reads _ this, of "frame [4, 5]" "[]" example_codec]
  obtain res self' r' where
    run: "read_next_message example_codec list_reader (message_reader_new 3) (frame [4, 5]) = Return (res, self', r')"
    by auto
  from reader_buffer_bounded [OF list_reader_reads run] run show ?thesis by (simp add: new)
qed

section \<open>Equivalence with readers without a buffer\<close>

text \<open>
  Two references. \<open>read_frame\<close> makes the same calls but reads every body into a new vector of
  zeros of just its size. \<open>next_frame\<close> is the format itself, as a function of bytes: what the
  first frame is and what follows it, if it is complete.
\<close>

definition read_frame ::
  "prost_codec \<Rightarrow> 'r async_reader \<Rightarrow> u32 \<Rightarrow> 'r \<Rightarrow> (s2c_message, network_error) result \<times> 'r" where
  "read_frame codec rd limit reader =
     (case read_u32 rd reader of
        (Err e, r1) \<Rightarrow> (Err (net_io e), r1)
      | (Ok n, r1) \<Rightarrow>
          if limit < n
          then (case copy_to_sink rd r1 (unat n) of
                  (Err e, r2) \<Rightarrow> (Err (net_io e), r2)
                | (Ok _, r2) \<Rightarrow> (Err (MessageTooLarge limit n), r2))
          else
            (case read_exact rd r1 (replicate (unat n) 0) of
               (Err e, bs, r2) \<Rightarrow> (Err (net_io e), r2)
             | (Ok _, bs, r2) \<Rightarrow>
                 ((case decode_message codec bs of Ok m \<Rightarrow> Ok m | Err err \<Rightarrow> Err (InvalidProtobuf err)), r2)))"

definition next_frame ::
  "prost_codec \<Rightarrow> u32 \<Rightarrow> bytes \<Rightarrow> ((s2c_message, network_error) result \<times> bytes) option" where
  "next_frame codec limit bs =
     (let n = u32_of_bytes (take 4 bs); body = drop 4 bs in
      if length bs < 4 then None
      else if limit < n then Some (Err (MessageTooLarge limit n), drop (unat n) body)
      else if length body < unat n then None
      else Some ((case decode_message codec (take (unat n) body) of
                    Ok m \<Rightarrow> Ok m | Err err \<Rightarrow> Err (InvalidProtobuf err)), drop (unat n) body))"

lemma u32_bytes_u32_of_bytes:
  assumes "length bs = 4"
  shows "u32_bytes (u32_of_bytes bs) = bs"
proof -
  obtain a b c d where bs: "bs = [a, b, c, d]"
    using assms by (auto simp: numeral_eq_Suc length_Suc_conv)
  let ?n = "256 * (256 * (256 * unat a + unat b) + unat c) + unat d"
  have lt: "unat x < 256" for x :: byte using unsigned_less [of x] by simp
  have "?n < 2 ^ 32" using lt [of a] lt [of b] lt [of c] lt [of d] by simp
  then have "unat (of_nat ?n :: u32) = ?n" by (simp only: unat_of_nat) simp
  moreover have "u32_of_bytes bs = of_nat ?n" by (simp only: u32_of_bytes_def bs foldl.simps) simp
  ultimately have n: "unat (u32_of_bytes bs) = ?n" by (simp only:)
  have byte: "ucast (drop_bit k (u32_of_bytes bs)) = (of_nat (?n div 2 ^ k) :: byte)" for k
    by (rule word_unat_eq_iff [THEN iffD2])
      (simp only: unsigned_ucast_eq unat_drop_bit_eq n, simp add: drop_bit_eq_div take_bit_eq_mod unat_of_nat)
  have "?n div 2 ^ 24 = unat a" "?n div 2 ^ 16 = 256 * unat a + unat b"
    "?n div 2 ^ 8 = 256 * (256 * unat a + unat b) + unat c"
  proof -
    have q: "(256 * x + unat y) div 256 = x" for x and y :: byte using lt [of y] by simp
    have "?n div 2 ^ 24 = ?n div 256 div 256 div 256" "?n div 2 ^ 16 = ?n div 256 div 256"
      "?n div 2 ^ 8 = ?n div 256"
      by (simp_all only: div_mult2_eq [symmetric]) simp_all
    then show "?n div 2 ^ 24 = unat a" "?n div 2 ^ 16 = 256 * unat a + unat b"
      "?n div 2 ^ 8 = 256 * (256 * unat a + unat b) + unat c"
      by (simp_all only: q)
  qed
  then have "ucast (drop_bit 24 (u32_of_bytes bs)) = (of_nat (256 * 0 + unat a) :: byte)"
    "ucast (drop_bit 16 (u32_of_bytes bs)) = (of_nat (256 * unat a + unat b) :: byte)"
    "ucast (drop_bit 8 (u32_of_bytes bs)) = (of_nat (256 * (256 * unat a + unat b) + unat c) :: byte)"
    "ucast (u32_of_bytes bs) = (of_nat ?n :: byte)"
    using byte [of 24] byte [of 16] byte [of 8] byte [of 0] by (simp_all only: mult_0_right add_0 drop_bit_0 id_apply power_0 div_by_1)
  moreover have "(of_nat (256 * x + unat y) :: byte) = y" for x and y :: byte
  proof -
    have "(256 * x + unat y) mod 2 ^ LENGTH(8) = unat y" using lt [of y] by simp
    then show ?thesis by (simp only: word_unat_eq_iff unat_of_nat)
  qed
  ultimately show ?thesis unfolding u32_bytes_def bs by (simp only:)
qed

lemma read_next_message_unbuffered:
  assumes "reads_stream rd ahead"
  shows "\<exists>self'. read_next_message codec rd self r =
    Return (fst (read_frame codec rd (reader_max_message_size self) r), self',
            snd (read_frame codec rd (reader_max_message_size self) r))"
proof -
  obtain a r1 where size: "read_u32 rd r = (a, r1)" by fastforce
  show ?thesis
  proof (cases a)
    case (Err e)
    with size show ?thesis by (simp add: read_next_message_def read_frame_def)
  next
    case (Ok n)
    let ?slice = "take (unat n) (grow (unat n) (buf self))"
    have len: "length ?slice = unat n" by (simp add: length_grow)
    obtain x filled r2 where body: "read_exact rd r1 ?slice = (x, filled, r2)" by (metis prod_cases3)
    from reads_stream_blind [OF assms body, of "replicate (unat n) 0"] len obtain bs where
      bs: "read_exact rd r1 (replicate (unat n) 0) = (x, bs, r2)" "x = Ok () \<Longrightarrow> bs = filled" by auto
    have "length filled = unat n" using reads_stream_length [OF assms body] len by simp
    note facts = size Ok body bs(1) slice_to_filled [OF this]
    show ?thesis
    proof (cases "reader_max_message_size self < n")
      case True
      then show ?thesis
        by (auto simp: read_next_message_def read_frame_def size Ok split: prod.splits result.splits)
    next
      case False
      with bs(2) show ?thesis
        by (cases x) (auto simp: read_next_message_def read_frame_def facts slice_to_grow Let_def
            split: result.splits)
    qed
  qed
qed

lemma read_next_message_format:
  assumes rs: "reads_stream rd ahead" and nf: "next_frame codec (reader_max_message_size self) (ahead r) = Some (res, rest)"
  shows "\<exists>self' r'. read_next_message codec rd self r = Return (res, self', r') \<and> ahead r' = rest"
proof -
  let ?n = "u32_of_bytes (take 4 (ahead r))" and ?body = "drop 4 (ahead r)"
  have "4 \<le> length (ahead r)" using nf by (auto simp: next_frame_def Let_def split: if_splits)
  then have "ahead r = u32_bytes ?n @ ?body" by (simp add: u32_bytes_u32_of_bytes)
  then obtain r1 where r1: "read_u32 rd r = (Ok ?n, r1)" "ahead r1 = ?body"
    using reads_stream_u32 [OF rs] by blast
  show ?thesis
  proof (cases "reader_max_message_size self < ?n")
    case True
    obtain r2 k where "copy_to_sink rd r1 (unat ?n) = (Ok k, r2)" "ahead r2 = drop (unat ?n) ?body"
      using reads_stream_copy [OF rs, of r1 "unat ?n"] r1(2) by auto
    with True r1(1) nf show ?thesis
      by (auto simp: next_frame_def read_next_message_def Let_def split: if_splits)
  next
    case False
    let ?slice = "take (unat ?n) (grow (unat ?n) (buf self))"
    have enough: "unat ?n \<le> length ?body" using nf False by (auto simp: next_frame_def Let_def split: if_splits)
    then have len: "length ?slice = length (take (unat ?n) ?body)" by (simp add: length_grow)
    have "ahead r1 = take (unat ?n) ?body @ drop (unat ?n) ?body" unfolding r1(2) by (rule append_take_drop_id [symmetric])
    from reads_stream_exact [OF rs this len] obtain r2 where
      "read_exact rd r1 ?slice = (Ok (), take (unat ?n) ?body, r2)" "ahead r2 = drop (unat ?n) ?body" by blast
    with False enough r1(1) nf show ?thesis
      by (auto simp: next_frame_def read_next_message_def slice_to_grow slice_to_filled Let_def
          split: if_splits result.splits)
  qed
qed

text \<open>
  C20: the reused buffer does not show and never fails. Whatever earlier messages left in it and
  however long it is, a call of \<open>read_next_message\<close> never panics on its slices, returns what
  the reader that takes a new vector for every body returns, errors included, and leaves the
  stream at the same place; and when a whole frame is there to be read, what it returns and
  leaves is what the format says.
\<close>

theorem reader_matches_reference:
  assumes "reads_stream rd ahead"
  shows "\<exists>self'. read_next_message codec rd self r =
           Return (fst (read_frame codec rd (reader_max_message_size self) r), self',
                   snd (read_frame codec rd (reader_max_message_size self) r)) \<and>
         (\<forall>res rest. next_frame codec (reader_max_message_size self) (ahead r) = Some (res, rest) \<longrightarrow>
            fst (read_frame codec rd (reader_max_message_size self) r) = res \<and>
            ahead (snd (read_frame codec rd (reader_max_message_size self) r)) = rest)"
proof -
  obtain self' where run: "read_next_message codec rd self r =
      Return (fst (read_frame codec rd (reader_max_message_size self) r), self',
              snd (read_frame codec rd (reader_max_message_size self) r))"
    using read_next_message_unbuffered [OF assms] by blast
  then show ?thesis using read_next_message_format [OF assms, of codec self r] by fastforce
qed

theorem reader_matches_reference_witness:
  "next_frame example_codec 1024 (frame [1, 2, 3] @ [9]) = Some (Ok (example_message ''a''), [9]) \<and>
   (\<exists>self'. read_next_message example_codec list_reader ((message_reader_new 1024)\<lparr>buf := [7, 7]\<rparr>)
      (frame [1, 2, 3] @ [9]) = Return (Ok (example_message ''a''), self', [9]))"
proof -
  let ?self = "(message_reader_new 1024)\<lparr>buf := [7, 7]\<rparr>"
  have limit: "reader_max_message_size ?self = 1024" by (simp add: message_reader_new_def)
  have nf: "next_frame example_codec 1024 (frame [1, 2, 3] @ [9]) = Some (Ok (example_message ''a''), [9])"
    by (simp add: next_frame_def frame_def u32_of_bytes_u32_bytes example_codec_def)
  from reader_matches_reference [OF list_reader_reads, of example_codec ?self "frame [1, 2, 3] @ [9]"] nf
  show ?thesis by (auto simp: limit)
qed

text \<open>
  The failing reader of the tests is transparent where it is told not to fail, and when it has
  no failures to inject: it returns what the inner reader returns, and shows every message to
  the inspector once.
\<close>

theorem test_reader_transparent:
  assumes "fst (fail_every (fail_state self)) = 0 \<or> failures self = []"
    and "read_next_message codec rd (inner self) r = Return (res, in', r')"
  shows "\<exists>self'. test_read_next_message fail_every codec rd self r = Some (Return (res, self', r')) \<and>
           inner self' = in' \<and> failures self' = failures self \<and>
           inspected self' = inspected self @ (case res of Ok m \<Rightarrow> [m] | Err _ \<Rightarrow> [])"
  using assms by (subst test_read_next_message.simps) (auto simp: Let_def split: result.splits prod.splits)

section \<open>What a buffered writer holds back\<close>

lemma buffered_streamD:
  assumes "buffered_stream wr sent pending cap"
  shows buffered_u32: "write_u32 wr w n = (Ok (), w') \<Longrightarrow>
          sent w' @ pending w' = sent w @ pending w @ u32_bytes n \<and>
          (length (pending w) + 4 < cap \<longrightarrow> sent w' = sent w)"
    and buffered_all: "write_all wr w bs = (Ok (), w') \<Longrightarrow>
          sent w' @ pending w' = sent w @ pending w @ bs \<and>
          (length (pending w) + length bs < cap \<longrightarrow> sent w' = sent w)"
    and buffered_flush: "flush wr w = (x, w') \<Longrightarrow>
          sent w' @ pending w' = sent w @ pending w \<and> (x = Ok () \<longrightarrow> pending w' = [])"
  using assms unfolding buffered_stream_def by blast+

lemma buffered_appends:
  "buffered_stream wr sent pending cap \<Longrightarrow> appends_stream wr (\<lambda>w. sent w @ pending w)"
  by (simp add: buffered_stream_def appends_stream_def)

text \<open>A frame that fits into the buffer stays there: \<open>write_bytes\<close> does not flush.\<close>

lemma write_bytes_held:
  assumes bs: "buffered_stream wr sent pending cap" and wb: "write_bytes wr w payload = (Ok (), w')"
    and fits: "length (pending w) + 4 + length payload < cap"
  shows "sent w' = sent w" and "pending w' = pending w @ frame payload"
proof -
  obtain w1 where u32: "write_u32 wr w (of_nat (length payload)) = (Ok (), w1)"
    and all: "write_all wr w1 payload = (Ok (), w')"
    using wb by (auto simp: write_bytes_def split: prod.splits result.splits)
  have w1: "sent w1 = sent w" "pending w1 = pending w @ u32_bytes (of_nat (length payload))"
    using buffered_u32 [OF bs u32] fits by auto
  then show "sent w' = sent w" "pending w' = pending w @ frame payload"
    using buffered_all [OF bs all] fits by (auto simp: frame_def)
qed

text \<open>The writes of a task, one payload after the other, up to the first that fails.\<close>

fun write_payloads :: "'w async_writer \<Rightarrow> 'w \<Rightarrow> bytes list \<Rightarrow> (unit, io_error) result \<times> 'w" where
  "write_payloads wr w [] = (Ok (), w)"
| "write_payloads wr w (p # ps) =
     (case write_bytes wr w p of (Err e, w') \<Rightarrow> (Err e, w') | (Ok _, w') \<Rightarrow> write_payloads wr w' ps)"

definition framed_size :: "bytes list \<Rightarrow> nat" where
  "framed_size ps = (\<Sum>p\<leftarrow>ps. 4 + length p)"

lemma write_payloads_held:
  assumes bs: "buffered_stream wr sent pending cap" and "write_payloads wr w ps = (Ok (), w')"
    and "length (pending w) + framed_size ps < cap"
  shows "sent w' = sent w"
  using assms(2,3)
proof (induction ps arbitrary: w)
  case (Cons p ps)
  then obtain w1 where w1: "write_bytes wr w p = (Ok (), w1)" "write_payloads wr w1 ps = (Ok (), w')"
    by (auto split: prod.splits result.splits)
  have "length (pending w) + 4 + length p < cap" using Cons.prems(2) by (simp add: framed_size_def)
  note held = write_bytes_held [OF bs w1(1) this]
  have "sent w' = sent w1"
    using Cons.IH [OF w1(2)] Cons.prems(2) held(2) by (simp add: framed_size_def frame_def)
  with held(1) show ?case by simp
qed simp

text \<open>A concrete one: what it sent and what it holds.\<close>

definition buf_write :: "nat \<Rightarrow> bytes \<times> bytes \<Rightarrow> bytes \<Rightarrow> (unit, io_error) result \<times> (bytes \<times> bytes)" where
  "buf_write cap w bs =
     (case w of (sent, pending) \<Rightarrow>
        if length pending + length bs < cap then (Ok (), (sent, pending @ bs))
        else (Ok (), (sent @ pending @ bs, [])))"

definition buf_writer :: "nat \<Rightarrow> (bytes \<times> bytes) async_writer" where
  "buf_writer cap =
     \<lparr>write_u32 = (\<lambda>w n. buf_write cap w (u32_bytes n)), write_all = buf_write cap,
      flush = (\<lambda>w. (Ok (), (fst w @ snd w, [])))\<rparr>"

lemma buf_writer_buffered: "buffered_stream (buf_writer cap) fst snd cap"
  by (auto simp: buffered_stream_def buf_writer_def buf_write_def split: if_splits)

end
