(* ===== verification/S2c_Client.thy ===== *)
theory S2c_Client
  imports S2c_Inflight S2c_Config S2c_Message_RW
begin

text \<open>
  \<^verbatim>\<open>src/network/client.rs\<close>: the client of a node, its two tasks and its calls.

  The tasks \<open>drain_in\<close> and \<open>drain_out\<close> are program counters in the client's record, and
  everything that can happen to them or be done by other callers between two awaits of a
  call is an event (\<open>client_event\<close>): the outcomes of reads, writes and timers are supplied
  by the events, so a list of events is one interleaving. A call runs its own statements and
  the events it is given for each of its awaits; \<open>None\<close> is a call that is still waiting
  after them. \<open>TaskTracker\<close> and \<open>CancellationToken\<close> are their documented states: a
  tracker is open or closed, a token once cancelled stays so; a task started under a
  cancelled token ends at once, a running one may still take steps and may end at any time.
\<close>

section \<open>State\<close>

datatype client_state = NotConnected | Connected | Ready | Closed

primrec client_state_u8 :: "client_state \<Rightarrow> u8" where
  "client_state_u8 NotConnected = 0"
| "client_state_u8 Connected = 1"
| "client_state_u8 Ready = 2"
| "client_state_u8 Closed = 3"

definition load_client_state :: "u8 \<Rightarrow> client_state" where
  "load_client_state cell =
     (if cell = 0 then NotConnected else if cell = 1 then Connected
      else if cell = 2 then Ready else Closed)"

text \<open>
  \<open>InFailed\<close> is between the two halves of what \<open>drain_in\<close> does after a failed read: the pending
  requests have been failed, the token and the state are still as before.
\<close>

datatype in_task = InEnded | InTop | InReading | InFailed

datatype out_task = OutEnded | OutTop | OutSleeping | OutReceiving | OutWriting bytes

record s2c_client =
  cl_options :: s2c_options
  cl_context :: context_t
  inflight :: inflight_requests
  throttle :: bool
  client_cell :: u8
  out_channel :: "bytes list"
  tracker_closed :: bool
  cancelled :: bool
  drain_in :: in_task
  drain_out :: out_task
  written :: "bytes list"

text \<open>
  The state cell of a new client, the client with an empty channel, and \<open>new\<close>: the channel
  constructor panics when it is asked for no room at all.
\<close>

definition atomic_client_state_new :: u8 where
  "atomic_client_state_new = client_state_u8 NotConnected"

definition fresh_client :: "s2c_options \<Rightarrow> context_t \<Rightarrow> s2c_client" where
  "fresh_client options ctx =
     \<lparr>cl_options = options, cl_context = ctx, inflight = inflight_new, throttle = False,
      client_cell = atomic_client_state_new, out_channel = [], tracker_closed = False,
      cancelled = False, drain_in = InEnded, drain_out = OutEnded, written = []\<rparr>"

definition client_capacity :: "s2c_client \<Rightarrow> nat" where
  "client_capacity c = unat (max_pending_reqs_per_client (network (cl_options c)))"

definition client_new :: "s2c_options \<Rightarrow> context_t \<Rightarrow> s2c_client exec" where
  "client_new options ctx =
     (if client_capacity (fresh_client options ctx) = 0
      then Panic ''mpsc bounded channel requires buffer > 0''
      else Return (fresh_client options ctx))"

definition client_load :: "s2c_client \<Rightarrow> client_state" where
  "client_load c = load_client_state (client_cell c)"

definition client_store :: "client_state \<Rightarrow> s2c_client \<Rightarrow> s2c_client" where
  "client_store st c = c\<lparr>client_cell := client_state_u8 st\<rparr>"

definition running :: "s2c_client \<Rightarrow> bool" where
  "running c = (case client_load c of Ready \<Rightarrow> True | Connected \<Rightarrow> True | _ \<Rightarrow> False)"

section \<open>The tasks\<close>

text \<open>One iteration of \<open>drain_in\<close>: the check at the top, then what a finished read does.\<close>

definition drain_in_top :: "s2c_client \<Rightarrow> s2c_client" where
  "drain_in_top c = (if \<not> running c then c\<lparr>drain_in := InEnded\<rparr> else c\<lparr>drain_in := InReading\<rparr>)"

definition drain_in_read :: "s2c_client \<Rightarrow> (s2c_message, network_error) result \<Rightarrow> s2c_client" where
  "drain_in_read c r =
     (case r of
        Ok message \<Rightarrow>
          if \<not> running c then c\<lparr>drain_in := InEnded\<rparr>
          else
            (case msg_error message of
               Some e \<Rightarrow>
                 (if e = SlowDownError then c\<lparr>throttle := True, drain_in := InTop\<rparr>
                  else c\<lparr>drain_in := InTop\<rparr>)
             | None \<Rightarrow> c\<lparr>inflight := inflight_respond (inflight c) message, drain_in := InTop\<rparr>)
      | Err e \<Rightarrow> c\<lparr>inflight := fail_all (inflight c) (ClientIo e), drain_in := InFailed\<rparr>)"

definition drain_in_failed :: "s2c_client \<Rightarrow> s2c_client" where
  "drain_in_failed c = client_store NotConnected (c\<lparr>cancelled := True, drain_in := InEnded\<rparr>)"

text \<open>One iteration of \<open>drain_out\<close>, cut at its three awaits.\<close>

definition drain_out_top :: "s2c_client \<Rightarrow> s2c_client" where
  "drain_out_top c =
     (if \<not> running c then c\<lparr>drain_out := OutEnded\<rparr>
      else if throttle c then c\<lparr>drain_out := OutSleeping\<rparr>
      else c\<lparr>drain_out := OutReceiving\<rparr>)"

definition drain_out_slept :: "s2c_client \<Rightarrow> s2c_client" where
  "drain_out_slept c = c\<lparr>throttle := False, drain_out := OutReceiving\<rparr>"

definition drain_out_received :: "s2c_client \<Rightarrow> s2c_client" where
  "drain_out_received c =
     (case out_channel c of
        [] \<Rightarrow> c
      | out_msg # rest \<Rightarrow>
          if \<not> running c then c\<lparr>out_channel := rest, drain_out := OutEnded\<rparr>
          else c\<lparr>out_channel := rest, drain_out := OutWriting out_msg\<rparr>)"

definition drain_out_wrote :: "s2c_client \<Rightarrow> bytes \<Rightarrow> (unit, io_error) result \<Rightarrow> s2c_client" where
  "drain_out_wrote c out_msg r =
     (case r of
        Ok _ \<Rightarrow> c\<lparr>written := written c @ [out_msg], drain_out := OutTop\<rparr>
      | Err e \<Rightarrow> client_store NotConnected (c\<lparr>drain_out := OutEnded\<rparr>))"

datatype client_event =
    InStep
  | InRead "(s2c_message, network_error) result"
  | InCancelled
  | OutStep
  | OutWrote "(unit, io_error) result"
  | OutCancelled
  | CallerAdd string
  | CallerEnqueue bytes
  | CallerDiscard string

text \<open>
  An event that is not enabled changes nothing. \<open>InStep\<close> and \<open>OutStep\<close> are the steps whose
  outcome the client's state decides (the checks, the end of a sleep, a message in the
  channel, the end of a reader whose read failed, which no await interrupts any more). The last three are other callers of \<open>send\<close> at work; a full channel makes them
  wait.
\<close>

fun client_step :: "s2c_client \<Rightarrow> client_event \<Rightarrow> s2c_client" where
  "client_step c InStep =
     (case drain_in c of
        InTop \<Rightarrow> drain_in_top c
      | InFailed \<Rightarrow> drain_in_failed c
      | _ \<Rightarrow> c)"
| "client_step c (InRead r) = (if drain_in c = InReading then drain_in_read c r else c)"
| "client_step c InCancelled =
     (if cancelled c \<and> drain_in c \<noteq> InFailed then c\<lparr>drain_in := InEnded\<rparr> else c)"
| "client_step c OutStep =
     (case drain_out c of
        OutTop \<Rightarrow> drain_out_top c
      | OutSleeping \<Rightarrow> drain_out_slept c
      | OutReceiving \<Rightarrow> drain_out_received c
      | _ \<Rightarrow> c)"
| "client_step c (OutWrote r) =
     (case drain_out c of OutWriting out_msg \<Rightarrow> drain_out_wrote c out_msg r | _ \<Rightarrow> c)"
| "client_step c OutCancelled = (if cancelled c then c\<lparr>drain_out := OutEnded\<rparr> else c)"
| "client_step c (CallerAdd cid) = c\<lparr>inflight := snd (inflight_add (inflight c) cid)\<rparr>"
| "client_step c (CallerEnqueue payload) =
     (if length (out_channel c) < client_capacity c
      then c\<lparr>out_channel := out_channel c @ [payload]\<rparr> else c)"
| "client_step c (CallerDiscard cid) = c\<lparr>inflight := inflight_discard (inflight c) cid\<rparr>"

definition client_run :: "s2c_client \<Rightarrow> client_event list \<Rightarrow> s2c_client" where
  "client_run c evs = foldl client_step c evs"

definition tasks_ended :: "s2c_client \<Rightarrow> bool" where
  "tasks_ended c = (drain_in c = InEnded \<and> drain_out c = OutEnded)"

text \<open>Starting the tasks; under a cancelled token they end at once.\<close>

definition spawn_drain_in :: "s2c_client \<Rightarrow> s2c_client" where
  "spawn_drain_in c = c\<lparr>drain_in := (if cancelled c then InEnded else InTop)\<rparr>"

definition spawn_drain_out :: "s2c_client \<Rightarrow> s2c_client" where
  "spawn_drain_out c = c\<lparr>drain_out := (if cancelled c then OutEnded else OutTop)\<rparr>"

section \<open>Calls\<close>

text \<open>
  \<open>send_and_await_response\<close>: the events of the wait for room in the channel, and those up to
  the moment the caller resumes. A receiver that is still waiting then has timed out. The
  channel's receiving end lives as long as the client, so the send itself cannot fail.
\<close>

definition send_and_await_response ::
  "s2c_client \<Rightarrow> string \<Rightarrow> bytes \<Rightarrow> client_event list \<Rightarrow> client_event list \<Rightarrow>
   ((s2c_message, client_error) result \<times> s2c_client) option" where
  "send_and_await_response c cid payload evs1 evs2 =
     (case inflight_add (inflight c) cid of
        (rx, t) \<Rightarrow>
          (let c1 = client_run (c\<lparr>inflight := t\<rparr>) evs1 in
           if client_capacity c1 \<le> length (out_channel c1) then None
           else
             (let c2 = client_run (c1\<lparr>out_channel := out_channel c1 @ [payload]\<rparr>) evs2;
                  discarded = c2\<lparr>inflight := inflight_discard (inflight c2) cid\<rparr>
              in case oneshots (inflight c2) rx of
                   Delivered (Ok response) \<Rightarrow> Some (Ok response, c2)
                 | Delivered (Err e) \<Rightarrow> Some (Err e, discarded)
                 | SenderDropped \<Rightarrow> Some (Err ClientNotConnected, discarded)
                 | Pending \<Rightarrow> Some (Err Timeout, discarded))))"

definition client_send ::
  "s2c_client \<Rightarrow> string \<Rightarrow> bytes \<Rightarrow> client_event list \<Rightarrow> client_event list \<Rightarrow>
   ((s2c_message, client_error) result \<times> s2c_client) option" where
  "client_send c cid payload evs1 evs2 =
     (if client_load c = Closed then Some (Err ClientClosed, c)
      else if client_load c = NotConnected then Some (Err ClientNotConnected, c)
      else send_and_await_response c cid payload evs1 evs2)"

definition handshake_message :: "s2c_client \<Rightarrow> string \<Rightarrow> s2c_message" where
  "handshake_message c uuid =
     \<lparr>msg_correlation_id = uuid,
      msg_body = Some (Handshake \<lparr>hs_group_id = ctx_s2c_group_id (cl_context c),
                                  hs_node_identity = Some (ctx_node_identity (cl_context c))\<rparr>),
      msg_error = None\<rparr>"

definition client_handshake ::
  "prost_codec \<Rightarrow> s2c_client \<Rightarrow> string \<Rightarrow> client_event list \<Rightarrow> client_event list \<Rightarrow>
   ((handshake_msg, client_error) result \<times> s2c_client) exec option" where
  "client_handshake codec c uuid evs1 evs2 =
     (case send_and_await_response c uuid (encode_message codec (handshake_message c uuid)) evs1 evs2 of
        None \<Rightarrow> None
      | Some (Ok resp, c') \<Rightarrow>
          (case msg_body resp of
             Some (Handshake handshake) \<Rightarrow> Some (Return (Ok handshake, c'))
           | _ \<Rightarrow> Some (Panic ''Invalid response''))
      | Some (Err err, c') \<Rightarrow> Some (Return (Err err, c')))"

datatype tcp_outcome = TcpElapsed | TcpFailed io_error | TcpConnected

record connect_env =
  ce_wait :: "client_event list"
  ce_tcp :: tcp_outcome
  ce_uuid :: string
  ce_full :: "client_event list"
  ce_response :: "client_event list"
  ce_close :: "client_event list"

definition client_connect ::
  "prost_codec \<Rightarrow> s2c_client \<Rightarrow> connect_env \<Rightarrow> ((unit, client_error) result \<times> s2c_client) exec option" where
  "client_connect codec c env =
     (if client_load c = NotConnected
      then
        (let c1 = (if \<not> tracker_closed c
                   then client_run (c\<lparr>tracker_closed := True\<rparr>) (ce_wait env) else c) in
         if \<not> tracker_closed c \<and> \<not> tasks_ended c1 then None
         else
           (let c2 = c1\<lparr>tracker_closed := False\<rparr> in
            case ce_tcp env of
              TcpElapsed \<Rightarrow> Some (Return (Err ConnectTimeout, c2))
            | TcpFailed e \<Rightarrow> Some (Return (Err (ClientIo (net_io e)), c2))
            | TcpConnected \<Rightarrow>
                (let c3 = spawn_drain_out (spawn_drain_in (client_store Connected c2)) in
                 case client_handshake codec c3 (ce_uuid env) (ce_full env) (ce_response env) of
                   None \<Rightarrow> None
                 | Some (Panic m) \<Rightarrow> Some (Panic m)
                 | Some (Return (Ok handshake, c4)) \<Rightarrow>
                     Some (Return (Ok (), client_store Ready c4))
                 | Some (Return (Err e, c4)) \<Rightarrow>
                     (let c5 = client_store NotConnected c4 in
                      if tracker_closed c5 then Some (Return (Err e, c5))
                      else
                        (let c6 = client_run (c5\<lparr>tracker_closed := True, cancelled := True\<rparr>)
                                    (ce_close env) in
                         if tasks_ended c6 then Some (Return (Err e, c6)) else None)))))
      else Some (Return (Ok (), c)))"

definition client_close :: "s2c_client \<Rightarrow> client_event list \<Rightarrow> s2c_client option" where
  "client_close c evs =
     (if client_load c \<noteq> Closed
      then
        (let c1 = client_store Closed c in
         if tracker_closed c1 then Some c1
         else
           (let c2 = client_run (c1\<lparr>tracker_closed := True, cancelled := True\<rparr>) evs in
            if tasks_ended c2 then Some c2 else None))
      else Some c)"

section \<open>The state cell\<close>

lemma load_client_state_u8 [simp]: "load_client_state (client_state_u8 st) = st"
  by (cases st) (simp_all add: load_client_state_def)

interpretation ccell: atomic_enum client_state_u8 load_client_state
  by unfold_locales simp

lemma client_load_store [simp]: "client_load (client_store st c) = st"
  by (simp add: client_load_def client_store_def)

lemma client_load_frame [simp]:
  "client_load (c\<lparr>inflight := t\<rparr>) = client_load c"
  "client_load (c\<lparr>throttle := b\<rparr>) = client_load c"
  "client_load (c\<lparr>out_channel := q\<rparr>) = client_load c"
  "client_load (c\<lparr>tracker_closed := b\<rparr>) = client_load c"
  "client_load (c\<lparr>cancelled := b\<rparr>) = client_load c"
  "client_load (c\<lparr>drain_in := i\<rparr>) = client_load c"
  "client_load (c\<lparr>drain_out := u\<rparr>) = client_load c"
  "client_load (c\<lparr>written := w\<rparr>) = client_load c"
  by (simp_all add: client_load_def)

lemma client_store_frame [simp]:
  "inflight (client_store st c) = inflight c" "cancelled (client_store st c) = cancelled c"
  "tracker_closed (client_store st c) = tracker_closed c"
  "drain_in (client_store st c) = drain_in c" "drain_out (client_store st c) = drain_out c"
  "out_channel (client_store st c) = out_channel c" "written (client_store st c) = written c"
  "throttle (client_store st c) = throttle c" "cl_options (client_store st c) = cl_options c"
  by (simp_all add: client_store_def)

lemma client_capacity_frame [simp]:
  "client_capacity (c\<lparr>inflight := t\<rparr>) = client_capacity c"
  "client_capacity (c\<lparr>throttle := b\<rparr>) = client_capacity c"
  "client_capacity (c\<lparr>out_channel := q\<rparr>) = client_capacity c"
  "client_capacity (c\<lparr>tracker_closed := b\<rparr>) = client_capacity c"
  "client_capacity (c\<lparr>cancelled := b\<rparr>) = client_capacity c"
  "client_capacity (c\<lparr>drain_in := i\<rparr>) = client_capacity c"
  "client_capacity (c\<lparr>drain_out := u\<rparr>) = client_capacity c"
  "client_capacity (c\<lparr>written := w\<rparr>) = client_capacity c"
  "client_capacity (client_store st c) = client_capacity c"
  by (simp_all add: client_capacity_def)

lemmas fresh_client_simps = fresh_client_def atomic_client_state_new_def client_capacity_def

lemmas drain_defs =
  drain_in_top_def drain_in_read_def drain_in_failed_def drain_out_top_def drain_out_slept_def
  drain_out_received_def drain_out_wrote_def

lemma client_run_simps [simp]:
  "client_run c [] = c" "client_run c (e # evs) = client_run (client_step c e) evs"
  by (simp_all add: client_run_def)

text \<open>A fact that every step keeps holds after every run.\<close>

lemma client_run_invariant:
  assumes "\<And>c e. P c \<Longrightarrow> P (client_step c e)" and "P c"
  shows "P (client_run c evs)"
  using assms(2) by (induction evs arbitrary: c) (simp_all add: assms(1))

section \<open>What the events do to the table of requests\<close>

fun event_ops :: "s2c_client \<Rightarrow> client_event \<Rightarrow> inflight_op list" where
  "event_ops c (InRead (Ok m)) =
     (if drain_in c = InReading \<and> running c \<and> msg_error m = None then [Respond m] else [])"
| "event_ops c (InRead (Err e)) = (if drain_in c = InReading then [FailAll (ClientIo e)] else [])"
| "event_ops c (CallerAdd cid) = [Add cid]"
| "event_ops c (CallerDiscard cid) = [Discard cid]"
| "event_ops c _ = []"

lemma inflight_client_step:
  "inflight (client_step c e) = foldl inflight_step (inflight c) (event_ops c e)"
  by (cases "(c, e)" rule: event_ops.cases)
    (auto simp: drain_defs split: option.splits in_task.splits out_task.splits list.splits result.splits)

lemma client_run_inflight_inv:
  "inflight_inv (inflight c) \<Longrightarrow> inflight_inv (inflight (client_run c evs))"
  by (rule client_run_invariant) (simp_all add: inflight_client_step flight.run_good)

text \<open>
  The channel of a call belongs to its correlation id: only a response with that id is ever
  delivered to it.
\<close>

definition owned :: "string \<Rightarrow> nat \<Rightarrow> inflight_requests \<Rightarrow> bool" where
  "owned cid rx t = (rx < next_oneshot t \<and> (\<forall>k. (k, rx) \<in> set (requests t) \<longrightarrow> k = cid))"

lemma owned_add: "inflight_inv t \<Longrightarrow> inflight_add t cid = (rx, t') \<Longrightarrow> owned cid rx t'"
  by (auto simp: owned_def inflight_add_def Let_def AList.delete_eq dest: inflight_lt)

lemma owned_step:
  assumes "owned cid rx t"
  shows "owned cid rx (inflight_step t op)"
  using assms
  by (cases op)
    (auto simp: owned_def inflight_add_def inflight_respond_def inflight_discard_def fail_all_def
      inflight_clear_def settle_all_def Let_def AList.delete_eq split: option.splits)

lemma owned_run: "owned cid rx t \<Longrightarrow> owned cid rx (foldl inflight_step t ops)"
  by (induction ops arbitrary: t) (simp_all add: owned_step)

lemma delivered_step:
  assumes "owned cid rx t" and "oneshots (inflight_step t op) rx = Delivered (Ok m)"
  shows "oneshots t rx = Delivered (Ok m) \<or> op = Respond m \<and> msg_correlation_id m = cid"
  using assms
  by (cases op)
    (auto simp: owned_def inflight_add_def inflight_respond_def inflight_discard_def fail_all_def
      inflight_clear_def drop_sender_def settle_all_oneshots Let_def
      split: option.splits if_splits dest: map_of_SomeD)

lemma event_ops_cases: "event_ops c e = [] \<or> (\<exists>op. event_ops c e = [op])"
  by (cases "(c, e)" rule: event_ops.cases) simp_all

lemma event_ops_respond:
  "event_ops c e = [Respond m] \<Longrightarrow> e = InRead (Ok m) \<and> msg_error m = None"
  by (cases "(c, e)" rule: event_ops.cases) (auto split: if_splits)

lemma delivered_origin:
  assumes "owned cid rx (inflight c)"
    and "oneshots (inflight (client_run c evs)) rx = Delivered (Ok m)"
  shows "oneshots (inflight c) rx = Delivered (Ok m) \<or>
         InRead (Ok m) \<in> set evs \<and> msg_correlation_id m = cid \<and> msg_error m = None"
  using assms
proof (induction evs arbitrary: c)
  case (Cons e evs)
  have own: "owned cid rx (inflight (client_step c e))"
    using Cons.prems(1) by (simp add: inflight_client_step owned_run)
  have "oneshots (inflight c) rx = Delivered (Ok m) \<or>
      e = InRead (Ok m) \<and> msg_correlation_id m = cid \<and> msg_error m = None"
    if "oneshots (inflight (client_step c e)) rx = Delivered (Ok m)"
    using event_ops_cases [of c e]
  proof
    assume "event_ops c e = []"
    with that show ?thesis by (simp add: inflight_client_step)
  next
    assume "\<exists>op. event_ops c e = [op]"
    then obtain op where op: "event_ops c e = [op]" ..
    with that have "oneshots (inflight_step (inflight c) op) rx = Delivered (Ok m)"
      by (simp add: inflight_client_step)
    with delivered_step [OF Cons.prems(1)] op event_ops_respond [of c e m] show ?thesis by metis
  qed
  then show ?case using Cons.IH [OF own] Cons.prems(2) by auto
qed simp

lemma send_and_await_response_ok:
  assumes "inflight_inv (inflight c)"
    and "send_and_await_response c cid payload evs1 evs2 = Some (Ok m, c')"
  shows "InRead (Ok m) \<in> set (evs1 @ evs2) \<and> msg_correlation_id m = cid \<and> msg_error m = None"
proof -
  obtain rx t where add: "inflight_add (inflight c) cid = (rx, t)" by fastforce
  define c1 where "c1 = client_run (c\<lparr>inflight := t\<rparr>) evs1"
  define c2 where "c2 = client_run (c1\<lparr>out_channel := out_channel c1 @ [payload]\<rparr>) evs2"
  have own: "owned cid rx t" using owned_add [OF assms(1) add] .
  then have own1: "owned cid rx (inflight c1)"
    unfolding c1_def
    by (intro client_run_invariant [where P = "\<lambda>c. owned cid rx (inflight c)"])
      (simp_all add: inflight_client_step owned_run)
  have start: "oneshots t rx = Pending" using add by (auto simp: inflight_add_def Let_def)
  have "oneshots (inflight c2) rx = Delivered (Ok m)"
    using assms(2) add
    by (auto simp: send_and_await_response_def Let_def c1_def [symmetric] c2_def [symmetric]
        split: if_splits oneshot.splits result.splits)
  then have "oneshots (inflight c1) rx = Delivered (Ok m) \<or>
      InRead (Ok m) \<in> set evs2 \<and> msg_correlation_id m = cid \<and> msg_error m = None"
    unfolding c2_def
    using delivered_origin [of cid rx "c1\<lparr>out_channel := out_channel c1 @ [payload]\<rparr>" evs2 m] own1
    by simp
  moreover have "InRead (Ok m) \<in> set evs1 \<and> msg_correlation_id m = cid \<and> msg_error m = None"
    if "oneshots (inflight c1) rx = Delivered (Ok m)"
    using delivered_origin [of cid rx "c\<lparr>inflight := t\<rparr>" evs1 m] that own start
    unfolding c1_def by simp
  ultimately show ?thesis by auto
qed

section \<open>Cancellation\<close>

text \<open>
  Nothing un-cancels a token, revives an ended task or leaves \<open>NotConnected\<close>; the three
  facts together are kept by every event.
\<close>

definition disconnected :: "s2c_client \<Rightarrow> bool" where
  "disconnected c = (cancelled c \<and> client_load c = NotConnected)"

lemma cancelled_step: "cancelled c \<Longrightarrow> cancelled (client_step c e)"
  by (cases e) (auto simp: drain_defs split: option.splits in_task.splits out_task.splits list.splits result.splits)

lemma not_connected_step: "client_load c = NotConnected \<Longrightarrow> client_load (client_step c e) = NotConnected"
  by (cases e) (auto simp: drain_defs split: option.splits in_task.splits out_task.splits list.splits result.splits)

lemma disconnected_run: "disconnected c \<Longrightarrow> disconnected (client_run c evs)"
  by (rule client_run_invariant) (simp_all add: disconnected_def cancelled_step not_connected_step)

lemma cancelled_run: "cancelled c \<Longrightarrow> cancelled (client_run c evs)"
  by (rule client_run_invariant) (simp_all add: cancelled_step)

lemma tracker_closed_run [simp]: "tracker_closed (client_run c evs) = tracker_closed c"
proof (induction evs arbitrary: c)
  case (Cons e evs)
  have "tracker_closed (client_step c e) = tracker_closed c"
    by (cases e) (auto simp: drain_defs split: option.splits in_task.splits out_task.splits list.splits result.splits)
  with Cons show ?case by simp
qed simp

text \<open>When nobody reads any more, no channel is ever delivered to.\<close>

definition reader_gone :: "s2c_client \<Rightarrow> bool" where
  "reader_gone c = (drain_in c = InEnded \<or> drain_in c = InFailed)"

definition undelivered :: "nat \<Rightarrow> s2c_client \<Rightarrow> bool" where
  "undelivered rx c = (reader_gone c \<and> (\<forall>v. oneshots (inflight c) rx \<noteq> Delivered v))"

lemma reader_gone_step: "reader_gone c \<Longrightarrow> reader_gone (client_step c e)"
  by (cases e) (auto simp: reader_gone_def drain_defs split: in_task.splits out_task.splits list.splits result.splits)

lemma undelivered_step:
  assumes "undelivered rx c"
  shows "undelivered rx (client_step c e)"
proof -
  have gone: "reader_gone c" using assms by (simp add: undelivered_def)
  then have "event_ops c e = [] \<or> (\<exists>cid. event_ops c e = [Add cid]) \<or>
      (\<exists>cid. event_ops c e = [Discard cid])"
    by (cases "(c, e)" rule: event_ops.cases) (auto simp: reader_gone_def)
  then show ?thesis
    using assms reader_gone_step [OF gone, of e]
    by (auto simp: undelivered_def inflight_client_step inflight_add_def inflight_discard_def
        drop_sender_def Let_def split: option.splits if_splits)
qed

lemma undelivered_run: "undelivered rx c \<Longrightarrow> undelivered rx (client_run c evs)"
  by (rule client_run_invariant) (simp_all add: undelivered_step)

lemma send_without_reader:
  assumes "reader_gone c" and "send_and_await_response c cid payload evs1 evs2 = Some (r, c')"
  shows "\<not> is_ok r"
proof -
  obtain rx t where add: "inflight_add (inflight c) cid = (rx, t)" by fastforce
  define c1 where "c1 = client_run (c\<lparr>inflight := t\<rparr>) evs1"
  define c2 where "c2 = client_run (c1\<lparr>out_channel := out_channel c1 @ [payload]\<rparr>) evs2"
  have "undelivered rx (c\<lparr>inflight := t\<rparr>)"
    using assms(1) add by (auto simp: undelivered_def reader_gone_def inflight_add_def Let_def)
  then have "undelivered rx c1" unfolding c1_def by (rule undelivered_run)
  then have "undelivered rx (c1\<lparr>out_channel := out_channel c1 @ [payload]\<rparr>)"
    by (simp add: undelivered_def reader_gone_def)
  then have "undelivered rx c2" unfolding c2_def by (rule undelivered_run)
  then show ?thesis
    using assms(2) add
    by (auto simp: send_and_await_response_def Let_def c1_def [symmetric] c2_def [symmetric]
        undelivered_def split: if_splits oneshot.splits result.splits)
qed

lemma send_frame:
  assumes "send_and_await_response c cid payload evs1 evs2 = Some (r, c')"
  shows "tracker_closed c' = tracker_closed c" and "cancelled c \<Longrightarrow> cancelled c'"
  using assms cancelled_run
  by (auto simp: send_and_await_response_def Let_def split: prod.splits if_splits oneshot.splits result.splits)

lemma send_without_tasks:
  assumes "tasks_ended c" and "send_and_await_response c cid payload evs1 evs2 = Some (r, c')"
    and "cancelled c"
  shows "\<not> is_ok r \<and> cancelled c' \<and> tracker_closed c' = tracker_closed c"
  using send_without_reader [OF _ assms(2)] send_frame [OF assms(2)] assms(1,3)
  by (simp add: reader_gone_def tasks_ended_def)

section \<open>The stages of \<open>connect\<close>\<close>

text \<open>
  A \<open>connect\<close> that does something: the client once earlier tasks were waited for, and the
  client when the tasks of the new connection have been started.
\<close>

definition connect_drained :: "s2c_client \<Rightarrow> connect_env \<Rightarrow> s2c_client" where
  "connect_drained c env =
     (if \<not> tracker_closed c then client_run (c\<lparr>tracker_closed := True\<rparr>) (ce_wait env) else c)"

definition connect_spawned :: "s2c_client \<Rightarrow> connect_env \<Rightarrow> s2c_client" where
  "connect_spawned c env =
     spawn_drain_out (spawn_drain_in (client_store Connected ((connect_drained c env)\<lparr>tracker_closed := False\<rparr>)))"

lemma client_connect_eq:
  assumes "client_load c = NotConnected"
  shows "client_connect codec c env =
    (if \<not> tracker_closed c \<and> \<not> tasks_ended (connect_drained c env) then None
     else case ce_tcp env of
         TcpElapsed \<Rightarrow> Some (Return (Err ConnectTimeout, (connect_drained c env)\<lparr>tracker_closed := False\<rparr>))
       | TcpFailed e \<Rightarrow>
           Some (Return (Err (ClientIo (net_io e)), (connect_drained c env)\<lparr>tracker_closed := False\<rparr>))
       | TcpConnected \<Rightarrow>
           (case client_handshake codec (connect_spawned c env) (ce_uuid env) (ce_full env) (ce_response env) of
              None \<Rightarrow> None
            | Some (Panic m) \<Rightarrow> Some (Panic m)
            | Some (Return (Ok handshake, c4)) \<Rightarrow> Some (Return (Ok (), client_store Ready c4))
            | Some (Return (Err e, c4)) \<Rightarrow>
                (let c5 = client_store NotConnected c4 in
                 if tracker_closed c5 then Some (Return (Err e, c5))
                 else (let c6 = client_run (c5\<lparr>tracker_closed := True, cancelled := True\<rparr>) (ce_close env) in
                       if tasks_ended c6 then Some (Return (Err e, c6)) else None))))"
  unfolding client_connect_def connect_spawned_def
  by (cases "ce_tcp env") (simp_all add: assms Let_def connect_drained_def [symmetric])

section \<open>Properties\<close>

text \<open>
  C17: \<open>send\<close> never returns somebody else's answer. If it succeeds, the message it returns was
  read from the connection during the call, carries the correlation id of the request and no
  error; in any other state than \<open>Connected\<close> or \<open>Ready\<close> it fails without registering or
  queueing anything.
\<close>

theorem send_returns_own_response:
  assumes "inflight_inv (inflight c)"
    and "client_send c cid payload evs1 evs2 = Some (r, c')"
  shows "(case r of
            Ok m \<Rightarrow> InRead (Ok m) \<in> set (evs1 @ evs2) \<and> msg_correlation_id m = cid \<and> msg_error m = None
          | Err e \<Rightarrow> True) \<and>
         (\<not> running c \<longrightarrow> \<not> is_ok r \<and> c' = c)"
proof -
  have "InRead (Ok m) \<in> set (evs1 @ evs2) \<and> msg_correlation_id m = cid \<and> msg_error m = None"
    if "r = Ok m" for m
  proof -
    from that assms(2) have "send_and_await_response c cid payload evs1 evs2 = Some (Ok m, c')"
      by (simp add: client_send_def split: if_splits)
    then show ?thesis by (rule send_and_await_response_ok [OF assms(1)])
  qed
  moreover have "\<not> is_ok r \<and> c' = c" if "\<not> running c"
    using that assms(2) by (cases "client_load c") (auto simp: running_def client_send_def)
  ultimately show ?thesis by (cases r) auto
qed

definition example_context :: context_t where
  "example_context =
     context_new ''g'' \<lparr>node_id = ''n1'', node_address = ''10.0.0.1'', node_port = 9000, node_az = ''a''\<rparr> False"

definition example_client :: s2c_client where
  "example_client =
     (fresh_client options_default example_context)\<lparr>client_cell := 2, drain_in := InReading, drain_out := OutReceiving\<rparr>"

theorem send_returns_own_response_witness:
  "case client_send example_client ''x'' [1] [] [OutStep, OutWrote (Ok ()), InRead (Ok (example_response ''x''))] of
     Some (r, _) \<Rightarrow> r = Ok (example_response ''x'') \<and> msg_correlation_id (example_response ''x'') = ''x''
   | None \<Rightarrow> False"
proof -
  let ?evs = "[OutStep, OutWrote (Ok ()), InRead (Ok (example_response ''x''))]"
  have run: "client_load example_client = Ready" "running example_client"
    by (simp_all add: example_client_def client_load_def load_client_state_def running_def)
  have "\<exists>c'. client_send example_client ''x'' [1] [] ?evs = Some (Ok (example_response ''x''), c')"
    by (simp add: client_send_def run send_and_await_response_def example_client_def fresh_client_simps
        inflight_add_def inflight_new_def drain_defs running_def client_load_def load_client_state_def
        options_default_def network_default_def example_response_def inflight_respond_def Let_def)
  then obtain c' where c': "client_send example_client ''x'' [1] [] ?evs = Some (Ok (example_response ''x''), c')" ..
  have inv: "inflight_inv (inflight example_client)"
    by (simp add: example_client_def fresh_client_simps inflight_inv_new)
  show ?thesis using send_returns_own_response [OF inv c'] c' by simp
qed

text \<open>
  C18: a successful \<open>connect\<close> of an unconnected client leaves it \<open>Ready\<close>, and the peer's
  handshake, answering this very attempt, was read during the call.
\<close>

theorem connect_requires_handshake:
  assumes "inflight_inv (inflight c)" and "client_load c = NotConnected"
    and "client_connect codec c env = Some (Return (Ok (), c'))"
  shows "client_load c' = Ready \<and>
         (\<exists>m h. InRead (Ok m) \<in> set (ce_full env @ ce_response env) \<and>
                msg_correlation_id m = ce_uuid env \<and> msg_body m = Some (Handshake h))"
proof -
  define c1 where "c1 = connect_drained c env"
  define c3 where "c3 = connect_spawned c env"
  note eq = client_connect_eq [OF assms(2), of codec env, folded c1_def c3_def]
  have "inflight_inv (inflight c1)"
    unfolding c1_def connect_drained_def
    using assms(1) client_run_inflight_inv [of "c\<lparr>tracker_closed := True\<rparr>"] by simp
  then have inv3: "inflight_inv (inflight c3)"
    by (simp add: c3_def c1_def connect_spawned_def spawn_drain_in_def spawn_drain_out_def)
  obtain h c4 where hs: "client_handshake codec c3 (ce_uuid env) (ce_full env) (ce_response env) =
      Some (Return (Ok h, c4))" and c': "c' = client_store Ready c4"
    using assms(3)
    by (auto simp: eq Let_def
        split: if_splits tcp_outcome.splits option.splits exec.splits result.splits prod.splits)
  then obtain m where snd_m: "send_and_await_response c3 (ce_uuid env)
        (encode_message codec (handshake_message c3 (ce_uuid env))) (ce_full env) (ce_response env) =
        Some (Ok m, c4)" and body: "msg_body m = Some (Handshake h)"
    by (auto simp: client_handshake_def split: option.splits result.splits prod.splits body.splits)
  show ?thesis using send_and_await_response_ok [OF inv3 snd_m] body c' by auto
qed

definition example_connect :: connect_env where
  "example_connect =
     \<lparr>ce_wait = [], ce_tcp = TcpConnected, ce_uuid = ''u'', ce_full = [],
      ce_response = [InStep, OutStep, OutStep, OutWrote (Ok ()),
        InRead (Ok (handshake_message (fresh_client options_default example_context) ''u''))],
      ce_close = [InCancelled, OutCancelled]\<rparr>"

lemmas client_eval =
  client_connect_def client_handshake_def handshake_message_def send_and_await_response_def
  fresh_client_simps inflight_add_def inflight_new_def inflight_respond_def drain_defs running_def
  client_load_def client_store_def load_client_state_def spawn_drain_in_def spawn_drain_out_def
  tasks_ended_def options_default_def network_default_def Let_def

theorem connect_requires_handshake_witness:
  "case client_connect example_codec (fresh_client options_default example_context) example_connect of
     Some (Return (Ok _, c')) \<Rightarrow> client_load c' = Ready
   | _ \<Rightarrow> False"
proof -
  let ?c = "fresh_client options_default example_context"
  have "\<exists>c'. client_connect example_codec ?c example_connect = Some (Return (Ok (), c'))"
    by (simp add: client_eval example_connect_def)
  then obtain c' where c': "client_connect example_codec ?c example_connect = Some (Return (Ok (), c'))" ..
  have "inflight_inv (inflight ?c)" "client_load ?c = NotConnected"
    by (simp_all add: fresh_client_simps inflight_inv_new client_load_def load_client_state_def)
  from connect_requires_handshake [OF this c'] c' show ?thesis by simp
qed

text \<open>
  C39: a lost connection is lost for good. Once the token of a client is cancelled (a failed
  read or a failed handshake does that), no later \<open>connect\<close> ever succeeds, whatever the
  network does: the call fails or keeps waiting, and the client stays unconnected.
\<close>

theorem no_reconnect_after_cancel:
  assumes "cancelled c" and "client_load c = NotConnected"
    and "client_connect codec c env = Some res"
  shows "\<exists>e c'. res = Return (Err e, c') \<and> cancelled c' \<and> client_load c' = NotConnected"
proof -
  define c1 where "c1 = connect_drained c env"
  define c3 where "c3 = connect_spawned c env"
  note eq = client_connect_eq [OF assms(2), of codec env, folded c1_def c3_def]
  have "disconnected c1"
    unfolding c1_def connect_drained_def
    using assms(1,2) by (auto simp: disconnected_def intro!: disconnected_run [unfolded disconnected_def])
  then have c1: "cancelled c1" "client_load c1 = NotConnected" by (simp_all add: disconnected_def)
  then have c3: "tasks_ended c3" "cancelled c3" "\<not> tracker_closed c3"
    by (simp_all add: c3_def connect_spawned_def c1_def spawn_drain_in_def spawn_drain_out_def tasks_ended_def)
  have no_hs: "\<exists>e. r = Err e \<and> cancelled c4 \<and> \<not> tracker_closed c4"
    if "send_and_await_response c3 cid p evs1 evs2 = Some (r, c4)" for cid p evs1 evs2 r c4
    using send_without_tasks [OF c3(1) that c3(2)] c3(3) by (cases r) auto
  have hs: "\<exists>e c4. hres = Return (Err e, c4) \<and> cancelled c4 \<and> \<not> tracker_closed c4"
    if "client_handshake codec c3 uuid evs1 evs2 = Some hres" for uuid evs1 evs2 hres
    using that no_hs
    by (fastforce simp: client_handshake_def split: option.splits result.splits prod.splits)
  have final: "cancelled (client_run (client_store NotConnected c4\<lparr>tracker_closed := True, cancelled := True\<rparr>) evs) \<and>
      client_load (client_run (client_store NotConnected c4\<lparr>tracker_closed := True, cancelled := True\<rparr>) evs) = NotConnected"
    for c4 evs
    using disconnected_run [of "client_store NotConnected c4\<lparr>tracker_closed := True, cancelled := True\<rparr>" evs]
    by (simp add: disconnected_def)
  show ?thesis
  proof (cases "ce_tcp env")
    case TcpConnected
    with assms(3) obtain hres where h: "client_handshake codec c3 (ce_uuid env) (ce_full env) (ce_response env) = Some hres"
      by (auto simp: eq split: if_splits option.splits)
    with hs obtain e c4 where "hres = Return (Err e, c4)" "\<not> tracker_closed c4" by blast
    with TcpConnected h assms(3) final show ?thesis by (auto simp: eq Let_def split: if_splits)
  qed (use assms(3) c1 in \<open>auto simp: eq split: if_splits\<close>)
qed

theorem no_reconnect_after_cancel_witness:
  "case client_connect example_codec
          (client_run example_client [InRead (Err (NetIo UnexpectedEof ''early eof'')), InStep])
          (example_connect\<lparr>ce_wait := [OutCancelled]\<rparr>) of
     Some (Return (Err e, c')) \<Rightarrow> client_load c' = NotConnected
   | _ \<Rightarrow> False"
proof -
  let ?c = "client_run example_client [InRead (Err (NetIo UnexpectedEof ''early eof'')), InStep]"
  let ?env = "example_connect\<lparr>ce_wait := [OutCancelled]\<rparr>"
  have h: "cancelled ?c" "client_load ?c = NotConnected"
    by (simp_all add: example_client_def drain_in_read_def drain_in_failed_def)
  have "\<exists>res. client_connect example_codec ?c ?env = Some res"
    by (simp add: client_eval example_connect_def example_client_def fail_all_def settle_all_def)
  then obtain res where res: "client_connect example_codec ?c ?env = Some res" ..
  from no_reconnect_after_cancel [OF h res] res show ?thesis by auto
qed

text \<open>The payloads on their way out, in order: written, being written, queued.\<close>

definition out_stream :: "s2c_client \<Rightarrow> bytes list" where
  "out_stream c =
     written c @ (case drain_out c of OutWriting m \<Rightarrow> [m] | _ \<Rightarrow> []) @ out_channel c"

text \<open>The payloads that callers got into the channel, which a full channel makes wait.\<close>

fun accepted_payloads :: "s2c_client \<Rightarrow> client_event list \<Rightarrow> bytes list" where
  "accepted_payloads c [] = []"
| "accepted_payloads c (e # evs) =
     (case e of
        CallerEnqueue p \<Rightarrow> if length (out_channel c) < client_capacity c then [p] else []
      | _ \<Rightarrow> []) @ accepted_payloads (client_step c e) evs"

lemma out_stream_step: "subseq (out_stream (client_step c e)) (out_stream c @ accepted_payloads c [e])"
  by (cases e)
    (auto simp: out_stream_def drain_defs client_store_def subseq_append' list_emb_append2
      intro: list_emb_append_mono
      split: in_task.splits out_task.splits list.splits option.splits result.splits)

lemma accepted_Cons: "accepted_payloads c (e # evs) = accepted_payloads c [e] @ accepted_payloads (client_step c e) evs"
  by simp

text \<open>A connection that works: no read or write fails, and the token is not cancelled.\<close>

definition undisturbed :: "s2c_client \<Rightarrow> bool" where
  "undisturbed c = (running c \<and> \<not> cancelled c \<and> drain_in c \<noteq> InFailed)"

fun io_error_event :: "client_event \<Rightarrow> bool" where
  "io_error_event (InRead (Err e)) = True"
| "io_error_event (OutWrote (Err e)) = True"
| "io_error_event _ = False"

lemma undisturbed_step:
  assumes "undisturbed c" and "\<not> io_error_event e"
  shows "undisturbed (client_step c e)"
    and "out_stream (client_step c e) = out_stream c @ accepted_payloads c [e]"
  using assms
  by (cases e rule: io_error_event.cases;
      auto simp: undisturbed_def running_def out_stream_def drain_defs
        split: in_task.splits out_task.splits list.splits option.splits result.splits)+

text \<open>
  C21: requests leave in the order in which they were queued, and none is lost while the
  connection works. As long as no read or write fails, what \<open>drain_out\<close> has written, is
  writing or has still to receive is exactly what was there before and what callers got into
  the channel since, in that order and each once, through all throttling and scheduling.
  When something fails or is cancelled payloads may be lost, but what is left is still a
  subsequence: none is duplicated or overtaken.
\<close>

theorem client_output_in_order:
  "subseq (out_stream (client_run c evs)) (out_stream c @ accepted_payloads c evs) \<and>
   (running c \<and> \<not> cancelled c \<and> drain_in c \<noteq> InFailed \<and> list_all (\<lambda>e. \<not> io_error_event e) evs \<longrightarrow>
      out_stream (client_run c evs) = out_stream c @ accepted_payloads c evs)"
proof
  show "subseq (out_stream (client_run c evs)) (out_stream c @ accepted_payloads c evs)"
  proof (induction evs arbitrary: c)
    case (Cons e evs)
    have "subseq (out_stream (client_step c e) @ accepted_payloads (client_step c e) evs)
        ((out_stream c @ accepted_payloads c [e]) @ accepted_payloads (client_step c e) evs)"
      by (intro list_emb_append_mono out_stream_step) simp
    then show ?case
      using Cons.IH [of "client_step c e"] subseq_order.order_trans
      unfolding accepted_Cons [of c e evs] client_run_simps append_assoc by blast
  qed simp
  have "undisturbed c \<Longrightarrow> list_all (\<lambda>e. \<not> io_error_event e) evs \<Longrightarrow>
      out_stream (client_run c evs) = out_stream c @ accepted_payloads c evs"
    by (induction evs arbitrary: c) (simp_all add: undisturbed_step)
  then show "running c \<and> \<not> cancelled c \<and> drain_in c \<noteq> InFailed \<and> list_all (\<lambda>e. \<not> io_error_event e) evs \<longrightarrow>
      out_stream (client_run c evs) = out_stream c @ accepted_payloads c evs"
    by (simp add: undisturbed_def)
qed

theorem client_output_in_order_witness:
  "out_stream (client_run example_client
      [CallerEnqueue [1], OutStep, CallerEnqueue [2], OutWrote (Ok ()), OutStep, OutStep]) = [[1], [2]]"
  using client_output_in_order [of example_client
      "[CallerEnqueue [1], OutStep, CallerEnqueue [2], OutWrote (Ok ()), OutStep, OutStep]"]
  by (simp add: example_client_def fresh_client_simps running_def client_load_def load_client_state_def
      options_default_def network_default_def drain_defs out_stream_def)

text \<open>
  An error reply is never delivered. While the peer answers only with error messages
  (\<open>NotLeaderError\<close>, \<open>SlowDownError\<close>, ...), a request that was queued does not fail: it waits
  and ends in \<open>Timeout\<close>.
\<close>

theorem error_replies_time_out:
  assumes "running c" and "inflight_inv (inflight c)"
    and "length (out_channel c) < client_capacity c"
    and "\<forall>e \<in> set evs. (\<exists>m. e = InRead (Ok m) \<and> msg_error m \<noteq> None) \<or> e = InStep"
  shows "\<exists>c'. client_send c cid payload [] evs = Some (Err Timeout, c')"
proof -
  obtain rx t where add: "inflight_add (inflight c) cid = (rx, t)" by fastforce
  have keep: "inflight (client_run d evs) = inflight d" for d
    using assms(4)
  proof (induction evs arbitrary: d)
    case (Cons e evs)
    then have "event_ops d e = []" by auto
    then have "inflight (client_step d e) = inflight d" by (simp add: inflight_client_step)
    with Cons show ?case by simp
  qed simp
  have "oneshots t rx = Pending" using add by (auto simp: inflight_add_def Let_def)
  moreover have "client_load c \<noteq> Closed" "client_load c \<noteq> NotConnected"
    using assms(1) by (auto simp: running_def)
  ultimately show ?thesis
    using add assms(3) by (simp add: client_send_def send_and_await_response_def Let_def keep)
qed

theorem error_replies_time_out_witness:
  "\<exists>c'. client_send example_client ''x'' [1] []
      [InRead (Ok \<lparr>msg_correlation_id = ''x'', msg_body = None, msg_error = Some NotLeaderError\<rparr>), InStep] =
    Some (Err Timeout, c')"
  by (rule error_replies_time_out)
    (simp_all add: example_client_def fresh_client_simps inflight_inv_new running_def client_load_def
      load_client_state_def options_default_def network_default_def)

text \<open>
  \<open>close\<close> leaves the client \<open>Closed\<close>, provided none of its tasks has met or meets an I/O error
  before it ends.
\<close>

theorem close_is_final_without_errors:
  assumes "client_close c evs = Some c'"
    and "\<forall>e \<in> set evs. (\<forall>n. e \<noteq> InRead (Err n)) \<and> (\<forall>i. e \<noteq> OutWrote (Err i))"
    and "drain_in c \<noteq> InFailed"
  shows "client_load c' = Closed"
proof -
  have step: "client_load (client_step d e) = client_load d \<and> drain_in (client_step d e) \<noteq> InFailed"
    if "(\<forall>n. e \<noteq> InRead (Err n)) \<and> (\<forall>i. e \<noteq> OutWrote (Err i))" "drain_in d \<noteq> InFailed" for d e
    using that
    by (cases e) (auto simp: drain_defs split: option.splits in_task.splits out_task.splits list.splits result.splits)
  have "client_load (client_run d evs) = client_load d" if "drain_in d \<noteq> InFailed" for d
    using assms(2) that by (induction evs arbitrary: d) (simp_all add: step)
  then show ?thesis
    using assms(1,3) by (auto simp: client_close_def Let_def split: if_splits)
qed

theorem close_is_final_without_errors_witness:
  "case client_close example_client [InCancelled, OutCancelled] of
     Some c' \<Rightarrow> client_load c' = Closed | None \<Rightarrow> False"
proof -
  have "\<exists>c'. client_close example_client [InCancelled, OutCancelled] = Some c'"
    by (simp add: client_close_def example_client_def tasks_ended_def fresh_client_simps client_load_def
        load_client_state_def Let_def)
  then obtain c' where c': "client_close example_client [InCancelled, OutCancelled] = Some c'" ..
  have "drain_in example_client \<noteq> InFailed" by (simp add: example_client_def)
  with close_is_final_without_errors [OF c'] c' show ?thesis by simp
qed

text \<open>
  The proviso is needed: a read error that arrives while \<open>close\<close> waits for the tasks stores
  \<open>NotConnected\<close> over \<open>Closed\<close>.
\<close>

lemma close_undone_by_read_error:
  "case client_close example_client [InRead (Err (NetIo ConnectionReset ''reset'')), InStep, OutCancelled] of
     Some c' \<Rightarrow> client_load c' = NotConnected | None \<Rightarrow> False"
  by (simp add: client_close_def example_client_def tasks_ended_def fresh_client_simps client_load_def
      load_client_state_def client_store_def drain_in_read_def drain_in_failed_def Let_def)

text \<open>
  The two halves of what follows a failed read leave a gap. A request that is sent when the
  pending ones have been failed but the state is still \<open>Ready\<close> is accepted and queued, but it can
  only fail, usually after its whole timeout: nobody reads any more.
\<close>

theorem request_after_failed_read_fails:
  assumes "reader_gone c" and "client_send c cid payload evs1 evs2 = Some (r, c')"
  shows "\<not> is_ok r"
  using assms send_without_reader [OF assms(1)]
  by (auto simp: client_send_def split: if_splits)

theorem request_after_failed_read_fails_witness:
  "\<exists>c'. client_send (client_run example_client [InRead (Err (NetIo UnexpectedEof ''early eof''))]) ''x'' [1] []
          [InStep] = Some (Err Timeout, c') \<and>
     \<not> is_ok (Err Timeout :: (s2c_message, client_error) result)"
proof -
  let ?c = "client_run example_client [InRead (Err (NetIo UnexpectedEof ''early eof''))]"
  have gone: "reader_gone ?c" by (simp add: reader_gone_def example_client_def drain_in_read_def)
  have "\<exists>c'. client_send ?c ''x'' [1] [] [InStep] = Some (Err Timeout, c')"
    by (simp add: client_send_def client_eval example_client_def fail_all_def settle_all_def)
  with request_after_failed_read_fails [OF gone] show ?thesis by blast
qed

end
