(* ===== verification/S2c_Fsm.thy ===== *)
theory S2c_Fsm
  imports S2c_Log S2c_Sync_Queue S2c_Client
begin

text \<open>
  \<^verbatim>\<open>src/fsm.rs\<close>: the state machine of a node: joining a group, following, leading.

  What the awaits of the loops return is input: one \<open>recv_outcome\<close> per receive of the
  follower, one \<open>leader_input\<close> per iteration of the leader, one environment per call of the
  client. A loop that has used up its input is still waiting. Calls that may not return at
  all (they wait for the object store) have results of type \<open>option\<close>; \<open>exec\<close> marks the
  places where the source panics. The channels' senders, the server and the reader factory
  are only stored by \<open>new\<close> and are left out of the record.
\<close>

section \<open>State\<close>

datatype fsm_state = NOT_JOINED | FOLLOWER | LEADER | STOPPED

record envelope =
  env_message :: s2c_message
  env_node_identity :: node_identity

record fsm =
  fsm_state :: fsm_state
  fsm_options :: s2c_options
  fsm_client :: s2c_client
  sync_queue :: replicate_queue
  bucket :: string
  fsm_group :: string
  fsm_node_identity :: node_identity
  fsm_log :: s2c_log
  fsm_keys_resolver :: keys_resolver
  missed_heartbeats :: u32
  commit_index :: u64
  apply_index :: u64
  epoch :: u64
  followers :: "node_identity list"

definition fsm_new ::
  "string \<Rightarrow> s2c_client \<Rightarrow> s2c_options \<Rightarrow> node_identity \<Rightarrow> string \<Rightarrow> s2c_log \<Rightarrow> fsm" where
  "fsm_new grp client options ni bucket_name lg =
     \<lparr>fsm_state = NOT_JOINED, fsm_options = options, fsm_client = client,
      sync_queue = replicate_queue_new (ucast (max_batches_pending_for_apply options)),
      bucket = bucket_name, fsm_group = grp, fsm_node_identity = ni, fsm_log = lg,
      fsm_keys_resolver = keys_resolver_new grp, missed_heartbeats = 0, commit_index = 0,
      apply_index = 0, epoch = 0, followers = []\<rparr>"

section \<open>Following\<close>

datatype recv_outcome = Elapsed | Received envelope | ChannelClosed

text \<open>
  One iteration: whether the loop is left, the new state, and the reply that is handed to
  \<open>requests_tx.send\<close>. The send may wait for room in the channel, which only delays the next
  receive, and may fail when the receiving end is gone, which the source only logs; the state is
  the same either way, so a reply here is one that was handed over, not one that arrived.
\<close>

definition follower_reply :: "fsm \<Rightarrow> s2c_message \<Rightarrow> envelope" where
  "follower_reply self m = \<lparr>env_message = m, env_node_identity = fsm_node_identity self\<rparr>"

definition follower_step :: "fsm \<Rightarrow> recv_outcome \<Rightarrow> bool \<times> fsm \<times> envelope list" where
  "follower_step self ev =
     (case ev of
        Elapsed \<Rightarrow>
          (let self = self\<lparr>missed_heartbeats := missed_heartbeats self + 1\<rparr> in
           if max_missed_heartbeats (fsm_options self) \<le> missed_heartbeats self
           then (True, self\<lparr>fsm_state := NOT_JOINED\<rparr>, [])
           else (False, self, []))
      | Received msg \<Rightarrow>
          (case msg_body (env_message msg) of
             Some (ReplicateRequest req) \<Rightarrow>
               (let self = self\<lparr>missed_heartbeats := 0\<rparr>;
                    self = (if rr_commit_index req = last_received_index (sync_queue self) + 1
                            then self\<lparr>sync_queue := queue_put (sync_queue self) req\<rparr>
                            else self)
                in (False, self,
                    [follower_reply self
                       \<lparr>msg_correlation_id = msg_correlation_id (env_message msg),
                        msg_body = Some (ReplicateResponse (last_received_index (sync_queue self))),
                        msg_error = None\<rparr>]))
           | Some (StateRequest _) \<Rightarrow>
               (False, self,
                [follower_reply self
                   \<lparr>msg_correlation_id = msg_correlation_id (env_message msg),
                    msg_body = None, msg_error = Some NotLeaderError\<rparr>])
           | Some (Follow _) \<Rightarrow>
               (False, self,
                [follower_reply self
                   \<lparr>msg_correlation_id = msg_correlation_id (env_message msg),
                    msg_body = None, msg_error = Some NotLeaderError\<rparr>])
           | Some _ \<Rightarrow> (False, self, [])
           | None \<Rightarrow> (False, self, []))
      | ChannelClosed \<Rightarrow> (True, self, []))"

text \<open>The loop: whether it was left, the state, the replies, and the input not yet used.\<close>

fun follower_loop :: "fsm \<Rightarrow> recv_outcome list \<Rightarrow> bool \<times> fsm \<times> envelope list \<times> recv_outcome list" where
  "follower_loop self [] = (False, self, [], [])"
| "follower_loop self (ev # evs) =
     (case follower_step self ev of
        (True, self', out) \<Rightarrow> (True, self', out, evs)
      | (False, self', out) \<Rightarrow>
          (case follower_loop self' evs of
             (left, self'', out', rest) \<Rightarrow> (left, self'', out @ out', rest)))"

section \<open>Leading\<close>

text \<open>
  One iteration of the leader: what the two receives of \<open>next\<close> answer when its wait ends
  (\<open>None\<close> for one that is still pending, \<open>Some None\<close> for a closed channel) and which of them
  \<open>select!\<close> polls first, what \<open>try_recv\<close> then finds in the two channels, and what
  \<open>start.elapsed()\<close> is when it is compared with the flush interval. Durations are
  nanoseconds.
\<close>

record leader_input =
  li_local_recv :: "envelope option option"
  li_remote_recv :: "envelope option option"
  li_local_first :: bool
  li_local :: "envelope list"
  li_remote :: "envelope list"
  li_elapsed :: nat

definition fsm_next :: "bool \<Rightarrow> 'm option option \<Rightarrow> 'm option option \<Rightarrow> 'm option option" where
  "fsm_next local_first local_recv remote_recv =
     (if local_first
      then (case local_recv of Some m \<Rightarrow> Some m | None \<Rightarrow> remote_recv)
      else (case remote_recv of Some m \<Rightarrow> Some m | None \<Rightarrow> local_recv))"

definition leader_next :: "leader_input \<Rightarrow> recv_outcome" where
  "leader_next inp =
     (case fsm_next (li_local_first inp) (li_local_recv inp) (li_remote_recv inp) of
        None \<Rightarrow> Elapsed
      | Some None \<Rightarrow> ChannelClosed
      | Some (Some msg) \<Rightarrow> Received msg)"

definition flush_interval_nanos :: "s2c_options \<Rightarrow> nat" where
  "flush_interval_nanos options = unat (flush_interval_ms options) * 1000000"

text \<open>The longest wait for a message, \<open>elapsed\<close> after the last flush.\<close>

definition leader_remaining :: "s2c_options \<Rightarrow> nat \<Rightarrow> nat" where
  "leader_remaining options elapsed =
     (if elapsed \<le> flush_interval_nanos options then flush_interval_nanos options - elapsed else 0)"

definition leader_due :: "leader_input \<Rightarrow> envelope list" where
  "leader_due inp =
     (case leader_next inp of Received msg \<Rightarrow> [msg] | _ \<Rightarrow> []) @ li_local inp @ li_remote inp"

fun leader_collect ::
  "fsm \<Rightarrow> state_request list \<Rightarrow> envelope list \<Rightarrow> (fsm \<times> state_request list) exec" where
  "leader_collect self acc [] = Return (self, acc)"
| "leader_collect self acc (msg # due) =
     (case msg_body (env_message msg) of
        Some (StateRequest state_request) \<Rightarrow> leader_collect self (acc @ [state_request]) due
      | Some (Follow follow) \<Rightarrow>
          (case fo_node_identity follow of
             None \<Rightarrow> Panic ''Invalid follow request''
           | Some ni \<Rightarrow> leader_collect (self\<lparr>followers := followers self @ [ni]\<rparr>) acc due)
      | Some _ \<Rightarrow> leader_collect self acc due
      | None \<Rightarrow> leader_collect self acc due)"

definition leader_batch :: "prost_codec \<Rightarrow> state_request list \<Rightarrow> batch" where
  "leader_batch codec acc =
     \<lparr>batch_entries = map (\<lambda>state_request.
        (let ve = replicate (length (encode_state_request codec state_request)) 0;
             ve = encode_into codec ve (encode_state_request codec state_request)
         in \<lparr>entry_body = ve, entry_internal = False\<rparr>)) acc\<rparr>"

definition leader_step ::
  "('s, 'h) object_store \<Rightarrow> prost_codec \<Rightarrow> fsm \<Rightarrow> state_request list \<Rightarrow> 's \<Rightarrow> leader_input \<Rightarrow>
   (bool \<times> fsm \<times> state_request list \<times> 's) exec option" where
  "leader_step os codec self acc s inp =
     (case leader_next inp of
        ChannelClosed \<Rightarrow> Some (Return (True, self, acc, s))
      | _ \<Rightarrow>
          (case leader_collect self acc (leader_due inp) of
             Panic m \<Rightarrow> Some (Panic m)
           | Return (self, acc) \<Rightarrow>
               if flush_interval_nanos (fsm_options self) < li_elapsed inp \<or>
                  unat (batch_min_count (fsm_options self)) < length acc
               then (case append_log os (fsm_log self) (commit_index self)
                            (encode_batch codec (leader_batch codec acc)) s of
                       None \<Rightarrow> None
                     | Some (r, s') \<Rightarrow> Some (Return (False, self, [], s')))
               else Some (Return (False, self, acc, s))))"

fun leader_iterations ::
  "('s, 'h) object_store \<Rightarrow> prost_codec \<Rightarrow> fsm \<Rightarrow> state_request list \<Rightarrow> 's \<Rightarrow> leader_input list \<Rightarrow>
   (bool \<times> fsm \<times> state_request list \<times> 's \<times> leader_input list) exec option" where
  "leader_iterations os codec self acc s [] = Some (Return (False, self, acc, s, []))"
| "leader_iterations os codec self acc s (inp # inps) =
     (case leader_step os codec self acc s inp of
        None \<Rightarrow> None
      | Some (Panic m) \<Rightarrow> Some (Panic m)
      | Some (Return (left, self', acc', s')) \<Rightarrow>
          if left then Some (Return (True, self', acc', s', inps))
          else leader_iterations os codec self' acc' s' inps)"

definition leader_loop ::
  "('s, 'h) object_store \<Rightarrow> prost_codec \<Rightarrow> fsm \<Rightarrow> 's \<Rightarrow> leader_input list \<Rightarrow>
   (bool \<times> fsm \<times> state_request list \<times> 's \<times> leader_input list) exec option" where
  "leader_loop os codec self s inps = leader_iterations os codec self [] s inps"

section \<open>Finding and becoming the leader\<close>

definition parse_leader_state :: "prost_codec \<Rightarrow> bytes \<Rightarrow> leader_state exec" where
  "parse_leader_state codec bs =
     (case decode_log_entry codec bs of
        Err _ \<Rightarrow> Panic ''Invalid entry''
      | Ok entry \<Rightarrow>
          (case le_leader_state entry of
             None \<Rightarrow> Panic ''Invalid entry''
           | Some leader_state \<Rightarrow> Return leader_state))"

partial_function (option) discover_loop ::
  "('s, 'h) object_store \<Rightarrow> prost_codec \<Rightarrow> s2c_log \<Rightarrow> backoff_counter \<Rightarrow> 's \<Rightarrow>
   ((leader_state option, os_error) result exec \<times> 's) option" where
  "discover_loop os codec lg backoff s =
     (case get_head os lg s of
        (Panic m, s1) \<Rightarrow> Some (Panic m, s1)
      | (Return (Ok None), s1) \<Rightarrow> Some (Return (Ok None), s1)
      | (Return (Ok (Some head)), s1) \<Rightarrow>
          (case get_at os lg head s1 of
             None \<Rightarrow> None
           | Some (Ok bs, s2) \<Rightarrow>
               (case parse_leader_state codec bs of
                  Return leader_state \<Rightarrow> Some (Return (Ok (Some leader_state)), s2)
                | Panic m \<Rightarrow> Some (Panic m, s2))
           | Some (Err e, s2) \<Rightarrow>
               if is_transient e \<and> can_attempt backoff
               then discover_loop os codec lg (awaited backoff) s2
               else Some (Return (Err e), s2))
      | (Return (Err e), s1) \<Rightarrow>
          if is_transient e \<and> can_attempt backoff
          then discover_loop os codec lg (awaited backoff) s1
          else Some (Return (Err e), s1))"

definition discover_leader_state ::
  "('s, 'h) object_store \<Rightarrow> prost_codec \<Rightarrow> fsm \<Rightarrow> 's \<Rightarrow>
   ((leader_state option, os_error) result exec \<times> 's) option" where
  "discover_leader_state os codec self s =
     discover_loop os codec (fsm_log self) (backoff_new (retry (fsm_options self))) s"

definition leadership_target :: "fsm \<Rightarrow> u64 \<times> u64" where
  "leadership_target self =
     (if 0 < commit_index self then (commit_index self + 1, epoch self + 1) else (1, 1))"

definition leadership_entry :: "fsm \<Rightarrow> log_entry" where
  "leadership_entry self =
     (case leadership_target self of
        (ci, ep) \<Rightarrow>
          \<lparr>le_batch = Some \<lparr>batch_entries = []\<rparr>,
           le_leader_state = Some \<lparr>ls_epoch = ep, ls_commit_index = ci,
             ls_node_identity = Some (fsm_node_identity self), ls_followers = []\<rparr>\<rparr>)"

partial_function (option) attempt_loop ::
  "('s, 'h) object_store \<Rightarrow> fsm \<Rightarrow> u64 \<Rightarrow> u64 \<Rightarrow> bytes \<Rightarrow> backoff_counter \<Rightarrow> 's \<Rightarrow> (fsm \<times> 's) option" where
  "attempt_loop os self ci ep payload backoff s =
     (case append_log os (fsm_log self) ci payload s of
        None \<Rightarrow> None
      | Some (Ok _, s') \<Rightarrow>
          Some (self\<lparr>fsm_state := LEADER, commit_index := ci, epoch := ep\<rparr>, s')
      | Some (Err e, s') \<Rightarrow>
          (case e of
             AlreadyExists p \<Rightarrow> Some (self, s')
           | _ \<Rightarrow>
               if is_transient e
               then attempt_loop os self ci ep payload (awaited backoff) s'
               else Some (self\<lparr>fsm_state := STOPPED\<rparr>, s')))"

definition attempt_leadership ::
  "('s, 'h) object_store \<Rightarrow> prost_codec \<Rightarrow> fsm \<Rightarrow> 's \<Rightarrow> (fsm \<times> 's) option" where
  "attempt_leadership os codec self s =
     (case leadership_target self of
        (ci, ep) \<Rightarrow>
          attempt_loop os self ci ep (encode_log_entry codec (leadership_entry self))
            (backoff_new (to_unlimited (retry (fsm_options self)))) s)"

section \<open>Joining\<close>

text \<open>One environment per call of the client; running out of them is still waiting.\<close>

fun fsm_connect_loop ::
  "prost_codec \<Rightarrow> backoff_counter \<Rightarrow> s2c_client \<Rightarrow> connect_env list \<Rightarrow>
   ((unit, client_error) result \<times> s2c_client \<times> connect_env list) exec option" where
  "fsm_connect_loop codec backoff c [] = None"
| "fsm_connect_loop codec backoff c (env # envs) =
     (case client_connect codec c env of
        None \<Rightarrow> None
      | Some (Panic m) \<Rightarrow> Some (Panic m)
      | Some (Return (Ok _, c')) \<Rightarrow> Some (Return (Ok (), c', envs))
      | Some (Return (Err e, c')) \<Rightarrow>
          if can_attempt backoff
          then fsm_connect_loop codec (awaited backoff) c' envs
          else Some (Return (Err e, c', envs)))"

record follow_env =
  fe_uuid :: string
  fe_full :: "client_event list"
  fe_response :: "client_event list"

definition follow_message :: "fsm \<Rightarrow> string \<Rightarrow> s2c_message" where
  "follow_message self uuid =
     \<lparr>msg_correlation_id = uuid,
      msg_body = Some (Follow \<lparr>fo_apply_index = apply_index self,
        fo_node_identity = Some (fsm_node_identity self), fo_group_id = fsm_group self\<rparr>),
      msg_error = None\<rparr>"

fun fsm_follow_loop ::
  "prost_codec \<Rightarrow> fsm \<Rightarrow> backoff_counter \<Rightarrow> s2c_client \<Rightarrow> follow_env list \<Rightarrow>
   ((unit, client_error) result \<times> s2c_client \<times> follow_env list) option" where
  "fsm_follow_loop codec self backoff c [] = None"
| "fsm_follow_loop codec self backoff c (env # envs) =
     (case client_send c (fe_uuid env) (encode_message codec (follow_message self (fe_uuid env)))
             (fe_full env) (fe_response env) of
        None \<Rightarrow> None
      | Some (Ok _, c') \<Rightarrow> Some (Ok (), c', envs)
      | Some (Err e, c') \<Rightarrow>
          (case e of
             ClientIo n \<Rightarrow>
               if can_attempt backoff
               then fsm_follow_loop codec self (awaited backoff) c' envs
               else Some (Err e, c', envs)
           | _ \<Rightarrow> Some (Err e, c', envs)))"

text \<open>
  One iteration of \<open>join\<close>: whether the source returns from it, the node, the store and the
  environments that are left. \<open>join\<close> keeps going while the node has not joined; the branches
  that return leave it in \<open>NOT_JOINED\<close>.
\<close>

type_synonym 's join_round =
  "(bool \<times> fsm \<times> 's \<times> connect_env list \<times> follow_env list) exec option"

definition join_attempt ::
  "('s, 'h) object_store \<Rightarrow> prost_codec \<Rightarrow> fsm \<Rightarrow> 's \<Rightarrow> connect_env list \<Rightarrow> follow_env list \<Rightarrow>
   's join_round" where
  "join_attempt os codec self s cenvs fenvs =
     (case attempt_leadership os codec self s of
        None \<Rightarrow> None
      | Some (self', s') \<Rightarrow> Some (Return (False, self', s', cenvs, fenvs)))"

definition join_follow ::
  "('s, 'h) object_store \<Rightarrow> prost_codec \<Rightarrow> fsm \<Rightarrow> s2c_client \<Rightarrow> 's \<Rightarrow> connect_env list \<Rightarrow>
   follow_env list \<Rightarrow> 's join_round" where
  "join_follow os codec self c1 s cenvs fenvs =
     (case fsm_follow_loop codec self (backoff_new (retry (fsm_options self))) c1 fenvs of
        None \<Rightarrow> None
      | Some (Ok _, c2, fenvs1) \<Rightarrow>
          Some (Return (False, self\<lparr>fsm_client := c2, fsm_state := FOLLOWER\<rparr>, s, cenvs, fenvs1))
      | Some (Err e, c2, fenvs1) \<Rightarrow>
          if e = ClientClosed \<or> e = ClientNotConnected
          then Some (Return (False, self\<lparr>fsm_client := c2\<rparr>, s, cenvs, fenvs1))
          else join_attempt os codec (self\<lparr>fsm_client := c2\<rparr>) s cenvs fenvs1)"

definition join_leader ::
  "('s, 'h) object_store \<Rightarrow> prost_codec \<Rightarrow> fsm \<Rightarrow> leader_state \<Rightarrow> 's \<Rightarrow> connect_env list \<Rightarrow>
   follow_env list \<Rightarrow> 's join_round" where
  "join_leader os codec self leader_state s cenvs fenvs =
     (case ls_node_identity leader_state of
        None \<Rightarrow> Some (Panic ''Invalid leader state'')
      | Some leader_identity \<Rightarrow>
          (case fsm_connect_loop codec (backoff_new (retry (fsm_options self))) (fsm_client self) cenvs of
             None \<Rightarrow> None
           | Some (Panic m) \<Rightarrow> Some (Panic m)
           | Some (Return (Ok _, c1, cenvs1)) \<Rightarrow> join_follow os codec self c1 s cenvs1 fenvs
           | Some (Return (Err e, c1, cenvs1)) \<Rightarrow>
               if e = ClientClosed \<or> e = ClientNotConnected
               then Some (Return (True, self\<lparr>fsm_client := c1\<rparr>, s, cenvs1, fenvs))
               else join_attempt os codec (self\<lparr>fsm_client := c1\<rparr>) s cenvs1 fenvs))"

definition join_backoff :: "backoff_counter \<Rightarrow> backoff_counter" where
  "join_backoff backoff = (if can_attempt backoff then awaited backoff else backoff_reset backoff)"

definition join_step ::
  "('s, 'h) object_store \<Rightarrow> prost_codec \<Rightarrow> fsm \<Rightarrow> backoff_counter \<Rightarrow> 's \<Rightarrow> connect_env list \<Rightarrow>
   follow_env list \<Rightarrow> backoff_counter \<times> 's join_round" where
  "join_step os codec self backoff s cenvs fenvs =
     (case discover_leader_state os codec self s of
        None \<Rightarrow> (backoff, None)
      | Some (Panic m, s1) \<Rightarrow> (backoff, Some (Panic m))
      | Some (Return (Ok (Some leader_state)), s1) \<Rightarrow>
          (backoff, join_leader os codec self leader_state s1 cenvs fenvs)
      | Some (Return (Ok None), s1) \<Rightarrow> (backoff, join_attempt os codec self s1 cenvs fenvs)
      | Some (Return (Err e), s1) \<Rightarrow>
          if is_transient e
          then (join_backoff backoff, Some (Return (False, self, s1, cenvs, fenvs)))
          else (backoff, Some (Return (True, self, s1, cenvs, fenvs))))"

partial_function (option) join_loop ::
  "('s, 'h) object_store \<Rightarrow> prost_codec \<Rightarrow> fsm \<Rightarrow> backoff_counter \<Rightarrow> 's \<Rightarrow> connect_env list \<Rightarrow>
   follow_env list \<Rightarrow> (fsm \<times> 's \<times> connect_env list \<times> follow_env list) exec option" where
  "join_loop os codec self backoff s cenvs fenvs =
     (if fsm_state self \<noteq> NOT_JOINED then Some (Return (self, s, cenvs, fenvs))
      else
        (case join_step os codec self backoff s cenvs fenvs of
           (backoff', None) \<Rightarrow> None
         | (backoff', Some (Panic m)) \<Rightarrow> Some (Panic m)
         | (backoff', Some (Return (left, self', s', cenvs', fenvs'))) \<Rightarrow>
             if left then Some (Return (self', s', cenvs', fenvs'))
             else join_loop os codec self' backoff' s' cenvs' fenvs'))"

definition join ::
  "('s, 'h) object_store \<Rightarrow> prost_codec \<Rightarrow> fsm \<Rightarrow> 's \<Rightarrow> connect_env list \<Rightarrow> follow_env list \<Rightarrow>
   (fsm \<times> 's \<times> connect_env list \<times> follow_env list) exec option" where
  "join os codec self s cenvs fenvs =
     join_loop os codec self (backoff_new (retry (fsm_options self))) s cenvs fenvs"

section \<open>Running\<close>

text \<open>All the input of a node.\<close>

record node_input =
  ni_connects :: "connect_env list"
  ni_follows :: "follow_env list"
  ni_recvs :: "recv_outcome list"
  ni_leads :: "leader_input list"

text \<open>One iteration of \<open>start\<close> in a state other than \<open>STOPPED\<close>.\<close>

definition fsm_round ::
  "('s, 'h) object_store \<Rightarrow> prost_codec \<Rightarrow> fsm \<Rightarrow> 's \<Rightarrow> node_input \<Rightarrow> (fsm \<times> 's \<times> node_input) exec option" where
  "fsm_round os codec self s inp =
     (case fsm_state self of
        NOT_JOINED \<Rightarrow>
          (case join os codec self s (ni_connects inp) (ni_follows inp) of
             None \<Rightarrow> None
           | Some (Panic m) \<Rightarrow> Some (Panic m)
           | Some (Return (self', s', cenvs, fenvs)) \<Rightarrow>
               Some (Return (self', s', inp\<lparr>ni_connects := cenvs, ni_follows := fenvs\<rparr>)))
      | FOLLOWER \<Rightarrow>
          (case follower_loop self (ni_recvs inp) of
             (left, self', out, rest) \<Rightarrow>
               if left then Some (Return (self', s, inp\<lparr>ni_recvs := rest\<rparr>)) else None)
      | LEADER \<Rightarrow>
          (case leader_loop os codec self s (ni_leads inp) of
             None \<Rightarrow> None
           | Some (Panic m) \<Rightarrow> Some (Panic m)
           | Some (Return (left, self', acc, s', rest)) \<Rightarrow>
               if left then Some (Return (self', s', inp\<lparr>ni_leads := rest\<rparr>)) else None)
      | STOPPED \<Rightarrow> Some (Return (self, s, inp)))"

partial_function (option) fsm_start ::
  "('s, 'h) object_store \<Rightarrow> prost_codec \<Rightarrow> fsm \<Rightarrow> 's \<Rightarrow> node_input \<Rightarrow> (fsm \<times> 's) exec option" where
  "fsm_start os codec self s inp =
     (if fsm_state self = STOPPED then Some (Return (self, s))
      else
        (case fsm_round os codec self s inp of
           None \<Rightarrow> None
         | Some (Panic m) \<Rightarrow> Some (Panic m)
         | Some (Return (self', s', inp')) \<Rightarrow> fsm_start os codec self' s' inp'))"

end
