(* ===== verification/S2c_Follower.thy ===== *)
theory S2c_Follower
  imports S2c_Fsm
begin

text \<open>
  Correctness of the follower loop of \<^verbatim>\<open>src/fsm.rs\<close>: what it keeps of the queue, what it
  answers, and when it gives its leader up.
\<close>

section \<open>One iteration\<close>

lemma follower_step_Elapsed:
  "follower_step self Elapsed =
     (if max_missed_heartbeats (fsm_options self) \<le> missed_heartbeats self + 1
      then (True, self\<lparr>missed_heartbeats := missed_heartbeats self + 1, fsm_state := NOT_JOINED\<rparr>, [])
      else (False, self\<lparr>missed_heartbeats := missed_heartbeats self + 1\<rparr>, []))"
  by (simp add: follower_step_def Let_def)

lemma follower_step_closed: "follower_step self ChannelClosed = (True, self, [])"
  by (simp add: follower_step_def)

text \<open>
  A closed channel ends the loop in the state in which it was, so \<open>start\<close> enters it again.
\<close>

lemma follower_loop_closed: "follower_loop self (ChannelClosed # evs) = (True, self, [], evs)"
  by (simp add: follower_step_closed)

text \<open>The queue changes by a \<open>put\<close> of the next index only.\<close>

lemma follower_step_queue:
  assumes "follower_step self ev = (left, self', out)"
  shows "sync_queue self' = sync_queue self \<or>
         (\<exists>req. rr_commit_index req = last_received_index (sync_queue self) + 1 \<and>
                sync_queue self' = queue_put (sync_queue self) req)"
  using assms
  by (auto simp: follower_step_def Let_def split: recv_outcome.splits option.splits body.splits if_splits)

text \<open>The loop keeps what every iteration keeps.\<close>

lemma follower_loop_invariant:
  assumes "\<And>self ev left self' out. P self \<Longrightarrow> follower_step self ev = (left, self', out) \<Longrightarrow>
             P self' \<and> (\<forall>e \<in> set out. Q e)"
    and "P self" and "follower_loop self evs = (left, self', out, rest)"
  shows "P self' \<and> (\<forall>e \<in> set out. Q e)"
  using assms(2,3)
proof (induction evs arbitrary: self out)
  case (Cons ev evs)
  obtain l1 self1 out1 where step: "follower_step self ev = (l1, self1, out1)"
    by (metis prod_cases3)
  with assms(1) Cons.prems(1) have one: "P self1 \<and> (\<forall>e \<in> set out1. Q e)" by blast
  show ?case
  proof (cases l1)
    case True
    with step one Cons.prems(2) show ?thesis by simp
  next
    case False
    with step Cons.prems(2) obtain out2 where
      "follower_loop self1 evs = (left, self', out2, rest)" and "out = out1 @ out2"
      by (auto split: prod.splits)
    with Cons.IH one show ?thesis by auto
  qed
qed simp

section \<open>Properties\<close>

abbreviation queue_ok :: "fsm \<Rightarrow> bool" where
  "queue_ok self \<equiv>
     gap_free (last_received_index (sync_queue self)) (map rr_commit_index (queue (sync_queue self)))"

lemma queue_ok_step:
  "queue_ok self \<Longrightarrow> follower_step self ev = (left, self', out) \<Longrightarrow> queue_ok self'"
  using follower_step_queue [of self ev left self' out] rq.put_gap_free [of "sync_queue self"] by auto

text \<open>
  C6: a follower never queues batches out of order or with a gap. From any state in which the
  queued commit indices are consecutive and end at the last received index (as in a new
  node), whatever arrives in whatever order, they still are when the loop waits or is left.
\<close>

theorem follower_queue_gap_free:
  assumes "gap_free (last_received_index (sync_queue self)) (map rr_commit_index (queue (sync_queue self)))"
    and "follower_loop self evs = (left, self', out, rest)"
  shows "gap_free (last_received_index (sync_queue self')) (map rr_commit_index (queue (sync_queue self')))"
proof -
  have "queue_ok self' \<and> (\<forall>e \<in> set out. True)"
    by (rule follower_loop_invariant [where P = queue_ok, OF _ assms]) (auto dest: queue_ok_step)
  then show ?thesis by simp
qed

definition example_node :: node_identity where
  "example_node = \<lparr>node_id = ''n1'', node_address = ''10.0.0.1'', node_port = 9000, node_az = ''a''\<rparr>"

definition example_options :: "u32 \<Rightarrow> s2c_options" where
  "example_options pending = options_default\<lparr>max_batches_pending_for_apply := pending\<rparr>"

definition example_fsm :: "u32 \<Rightarrow> fsm" where
  "example_fsm pending =
     fsm_new ''g'' example_client (example_options pending) example_node ''b'' example_log"

definition example_envelope :: "string \<Rightarrow> body \<Rightarrow> envelope" where
  "example_envelope cid b =
     \<lparr>env_message = \<lparr>msg_correlation_id = cid, msg_body = Some b, msg_error = None\<rparr>,
      env_node_identity = example_node\<rparr>"

definition example_replication :: "recv_outcome list" where
  "example_replication =
     [Received (example_envelope ''a'' (ReplicateRequest (example_request 1))),
      Received (example_envelope ''b'' (ReplicateRequest (example_request 3))),
      Received (example_envelope ''c'' (ReplicateRequest (example_request 2)))]"

lemma example_fsm_queue: "sync_queue (example_fsm p) = replicate_queue_new (ucast p)"
  by (simp add: example_fsm_def fsm_new_def example_options_def options_default_def)

theorem follower_queue_gap_free_witness:
  "case follower_loop (example_fsm 0) example_replication of
     (left, self', out, rest) \<Rightarrow>
       map rr_commit_index (queue (sync_queue self')) = [1, 2] \<and> gap_free 2 [1, 2]"
proof -
  obtain left self' out rest where
    loop: "follower_loop (example_fsm 0) example_replication = (left, self', out, rest)"
    by (metis prod_cases4)
  have "gap_free (last_received_index (sync_queue (example_fsm 0)))
      (map rr_commit_index (queue (sync_queue (example_fsm 0))))"
    by (simp add: example_fsm_queue replicate_queue_new_def)
  from follower_queue_gap_free [OF this loop]
  have "gap_free (last_received_index (sync_queue self')) (map rr_commit_index (queue (sync_queue self')))" .
  moreover have "map rr_commit_index (queue (sync_queue self')) = [1, 2]"
    "last_received_index (sync_queue self') = 2"
    using loop
    by (auto simp: example_replication_def example_envelope_def follower_step_def example_fsm_queue
        replicate_queue_new_def queue_put_def example_request_def Let_def)
  ultimately show ?thesis using loop by simp
qed

text \<open>
  C32: with a pending limit other than zero, as in the default configuration, a follower
  accepts nothing at all. Its queue stays as it was and every \<open>ReplicateResponse\<close> it sends
  acknowledges the index it started with.
\<close>

theorem follower_never_advances:
  assumes "queue_size (sync_queue self) \<noteq> 0" and "queue (sync_queue self) = []"
    and "follower_loop self evs = (left, self', out, rest)"
  shows "sync_queue self' = sync_queue self \<and>
         (\<forall>e \<in> set out. \<forall>i. msg_body (env_message e) = Some (ReplicateResponse i) \<longrightarrow>
            i = last_received_index (sync_queue self))"
proof -
  let ?P = "\<lambda>f. sync_queue f = sync_queue self"
  let ?Q = "\<lambda>e. \<forall>i. msg_body (env_message e) = Some (ReplicateResponse i) \<longrightarrow>
            i = last_received_index (sync_queue self)"
  have refuse: "queue_put (sync_queue self) req = sync_queue self" for req
    using queue_step_keeps_empty [OF assms(1,2), of "Put req"] by simp
  show ?thesis
  proof (rule follower_loop_invariant [where P = ?P and Q = ?Q, OF _ refl assms(3)])
    fix f ev l f' o'
    assume "sync_queue f = sync_queue self" "follower_step f ev = (l, f', o')"
    then show "?P f' \<and> (\<forall>e \<in> set o'. ?Q e)"
      by (auto simp: follower_step_def follower_reply_def refuse Let_def
          split: recv_outcome.splits option.splits body.splits if_splits)
  qed
qed

theorem follower_never_advances_witness:
  "case follower_loop (example_fsm 1000) example_replication of
     (left, self', out, rest) \<Rightarrow> queue (sync_queue self') = []"
proof -
  obtain left self' out rest where
    loop: "follower_loop (example_fsm 1000) example_replication = (left, self', out, rest)"
    by (metis prod_cases4)
  have "queue_size (sync_queue (example_fsm 1000)) \<noteq> 0" "queue (sync_queue (example_fsm 1000)) = []"
    by (simp_all add: example_fsm_queue replicate_queue_new_def)
  from follower_never_advances [OF this loop] loop show ?thesis
    by (simp add: example_fsm_queue replicate_queue_new_def)
qed

section \<open>Replies\<close>

text \<open>The correlation ids of the requests that are answered.\<close>

definition answered :: "recv_outcome \<Rightarrow> string list" where
  "answered ev =
     (case ev of
        Received msg \<Rightarrow>
          (case msg_body (env_message msg) of
             Some (ReplicateRequest _) \<Rightarrow> [msg_correlation_id (env_message msg)]
           | Some (StateRequest _) \<Rightarrow> [msg_correlation_id (env_message msg)]
           | Some (Follow _) \<Rightarrow> [msg_correlation_id (env_message msg)]
           | _ \<Rightarrow> [])
      | _ \<Rightarrow> [])"

definition reply_ids :: "envelope list \<Rightarrow> string list" where
  "reply_ids out = map (\<lambda>e. msg_correlation_id (env_message e)) out"

lemma follower_step_replies:
  "follower_step self ev = (left, self', out) \<Longrightarrow> reply_ids out = answered ev"
  by (auto simp: follower_step_def follower_reply_def reply_ids_def answered_def Let_def
      split: recv_outcome.splits option.splits body.splits if_splits)

lemma follower_step_addressee:
  "follower_step self ev = (left, self', out) \<Longrightarrow>
   fsm_node_identity self' = fsm_node_identity self \<and>
   (\<forall>e \<in> set out. env_node_identity e = fsm_node_identity self)"
  by (auto simp: follower_step_def follower_reply_def Let_def
      split: recv_outcome.splits option.splits body.splits if_splits)

text \<open>
  C31: a follower answers every replication, state and follow request exactly once, in order
  and under the request's correlation id, and answers nothing else; each reply is enveloped
  with the follower's own identity.
\<close>

theorem follower_answers_each_request:
  assumes "follower_loop self evs = (left, self', out, rest)"
  shows "\<exists>used. evs = used @ rest \<and> reply_ids out = concat (map answered used) \<and>
                (\<forall>e \<in> set out. env_node_identity e = fsm_node_identity self)"
proof -
  have "\<forall>e \<in> set out. env_node_identity e = fsm_node_identity self"
    using follower_loop_invariant [where P = "\<lambda>f. fsm_node_identity f = fsm_node_identity self"
        and Q = "\<lambda>e. env_node_identity e = fsm_node_identity self", OF _ refl assms]
      follower_step_addressee by metis
  moreover have "\<exists>used. evs = used @ rest \<and> reply_ids out = concat (map answered used)"
    using assms
  proof (induction evs arbitrary: self out)
    case (Cons ev evs)
    obtain l1 self1 out1 where step: "follower_step self ev = (l1, self1, out1)"
      by (metis prod_cases3)
    show ?case
    proof (cases l1)
      case True
      with step Cons.prems show ?thesis
        by (intro exI [of _ "[ev]"]) (auto simp: follower_step_replies)
    next
      case False
      with step Cons.prems obtain out2 where
        "follower_loop self1 evs = (left, self', out2, rest)" and out: "out = out1 @ out2"
        by (auto split: prod.splits)
      then obtain used where "evs = used @ rest" "reply_ids out2 = concat (map answered used)"
        using Cons.IH by blast
      with step out show ?thesis
        by (intro exI [of _ "ev # used"]) (auto simp: reply_ids_def follower_step_replies [unfolded reply_ids_def])
    qed
  qed (simp add: reply_ids_def)
  ultimately show ?thesis by blast
qed

theorem follower_answers_each_request_witness:
  "reply_ids (fst (snd (snd (follower_loop (example_fsm 0) example_replication)))) = [''a'', ''b'', ''c'']"
proof -
  obtain left self' out rest where
    loop: "follower_loop (example_fsm 0) example_replication = (left, self', out, rest)"
    by (metis prod_cases4)
  then have "rest = []"
    by (auto simp: example_replication_def example_envelope_def follower_step_def Let_def
        split: if_splits)
  with follower_answers_each_request [OF loop] loop show ?thesis
    by (simp add: example_replication_def answered_def example_envelope_def)
qed

section \<open>Heartbeats\<close>

lemma follower_loop_misses:
  assumes "unat (missed_heartbeats self) + k < unat (max_missed_heartbeats (fsm_options self))"
  shows "follower_loop self (replicate k Elapsed @ evs) =
         follower_loop (self\<lparr>missed_heartbeats := missed_heartbeats self + of_nat k\<rparr>) evs"
  using assms
proof (induction k arbitrary: self)
  case (Suc k)
  let ?m = "max_missed_heartbeats (fsm_options self)"
  have "unat (missed_heartbeats self) < 4294967295"
    using Suc.prems unat_u32_lt [of ?m] by linarith
  then have n: "unat (missed_heartbeats self + 1) = Suc (unat (missed_heartbeats self))"
    by (rule unat_u32_Suc)
  then have "\<not> ?m \<le> missed_heartbeats self + 1" using Suc.prems by (simp add: word_le_nat_alt)
  moreover have "unat (missed_heartbeats (self\<lparr>missed_heartbeats := missed_heartbeats self + 1\<rparr>)) + k
      < unat (max_missed_heartbeats (fsm_options (self\<lparr>missed_heartbeats := missed_heartbeats self + 1\<rparr>)))"
    using Suc.prems n by simp
  note Suc.IH [OF this]
  ultimately show ?case by (simp add: follower_step_Elapsed add.assoc split: prod.splits)
qed simp

text \<open>
  C30: a follower gives its leader up after exactly the configured number of missed
  heartbeats. Silence shorter than that keeps it in the loop; the timeout that makes the
  count complete, and not an earlier one, takes it out of the loop as \<open>NOT_JOINED\<close>.
\<close>

theorem follower_leaves_after_max_missed:
  assumes "missed_heartbeats self < max_missed_heartbeats (fsm_options self)"
    and "k = unat (max_missed_heartbeats (fsm_options self)) - unat (missed_heartbeats self)"
  shows "(\<forall>j < k. fst (follower_loop self (replicate j Elapsed)) = False) \<and>
         follower_loop self (replicate k Elapsed @ evs) =
           (True, self\<lparr>missed_heartbeats := max_missed_heartbeats (fsm_options self),
                       fsm_state := NOT_JOINED\<rparr>, [], evs)"
proof -
  let ?m = "max_missed_heartbeats (fsm_options self)"
  have lt: "unat (missed_heartbeats self) < unat ?m"
    using assms(1) by (simp add: word_less_nat_alt)
  have stay: "fst (follower_loop self (replicate j Elapsed)) = False" if "j < k" for j
    using follower_loop_misses [of self j "[]"] that assms(2) by simp
  obtain j where k: "k = Suc j" using lt assms(2) by (metis Suc_diff_Suc)
  let ?self = "self\<lparr>missed_heartbeats := missed_heartbeats self + of_nat j\<rparr>"
  have "missed_heartbeats self + of_nat j + 1 = missed_heartbeats self + of_nat k"
    by (simp add: k)
  also have "\<dots> = ?m" using lt assms(2) by (simp add: of_nat_diff)
  finally have last: "missed_heartbeats ?self + 1 = ?m" by simp
  have "follower_loop self (replicate k Elapsed @ evs) = follower_loop ?self (Elapsed # evs)"
    using follower_loop_misses [of self j "Elapsed # evs"] lt k assms(2)
    by (simp add: replicate_append_same [symmetric])
  also have "\<dots> = (True, self\<lparr>missed_heartbeats := ?m, fsm_state := NOT_JOINED\<rparr>, [], evs)"
    using last by (simp add: follower_step_Elapsed)
  finally show ?thesis using stay by blast
qed

theorem follower_leaves_after_max_missed_witness:
  "fst (follower_loop (example_fsm 1000) (replicate 9 Elapsed)) = False \<and>
   fsm_state (fst (snd (follower_loop (example_fsm 1000) (replicate 10 Elapsed)))) = NOT_JOINED"
proof -
  have m: "missed_heartbeats (example_fsm 1000) = 0"
    "max_missed_heartbeats (fsm_options (example_fsm 1000)) = 10"
    by (simp_all add: example_fsm_def fsm_new_def example_options_def options_default_def)
  have h: "missed_heartbeats (example_fsm 1000) < max_missed_heartbeats (fsm_options (example_fsm 1000))"
    "10 = unat (max_missed_heartbeats (fsm_options (example_fsm 1000))) -
          unat (missed_heartbeats (example_fsm 1000))"
    by (simp_all add: m)
  from follower_leaves_after_max_missed [OF h, of "[]"] show ?thesis by simp
qed

text \<open>
  The count is not reset when a node joins again: a follower that re-enters the loop with the
  count complete leaves it at the first timeout.
\<close>

lemma stale_heartbeat_count:
  assumes "max_missed_heartbeats (fsm_options self) \<le> missed_heartbeats self"
    and "unat (missed_heartbeats self) < 4294967295"
  shows "follower_loop self (Elapsed # evs) =
           (True, self\<lparr>missed_heartbeats := missed_heartbeats self + 1, fsm_state := NOT_JOINED\<rparr>, [], evs)"
proof -
  have "missed_heartbeats self \<le> missed_heartbeats self + 1"
    using unat_u32_Suc [OF assms(2)] by (simp add: word_le_nat_alt)
  with assms(1) have "max_missed_heartbeats (fsm_options self) \<le> missed_heartbeats self + 1"
    by (rule order_trans)
  then show ?thesis by (simp add: follower_step_Elapsed)
qed

end
