(* ===== verification/S2c_Leader.thy ===== *)
theory S2c_Leader
  imports S2c_Follower
begin

text \<open>
  Correctness of the leadership side of \<^verbatim>\<open>src/fsm.rs\<close>: the attempt to become leader, the
  leader loop, finding the current leader, and joining.
\<close>

section \<open>The attempt\<close>

text \<open>Induction on the appends of an attempt that returned.\<close>

lemma attempt_loop_induct [consumes 1, case_names won taken stopped retry]:
  assumes ret: "attempt_loop os self ci ep payload backoff s = Some (self', s')"
    and won: "\<And>backoff s x s'. append_log os (fsm_log self) ci payload s = Some (Ok x, s') \<Longrightarrow>
        P backoff s (self\<lparr>fsm_state := LEADER, commit_index := ci, epoch := ep\<rparr>) s'"
    and taken: "\<And>backoff s q s'.
        append_log os (fsm_log self) ci payload s = Some (Err (AlreadyExists q), s') \<Longrightarrow>
        P backoff s self s'"
    and stopped: "\<And>backoff s e s'. append_log os (fsm_log self) ci payload s = Some (Err e, s') \<Longrightarrow>
        \<not> is_transient e \<Longrightarrow> (\<And>q. e \<noteq> AlreadyExists q) \<Longrightarrow>
        P backoff s (self\<lparr>fsm_state := STOPPED\<rparr>) s'"
    and retry: "\<And>backoff backoff' s e s1 self' s'.
        append_log os (fsm_log self) ci payload s = Some (Err e, s1) \<Longrightarrow> is_transient e \<Longrightarrow>
        P backoff' s1 self' s' \<Longrightarrow> P backoff s self' s'"
  shows "P backoff s self' s'"
proof -
  let ?Q = "\<lambda>os' self0 ci' ep' payload' backoff s (res :: fsm \<times> 'a).
     os' = os \<longrightarrow> self0 = self \<longrightarrow> ci' = ci \<longrightarrow> ep' = ep \<longrightarrow> payload' = payload \<longrightarrow>
     P backoff s (fst res) (snd res)"
  have "?Q os self ci ep payload backoff s (self', s')"
  proof (rule attempt_loop.raw_induct [where P = ?Q, OF _ ret], intro impI, hypsubst)
    fix loop backoff s and res :: "fsm \<times> 'a"
    assume IH: "\<And>os' self0 ci' ep' payload' backoff s res.
        loop os' self0 ci' ep' payload' backoff s = Some res \<Longrightarrow> ?Q os' self0 ci' ep' payload' backoff s res"
      and body: "(case append_log os (fsm_log self) ci payload s of
          None \<Rightarrow> None
        | Some (Ok _, s') \<Rightarrow>
            Some (self\<lparr>fsm_state := LEADER, commit_index := ci, epoch := ep\<rparr>, s')
        | Some (Err e, s') \<Rightarrow>
            (case e of
               AlreadyExists p \<Rightarrow> Some (self, s')
             | _ \<Rightarrow>
                 if is_transient e
                 then loop os self ci ep payload (awaited backoff) s'
                 else Some (self\<lparr>fsm_state := STOPPED\<rparr>, s'))) = Some res"
    have step: "P backoff s (fst res) (snd res)"
      if app: "append_log os (fsm_log self) ci payload s = Some (Err e, s1)"
        and "\<And>q. e \<noteq> AlreadyExists q" and "(if is_transient e then loop os self ci ep payload (awaited backoff) s1
              else Some (self\<lparr>fsm_state := STOPPED\<rparr>, s1)) = Some res" for e s1
      using that IH [of os self ci ep payload "awaited backoff" s1 res] stopped [OF app]
        retry [OF app] by (auto split: if_splits)
    obtain r s1 where app: "append_log os (fsm_log self) ci payload s = Some (r, s1)"
      using body by (cases "append_log os (fsm_log self) ci payload s") auto
    show "P backoff s (fst res) (snd res)"
    proof (cases r)
      case (Ok x)
      then show ?thesis using body app won by auto
    next
      case (Err e)
      then show ?thesis
        using body app step taken by (cases e) auto
    qed
  qed
  then show ?thesis by simp
qed

abbreviation fsm_env :: "('s, 'h) object_store \<Rightarrow> ('s \<Rightarrow> string \<rightharpoonup> bytes) \<Rightarrow> fsm \<Rightarrow> ('s, 'h) log_env" where
  "fsm_env os C self \<equiv> (os, C, fsm_log self)"

lemma slog_fsm:
  assumes "create_store os C" and "append_log os (fsm_log self) i b s = Some (r, s')"
  shows fsm_append_mono: "log_contents (fsm_env os C self) s \<subseteq>\<^sub>m log_contents (fsm_env os C self) s'"
    and fsm_append_ok: "r = Ok x \<Longrightarrow> log_contents (fsm_env os C self) s i = None \<and>
          log_contents (fsm_env os C self) s' i = Some b"
    and fsm_append_exists: "r = Err (AlreadyExists q) \<Longrightarrow> log_contents (fsm_env os C self) s' i \<noteq> None"
  using assms slog.app_mono [of "fsm_env os C self" i b s r s']
    slog.app_ok [of "fsm_env os C self" i b s x s'] slog.app_exists [of "fsm_env os C self" i b s q s']
  by (simp_all add: log_valid_def log_append_def)

lemma attempt_loop_outcome:
  assumes "attempt_loop os self ci ep payload backoff s = Some (self', s')" and cs: "create_store os C"
  shows "log_contents (fsm_env os C self) s \<subseteq>\<^sub>m log_contents (fsm_env os C self) s' \<and>
     (self' = self\<lparr>fsm_state := LEADER, commit_index := ci, epoch := ep\<rparr> \<and>
        log_contents (fsm_env os C self) s ci = None \<and>
        log_contents (fsm_env os C self) s' ci = Some payload \<or>
      self' = self \<and> log_contents (fsm_env os C self) s' ci \<noteq> None \<or>
      self' = self\<lparr>fsm_state := STOPPED\<rparr>)"
  using assms(1)
proof (induction rule: attempt_loop_induct)
  case (retry backoff backoff' s e s1 self' s')
  let ?L = "log_contents (fsm_env os C self)"
  have le: "?L s \<subseteq>\<^sub>m ?L s1" using fsm_append_mono [OF cs retry(1)] .
  then have "?L s ci = None" if "?L s1 ci = None" using that by (metis domIff map_le_def)
  with retry(3) map_le_trans [OF le] show ?case by blast
next
  case (won backoff s x s')
  then show ?case using fsm_append_mono [OF cs won] fsm_append_ok [OF cs won refl] by simp
next
  case (taken backoff s q s')
  then show ?case using fsm_append_mono [OF cs taken] fsm_append_exists [OF cs taken refl] by simp
next
  case (stopped backoff s e s')
  then show ?case using fsm_append_mono [OF cs stopped(1)] by simp
qed

text \<open>
  C2: an attempt at leadership that returns has exactly three outcomes. The node becomes
  leader, with the next commit index and epoch (1 and 1 for a new node): then that index of
  the log was free and now holds the node's own entry. Or the node is unchanged, and the
  index is taken. Or the store failed for good and the node stops. The log loses nothing.
\<close>

theorem attempt_leadership_outcome:
  assumes "create_store os C" and "attempt_leadership os codec self s = Some (self', s')"
    and "leadership_target self = (ci, ep)"
  shows "log_contents (os, C, fsm_log self) s \<subseteq>\<^sub>m log_contents (os, C, fsm_log self) s' \<and>
     (self' = self\<lparr>fsm_state := LEADER, commit_index := ci, epoch := ep\<rparr> \<and>
        log_contents (os, C, fsm_log self) s ci = None \<and>
        log_contents (os, C, fsm_log self) s' ci = Some (encode_log_entry codec (leadership_entry self)) \<or>
      self' = self \<and> log_contents (os, C, fsm_log self) s' ci \<noteq> None \<or>
      self' = self\<lparr>fsm_state := STOPPED\<rparr>)"
  using attempt_loop_outcome [OF _ assms(1)] assms(2,3) by (simp add: attempt_leadership_def)

lemma example_attempt:
  "attempt_leadership memory example_codec (example_fsm 0) mem_empty =
     Some ((example_fsm 0)\<lparr>fsm_state := LEADER, commit_index := 1, epoch := 1\<rparr>,
           mem_empty\<lparr>mem_objects := [(entry_key ''g'' 1, [])]\<rparr>)"
proof -
  have t: "leadership_target (example_fsm 0) = (1, 1)"
    by (simp add: leadership_target_def example_fsm_def fsm_new_def)
  have l: "fsm_log (example_fsm 0) = example_log" by (simp add: example_fsm_def fsm_new_def)
  show ?thesis
    unfolding attempt_leadership_def t prod.case
    by (subst attempt_loop.simps) (simp add: l example_append example_codec_def)
qed

theorem attempt_leadership_outcome_witness:
  "\<exists>self' s'. attempt_leadership memory example_codec (example_fsm 0) mem_empty = Some (self', s') \<and>
     fsm_state self' = LEADER \<and> log_contents (memory, mem_contents, example_log) s' 1 = Some []"
proof -
  have t: "leadership_target (example_fsm 0) = (1, 1)"
    by (simp add: leadership_target_def example_fsm_def fsm_new_def)
  have l: "fsm_log (example_fsm 0) = example_log" by (simp add: example_fsm_def fsm_new_def)
  from attempt_leadership_outcome [OF memory_create_store example_attempt t]
  show ?thesis
    by (simp add: example_attempt l log_contents_def example_log_simps)
qed

section \<open>The leader loop\<close>

text \<open>A wait as long as \<open>remaining\<close> allows lasts just to the end of the flush interval.\<close>

lemma leader_remaining_reaches_interval:
  "elapsed + leader_remaining options elapsed = max elapsed (flush_interval_nanos options)"
  by (simp add: leader_remaining_def)

text \<open>
  \<open>next\<close> is ready as soon as one of the channels is. A message of the one is passed over only
  for an answer of the other, which may be that it is closed.
\<close>

lemma fsm_next_ready: "fsm_next b l r = None \<longleftrightarrow> l = None \<and> r = None"
  by (auto simp: fsm_next_def split: option.splits)

lemmas leader_next_simps = leader_next_def fsm_next_def leader_due_def

definition due_requests :: "envelope list \<Rightarrow> state_request list" where
  "due_requests due =
     concat (map (\<lambda>msg. case msg_body (env_message msg) of
                          Some (StateRequest r) \<Rightarrow> [r] | _ \<Rightarrow> []) due)"

definition due_followers :: "envelope list \<Rightarrow> node_identity list" where
  "due_followers due =
     concat (map (\<lambda>msg. case msg_body (env_message msg) of
                          Some (Follow f) \<Rightarrow> (case fo_node_identity f of Some ni \<Rightarrow> [ni] | None \<Rightarrow> [])
                        | _ \<Rightarrow> []) due)"

text \<open>
  Collecting takes the state requests and the new followers in order and changes nothing
  else.
\<close>

lemma leader_collect_result:
  assumes "leader_collect self acc due = Return (self', acc')"
  shows "acc' = acc @ due_requests due" "self' = self\<lparr>followers := followers self @ due_followers due\<rparr>"
proof -
  have "leader_collect self acc due = Return (self', acc') \<Longrightarrow>
    acc' = acc @ due_requests due \<and> self' = self\<lparr>followers := followers self @ due_followers due\<rparr>"
  proof (induction due arbitrary: self acc)
    case (Cons msg due)
    show ?case
    proof (cases "msg_body (env_message msg)")
      case None
      with Cons show ?thesis by (simp add: due_requests_def due_followers_def)
    next
      case (Some b)
      show ?thesis
      proof (cases b)
        case (Follow f)
        then show ?thesis
          using Some Cons.prems Cons.IH [of "self\<lparr>followers := followers self @ [x]\<rparr>" acc for x]
          by (cases "fo_node_identity f") (simp_all add: due_requests_def due_followers_def)
      next
        case (StateRequest r)
        with Some Cons.prems Cons.IH [of self "acc @ [r]"] show ?thesis
          by (simp add: due_requests_def due_followers_def)
      qed (use Some Cons in \<open>simp_all add: due_requests_def due_followers_def\<close>)
    qed
  qed (simp add: due_requests_def due_followers_def)
  with assms show "acc' = acc @ due_requests due" "self' = self\<lparr>followers := followers self @ due_followers due\<rparr>"
    by blast+
qed

lemma append_log_taken:
  assumes "create_store os C" and "sole_writer os C"
    and "log_contents (os, C, lg) s i \<noteq> None" and "append_log os lg i b s = Some (r, s')"
  shows "C s' = C s \<and> \<not> is_ok r"
proof
  let ?k = "log_entry_key (log_key_resolver lg) (invert i)"
  have there: "C s (path_from os ?k) \<noteq> None" using assms(3) by (simp add: log_contents_def)
  note ret = assms(4) [unfolded append_log_def]
  from append_loop_sole_writer [OF ret assms(2)] there show "C s' = C s" by blast
  show "\<not> is_ok r"
  proof
    assume "is_ok r"
    then obtain x where "r = Ok x" by (cases r) simp_all
    with append_loop_ok [OF ret [unfolded this] assms(1)] there show False by simp
  qed
qed

text \<open>
  The outcome of an iteration: left on a closed channel, a panic, a flush or one more round.
\<close>

lemma leader_step_eq:
  "leader_step os codec self acc s inp =
     (if leader_next inp = ChannelClosed then Some (Return (True, self, acc, s))
      else case leader_collect self acc (leader_due inp) of
        Panic m \<Rightarrow> Some (Panic m)
      | Return (self1, acc1) \<Rightarrow>
          if flush_interval_nanos (fsm_options self1) < li_elapsed inp \<or>
             unat (batch_min_count (fsm_options self1)) < length acc1
          then (case append_log os (fsm_log self1) (commit_index self1)
                       (encode_batch codec (leader_batch codec acc1)) s of
                  None \<Rightarrow> None | Some (r, s') \<Rightarrow> Some (Return (False, self1, [], s')))
          else Some (Return (False, self1, acc1, s)))"
  by (simp add: leader_step_def split: recv_outcome.split)

text \<open>An iteration appends at the commit index or leaves the store alone.\<close>

lemma leader_step_shape:
  assumes "leader_step os codec self acc s inp = Some (Return (left, self', acc', s'))"
  shows "(\<exists>fs. self' = self\<lparr>followers := fs\<rparr>) \<and>
         (s' = s \<or> (\<exists>b r. append_log os (fsm_log self) (commit_index self) b s = Some (r, s')))"
proof (cases "leader_next inp = ChannelClosed")
  case True
  with assms have "self' = self\<lparr>followers := followers self\<rparr>" "s' = s"
    by (simp_all add: leader_step_eq)
  then show ?thesis by blast
next
  case False
  then obtain self1 acc1 where col: "leader_collect self acc (leader_due inp) = Return (self1, acc1)"
    using assms by (auto simp: leader_step_eq split: exec.splits)
  note self1 = leader_collect_result(2) [OF col]
  have "self' = self1 \<and> (s' = s \<or>
      (\<exists>r. append_log os (fsm_log self) (commit_index self)
             (encode_batch codec (leader_batch codec acc1)) s = Some (r, s')))"
    using assms by (auto simp: leader_step_eq False col self1 split: if_splits option.splits)
  then show ?thesis using self1 by blast
qed

lemma leader_step_taken:
  assumes "create_store os C" and "sole_writer os C"
    and "log_contents (os, C, fsm_log self) s (commit_index self) \<noteq> None"
    and "leader_step os codec self acc s inp = Some (Return (left, self', acc', s'))"
  shows "C s' = C s \<and> (\<exists>fs. self' = self\<lparr>followers := fs\<rparr>)"
  using leader_step_shape [OF assms(4)] append_log_taken [OF assms(1-3)] by blast

lemma leader_iterations_taken:
  assumes "create_store os C" and "sole_writer os C"
  shows "log_contents (os, C, fsm_log self) s (commit_index self) \<noteq> None \<Longrightarrow>
         leader_iterations os codec self acc s inps = Some (Return (left, self', acc', s', rest)) \<Longrightarrow>
         C s' = C s \<and> (\<exists>fs. self' = self\<lparr>followers := fs\<rparr>)"
proof (induction inps arbitrary: self acc s)
  case (Cons inp inps)
  from Cons.prems(2) obtain left1 self1 acc1 s1 where
    step: "leader_step os codec self acc s inp = Some (Return (left1, self1, acc1, s1))"
    by (auto split: option.splits exec.splits)
  from leader_step_taken [OF assms Cons.prems(1) step] obtain fs where
    one: "C s1 = C s" "self1 = self\<lparr>followers := fs\<rparr>" by blast
  show ?case
  proof (cases left1)
    case True
    with step one Cons.prems(2) show ?thesis by auto
  next
    case False
    with step Cons.prems(2)
    have "leader_iterations os codec self1 acc1 s1 inps = Some (Return (left, self', acc', s', rest))"
      by simp
    moreover have "log_contents (os, C, fsm_log self1) s1 (commit_index self1) \<noteq> None"
      using Cons.prems(1) one by (simp add: log_contents_def)
    ultimately show ?thesis using Cons.IH one by fastforce
  qed
next
  case Nil
  then have "self' = self\<lparr>followers := followers self\<rparr>" "s' = s" by simp_all
  then show ?case by blast
qed

text \<open>
  C13: a leader writes nothing. Its loop appends every batch at the commit index it was
  elected with, whose object is its own election entry; so whatever it receives and however
  often it flushes, the store is as before, the commit index has not moved, and only the
  list of followers has changed.
\<close>

theorem leader_loop_writes_nothing:
  assumes "create_store os C" and "sole_writer os C"
    and "log_contents (os, C, fsm_log self) s (commit_index self) \<noteq> None"
    and "leader_loop os codec self s inps = Some (Return (left, self', acc, s', rest))"
  shows "C s' = C s \<and> (\<exists>fs. self' = self\<lparr>followers := fs\<rparr>)"
  using leader_iterations_taken [OF assms(1-3)] assms(4) by (simp add: leader_loop_def)

definition example_leader :: fsm where
  "example_leader = (example_fsm 0)\<lparr>fsm_state := LEADER, commit_index := 1, epoch := 1\<rparr>"

definition example_elected :: mem_store where
  "example_elected = mem_empty\<lparr>mem_objects := [(entry_key ''g'' 1, [])]\<rparr>"

definition example_state_request :: state_request where
  "example_state_request =
     \<lparr>sr_body = [1, 2], sr_type = 0, sr_group_id = ''g'', sr_internal = False, sr_leader_command = False\<rparr>"

definition example_flush :: leader_input where
  "example_flush =
     \<lparr>li_local_recv = Some (Some (example_envelope ''r'' (StateRequest example_state_request))),
      li_remote_recv = None, li_local_first = True, li_local = [], li_remote = [],
      li_elapsed = 2000000001\<rparr>"

lemma example_leader_simps:
  "fsm_log example_leader = example_log" "commit_index example_leader = 1"
  "flush_interval_nanos (fsm_options example_leader) = 2000000000"
  "unat (batch_min_count (fsm_options example_leader)) = 100"
  by (simp_all add: example_leader_def example_fsm_def fsm_new_def example_options_def options_default_def
      flush_interval_nanos_def)

lemma example_append_taken:
  "append_log memory example_log 1 b example_elected =
     Some (Err (AlreadyExists (entry_key ''g'' 1)), example_elected)"
  unfolding append_log_def
  by (subst append_loop.simps)
    (simp add: example_log_simps mem_put_def mem_empty_def example_elected_def)

lemma example_flush_run:
  "leader_loop memory example_codec example_leader example_elected [example_flush] =
     Some (Return (False, example_leader, [], example_elected, []))"
  by (simp add: leader_loop_def leader_step_def leader_next_simps example_flush_def example_envelope_def
      example_leader_simps example_append_taken)

theorem leader_loop_writes_nothing_witness:
  "\<exists>self' s'. leader_loop memory example_codec example_leader example_elected [example_flush] =
      Some (Return (False, self', [], s', [])) \<and> mem_contents s' = [entry_key ''g'' 1 \<mapsto> []]"
proof -
  have "log_contents (memory, mem_contents, fsm_log example_leader) example_elected
      (commit_index example_leader) \<noteq> None"
    by (simp add: log_contents_def example_leader_simps example_log_simps example_elected_def)
  from leader_loop_writes_nothing [OF memory_create_store memory_sole_writer this example_flush_run] example_flush_run
  show ?thesis by (simp add: example_elected_def mem_empty_def)
qed

text \<open>
  The bodies of a batch are not the encodings of the requests: a growable buffer that was
  filled with zeros first is written at its end, so each body is as many zeros as the
  encoding is long, and then the encoding.
\<close>

lemma leader_batch_bodies:
  assumes "buf_mut_appends codec"
  shows "map entry_body (batch_entries (leader_batch codec acc)) =
         map (\<lambda>r. replicate (length (encode_state_request codec r)) 0 @ encode_state_request codec r) acc"
  using assms by (simp add: leader_batch_def buf_mut_appends_def)

section \<open>Joining\<close>

text \<open>What a node finds when it reads the entry that \<open>get_head\<close> named.\<close>

definition missing_not_found :: "('s, 'h) object_store \<Rightarrow> ('s \<Rightarrow> string \<rightharpoonup> bytes) \<Rightarrow> bool" where
  "missing_not_found os C =
     (\<forall>s p. C s p = None \<longrightarrow> (\<exists>q. os_get os s p = (Err (NotFound q), s)))"

lemma get_at_missing:
  assumes "missing_not_found os C" and "log_contents (os, C, lg) s i = None"
  shows "\<exists>q. get_at os lg i s = Some (Err (NotFound q), s)"
proof -
  obtain q where
    "os_get os s (path_from os (log_entry_key (log_key_resolver lg) (invert i))) = (Err (NotFound q), s)"
    using assms unfolding missing_not_found_def log_contents_def by auto
  then show ?thesis unfolding get_at_def by (subst get_at_loop.simps) simp
qed

lemma discover_misses:
  assumes "missing_not_found os C" and "get_head os (fsm_log self) s = (Return (Ok (Some n)), s1)"
    and "log_contents (os, C, fsm_log self) s1 n = None"
  shows "\<exists>q. discover_leader_state os codec self s = Some (Return (Err (NotFound q)), s1)"
  using get_at_missing [OF assms(1,3)] assms(2) unfolding discover_leader_state_def
  by (subst discover_loop.simps) auto

lemma join_misses:
  assumes "missing_not_found os C" and "get_head os (fsm_log self) s = (Return (Ok (Some n)), s1)"
    and "log_contents (os, C, fsm_log self) s1 n = None" and "fsm_state self = NOT_JOINED"
  shows "join os codec self s cenvs fenvs = Some (Return (self, s1, cenvs, fenvs))"
proof -
  obtain q where "discover_leader_state os codec self s = Some (Return (Err (NotFound q)), s1)"
    using discover_misses [OF assms(1-3)] by blast
  with assms(4) show ?thesis unfolding join_def by (subst join_loop.simps) (simp add: join_step_def)
qed

text \<open>
  A store at rest that lists in byte order, seen from a group whose log has exactly the
  indices \<open>I\<close>.
\<close>

definition settled_log ::
  "('s, 'h) object_store \<Rightarrow> ('s \<Rightarrow> string \<rightharpoonup> bytes) \<Rightarrow> string \<Rightarrow> u64 set \<Rightarrow> 's \<Rightarrow> bool" where
  "settled_log os C g I s =
     (finite I \<and> (\<forall>i \<in> I. i \<le> max_ordered_index) \<and>
      (\<forall>i. C s (path_from os (entry_key g i)) \<noteq> None \<longleftrightarrow> i \<in> I) \<and>
      (\<forall>i. filename os (entry_key g i) = Some (show_u64 (invert i))) \<and>
      (\<exists>keys. os_list os s (path_from os (log_prefix (keys_resolver_new g))) = (map Ok keys, s) \<and>
              sorted_wrt str_less keys \<and> set keys = entry_key g ` I))"

lemma invert_not_ordered: "i \<le> max_ordered_index \<Longrightarrow> \<not> invert i \<le> max_ordered_index"
  by (simp add: word_le_nat_alt u64_simps max_ordered_index_def)

lemma settled_head:
  assumes "settled_log os C g I s" and "I \<noteq> {}"
  shows "get_head os (s2c_log_new g options) s = (Return (Ok (Some (invert (Max I)))), s)"
  using get_head_sorted [of os s g _ s I options] assms unfolding settled_log_def by blast

lemma settled_head_missing:
  assumes "settled_log os C g I s" and "I \<noteq> {}"
  shows "log_contents (os, C, s2c_log_new g options) s (invert (Max I)) = None"
proof -
  have "Max I \<in> I" using assms by (auto simp: settled_log_def)
  then have "invert (Max I) \<notin> I"
    using assms(1) invert_not_ordered [of "Max I"] by (auto simp: settled_log_def)
  then have "C s (path_from os (entry_key g (invert (Max I)))) = None"
    using assms(1) by (auto simp: settled_log_def)
  then show ?thesis by (simp add: log_contents_def s2c_log_new_def entry_key_def)
qed

lemma join_settled:
  assumes "missing_not_found os C" and "settled_log os C g I s" and "I \<noteq> {}"
    and "fsm_log self = s2c_log_new g options" and "fsm_state self = NOT_JOINED"
  shows "join os codec self s cenvs fenvs = Some (Return (self, s, cenvs, fenvs))"
  using join_misses [OF assms(1), of self s "invert (Max I)" s]
    settled_head [OF assms(2,3)] settled_head_missing [OF assms(2,3)] assms(4,5) by simp

lemma fsm_start_stuck:
  assumes joins: "\<And>cenvs fenvs. join os codec self s cenvs fenvs = Some (Return (self, s, cenvs, fenvs))"
    and "fsm_state self = NOT_JOINED"
  shows "fsm_start os codec self s inp = None"
proof (rule ccontr)
  let ?Q = "\<lambda>os' codec' self' s' (inp' :: node_input) (res :: (fsm \<times> 'a) exec).
     os' = os \<longrightarrow> codec' = codec \<longrightarrow> self' = self \<longrightarrow> s' = s \<longrightarrow> False"
  assume "fsm_start os codec self s inp \<noteq> None"
  then obtain res where ret: "fsm_start os codec self s inp = Some res" by blast
  have "?Q os codec self s inp res"
  proof (rule fsm_start.raw_induct [where P = ?Q, OF _ ret], intro impI, hypsubst)
    fix loop inp' and res :: "(fsm \<times> 'a) exec"
    assume IH: "\<And>os' codec' self' s' inp' res.
        loop os' codec' self' s' inp' = Some res \<Longrightarrow> ?Q os' codec' self' s' inp' res"
      and "(if fsm_state self = STOPPED then Some (Return (self, s))
            else (case fsm_round os codec self s inp' of
                    None \<Rightarrow> None
                  | Some (Panic m) \<Rightarrow> Some (Panic m)
                  | Some (Return (self', s', inp'')) \<Rightarrow> loop os codec self' s' inp'')) = Some res"
    with assms have "loop os codec self s inp' = Some res" by (simp add: fsm_round_def)
    from IH [OF this] show False by simp
  qed
  then show False by simp
qed

text \<open>
  C14: no node joins a group that has a log. \<open>get_head\<close> names the newest entry by its inverted
  index and \<open>get_at\<close> inverts it again, so the entry is looked for under a key that does not
  exist; joining ends with \<open>NotFound\<close> and the node, the store and the input unchanged, and
  \<open>start\<close> tries again for ever.
\<close>

theorem no_node_joins_existing_log:
  assumes "missing_not_found os C" and "settled_log os C g I s" and "I \<noteq> {}"
    and "fsm_log self = s2c_log_new g options" and "fsm_state self = NOT_JOINED"
  shows "join os codec self s cenvs fenvs = Some (Return (self, s, cenvs, fenvs)) \<and>
         fsm_start os codec self s inp = None"
  using join_settled [OF assms] fsm_start_stuck [OF join_settled [OF assms] assms(5)] by blast

lemma memory_missing_not_found: "missing_not_found memory mem_contents"
  by (simp add: missing_not_found_def mem_get_def)

lemma example_elected_settled: "settled_log memory mem_contents ''g'' {1} example_elected"
proof -
  have "take (length (log_prefix (keys_resolver_new ''g''))) (entry_key ''g'' i) =
      log_prefix (keys_resolver_new ''g'')" for i
    by (simp add: key_simps)
  then show ?thesis
    unfolding settled_log_def
    by (auto simp: max_ordered_index_def memory_filename mem_list_def example_elected_def mem_empty_def
        intro!: exI [of _ "[entry_key ''g'' 1]"])
qed

theorem no_node_joins_existing_log_witness:
  "fsm_start memory example_codec (example_fsm 0) example_elected
     \<lparr>ni_connects = [], ni_follows = [], ni_recvs = [], ni_leads = []\<rparr> = None"
proof -
  have "fsm_log (example_fsm 0) = s2c_log_new ''g'' options_default" "fsm_state (example_fsm 0) = NOT_JOINED"
    by (simp_all add: example_fsm_def fsm_new_def example_log_def)
  from no_node_joins_existing_log [OF memory_missing_not_found example_elected_settled _ this] show ?thesis
    by simp
qed

text \<open>A node that finds the log empty and wins its attempt has joined.\<close>

lemma join_elected:
  assumes "fsm_state self = NOT_JOINED" and "get_head os (fsm_log self) s = (Return (Ok None), s1)"
    and "attempt_leadership os codec self s1 = Some (self', s2)" and "fsm_state self' = LEADER"
  shows "join os codec self s cenvs fenvs = Some (Return (self', s2, cenvs, fenvs))"
proof -
  have "discover_leader_state os codec self s = Some (Return (Ok None), s1)"
    unfolding discover_leader_state_def by (subst discover_loop.simps) (simp add: assms(2))
  then show ?thesis
    unfolding join_def using assms
    by (subst join_loop.simps) (simp add: join_step_def join_attempt_def, subst join_loop.simps, simp)
qed

lemma join_empty_log:
  assumes "fsm_state self = NOT_JOINED" and "commit_index self = 0"
    and "get_head os (fsm_log self) s = (Return (Ok None), s1)"
    and "put_opts os s1 (path_from os (log_entry_key (log_key_resolver (fsm_log self)) (invert 1)))
           (encode_log_entry codec (leadership_entry self)) = (Ok x, s2)"
  shows "join os codec self s cenvs fenvs =
           Some (Return (self\<lparr>fsm_state := LEADER, commit_index := 1, epoch := 1\<rparr>, s2, cenvs, fenvs))"
proof -
  have app: "append_log os (fsm_log self) 1 (encode_log_entry codec (leadership_entry self)) s1 = Some (Ok x, s2)"
    unfolding append_log_def by (subst append_loop.simps) (simp add: assms(4))
  have "attempt_leadership os codec self s1 =
      Some (self\<lparr>fsm_state := LEADER, commit_index := 1, epoch := 1\<rparr>, s2)"
    unfolding attempt_leadership_def leadership_target_def
    by (simp add: assms(2)) (subst attempt_loop.simps, simp add: app)
  from join_elected [OF assms(1,3) this] show ?thesis by simp
qed

lemma example_first_node:
  "fsm_state (example_fsm 0) = NOT_JOINED" "commit_index (example_fsm 0) = 0"
  "get_head memory (fsm_log (example_fsm 0)) mem_empty = (Return (Ok None), mem_empty)"
  "put_opts memory mem_empty
     (path_from memory (log_entry_key (log_key_resolver (fsm_log (example_fsm 0))) (invert 1)))
     (encode_log_entry example_codec (leadership_entry (example_fsm 0))) =
     (Ok \<lparr>e_tag = None, version = None\<rparr>, example_elected)"
proof -
  have l: "fsm_log (example_fsm 0) = example_log" by (simp add: example_fsm_def fsm_new_def)
  show "fsm_state (example_fsm 0) = NOT_JOINED" "commit_index (example_fsm 0) = 0"
    by (simp_all add: example_fsm_def fsm_new_def)
  show "get_head memory (fsm_log (example_fsm 0)) mem_empty = (Return (Ok None), mem_empty)"
    by (simp add: get_head_def mem_list_def mem_empty_def)
  show "put_opts memory mem_empty
     (path_from memory (log_entry_key (log_key_resolver (fsm_log (example_fsm 0))) (invert 1)))
     (encode_log_entry example_codec (leadership_entry (example_fsm 0))) =
     (Ok \<lparr>e_tag = None, version = None\<rparr>, example_elected)"
    by (simp add: l example_log_simps mem_put_def mem_empty_def example_elected_def example_codec_def)
qed

lemma example_join:
  "join memory example_codec (example_fsm 0) mem_empty cenvs fenvs =
     Some (Return (example_leader, example_elected, cenvs, fenvs))"
  using join_empty_log [OF example_first_node] by (simp add: example_leader_def)

end
