(* ===== verification/S2c_Cluster.thy ===== *)
theory S2c_Cluster
  imports S2c_Leader
begin

text \<open>
  The nodes of a group together. They share nothing but the object store, so a run of the
  group is an interleaving of what each node does, cut at the calls of the store: between two
  puts of one node any other node may act. \<open>node_step\<close> is one such step of a node,
  \<open>interleave\<close> lets the nodes take turns in any order. The operations of \<^verbatim>\<open>src/fsm.rs\<close> are
  shown to be sequences of steps, at every point of their runs and not only where they return
  (\<open>join_at\<close>, \<open>start_at\<close>), and what holds in every reachable state holds of them.
\<close>

section \<open>Steps of one node\<close>

text \<open>An attempt at leadership that is under way: the locals of \<open>attempt_leadership\<close>.\<close>

record attempt =
  at_commit_index :: u64
  at_epoch :: u64
  at_payload :: bytes

definition attempt_of :: "prost_codec \<Rightarrow> fsm \<Rightarrow> attempt" where
  "attempt_of codec f =
     (case leadership_target f of
        (ci, ep) \<Rightarrow> \<lparr>at_commit_index = ci, at_epoch = ep,
                      at_payload = encode_log_entry codec (leadership_entry f)\<rparr>)"

text \<open>
  What the answer of a put means for the attempt. A \<open>Generic\<close> error never ends it: either
  \<open>append\<close> itself tries again, or it returns a transient error and \<open>attempt_leadership\<close>
  calls it again.
\<close>

definition attempt_result ::
  "fsm \<Rightarrow> attempt \<Rightarrow> (put_result, os_error) result \<Rightarrow> fsm \<times> attempt option" where
  "attempt_result f a r =
     (case r of
        Ok _ \<Rightarrow> (f\<lparr>fsm_state := LEADER, commit_index := at_commit_index a, epoch := at_epoch a\<rparr>, None)
      | Err (AlreadyExists _) \<Rightarrow> (f, None)
      | Err (Generic _ _) \<Rightarrow> (f, Some a)
      | Err _ \<Rightarrow> (f\<lparr>fsm_state := STOPPED\<rparr>, None))"

abbreviation entry_path :: "('s, 'h) object_store \<Rightarrow> fsm \<Rightarrow> u64 \<Rightarrow> string" where
  "entry_path os f i \<equiv> path_from os (log_entry_key (log_key_resolver (fsm_log f)) (invert i))"

type_synonym local = "fsm \<times> attempt option"

inductive node_step ::
  "('s, 'h) object_store \<Rightarrow> prost_codec \<Rightarrow> local \<times> 's \<Rightarrow> local \<times> 's \<Rightarrow> bool"
  for os codec where
  begin_attempt: "fsm_state f = NOT_JOINED \<Longrightarrow>
     node_step os codec ((f, None), s) ((f, Some (attempt_of codec f)), s)"
| attempt_put: "put_opts os s (entry_path os f (at_commit_index a)) (at_payload a) = (r, s') \<Longrightarrow>
     node_step os codec ((f, Some a), s) (attempt_result f a r, s')"
| list: "os_list os s p = (l, s') \<Longrightarrow> node_step os codec ((f, None), s) ((f, None), s')"
| get: "os_get os s p = (g, s') \<Longrightarrow> node_step os codec ((f, None), s) ((f, None), s')"
| get_bytes: "os_bytes os s h = (b, s') \<Longrightarrow> node_step os codec ((f, None), s) ((f, None), s')"
| client: "fsm_state f = NOT_JOINED \<Longrightarrow>
     node_step os codec ((f, None), s) ((f\<lparr>fsm_client := c\<rparr>, None), s)"
| followed: "fsm_state f = NOT_JOINED \<Longrightarrow>
     node_step os codec ((f, None), s) ((f\<lparr>fsm_client := c, fsm_state := FOLLOWER\<rparr>, None), s)"
| follower: "fsm_state f = FOLLOWER \<Longrightarrow> follower_step f ev = (left, f', out) \<Longrightarrow>
     node_step os codec ((f, None), s) ((f', None), s)"
| collect: "fsm_state f = LEADER \<Longrightarrow>
     node_step os codec ((f, None), s) ((f\<lparr>followers := fs\<rparr>, None), s)"
| flush: "fsm_state f = LEADER \<Longrightarrow> put_opts os s (entry_path os f (commit_index f)) b = (r, s') \<Longrightarrow>
     node_step os codec ((f, None), s) ((f, None), s')"

inductive_cases node_stepE: "node_step os codec (l, s) (l', s')"

section \<open>Nodes taking turns\<close>

inductive interleave ::
  "('l \<times> 's \<Rightarrow> 'l \<times> 's \<Rightarrow> bool) \<Rightarrow> (nat \<Rightarrow> 'l) \<times> 's \<Rightarrow> (nat \<Rightarrow> 'l) \<times> 's \<Rightarrow> bool"
  for step where
  turn: "step (ls n, s) (l', s') \<Longrightarrow> interleave step (ls, s) (ls(n := l'), s')"

inductive_simps interleave_iff: "interleave step (ls, s) (ls', s')"

lemma interleave_node:
  assumes "step\<^sup>*\<^sup>* (ls n, s) (l', s')"
  shows "(interleave step)\<^sup>*\<^sup>* (ls, s) (ls(n := l'), s')"
  using assms
proof (induction "(l', s')" arbitrary: l' s' rule: rtranclp_induct)
  case base
  then show ?case by simp
next
  case (step y)
  obtain l1 s1 where y: "y = (l1, s1)" by (cases y)
  have "interleave step (ls(n := l1), s1) ((ls(n := l1))(n := l'), s')"
    using step.hyps(2) y by (intro turn) simp
  with step.hyps(3) [OF y] show ?case by (simp add: rtranclp.rtrancl_into_rtrancl)
qed

text \<open>
  The abstract specification of an election: a register that is written once. It starts free,
  and is taken together with its single winner, or taken with no winner at all (a write that
  was reported as failed); nothing changes afterwards.
\<close>

inductive place_taken :: "nat set \<times> bool \<Rightarrow> nat set \<times> bool \<Rightarrow> bool" where
  idle: "place_taken (W, t) (W, t)"
| win: "place_taken ({}, False) ({n}, True)"
| orphan: "place_taken ({}, False) ({}, True)"

text \<open>
  The contract of nodes that compete for one place: an invariant of a node and the store that
  survives what others do to the store, and a place that a node can only come to hold while
  it is free, and that is not free while a node holds it.
\<close>

locale competing_nodes =
  fixes valid :: "'env \<Rightarrow> bool"
    and step :: "'env \<Rightarrow> 'l \<times> 's \<Rightarrow> 'l \<times> 's \<Rightarrow> bool"
    and good :: "'env \<Rightarrow> 's \<Rightarrow> 'l \<Rightarrow> bool"
    and grows :: "'env \<Rightarrow> 's \<Rightarrow> 's \<Rightarrow> bool"
    and holds :: "'l \<Rightarrow> bool"
    and free :: "'env \<Rightarrow> 's \<Rightarrow> bool"
  assumes step_grows: "valid env \<Longrightarrow> step env (l, s) (l', s') \<Longrightarrow> grows env s s'"
    and good_grows: "valid env \<Longrightarrow> grows env s s' \<Longrightarrow> good env s l \<Longrightarrow> good env s' l"
    and step_good: "valid env \<Longrightarrow> step env (l, s) (l', s') \<Longrightarrow> good env s l \<Longrightarrow> good env s' l'"
    and gain: "valid env \<Longrightarrow> step env (l, s) (l', s') \<Longrightarrow> good env s l \<Longrightarrow> holds l' \<Longrightarrow> \<not> holds l \<Longrightarrow>
               free env s"
    and held: "good env s l \<Longrightarrow> holds l \<Longrightarrow> \<not> free env s"
    and keep: "step env (l, s) (l', s') \<Longrightarrow> good env s l \<Longrightarrow> holds l \<Longrightarrow> holds l'"
    and free_before: "grows env s s' \<Longrightarrow> free env s' \<Longrightarrow> free env s"
begin

definition invariant :: "'env \<Rightarrow> (nat \<Rightarrow> 'l) \<times> 's \<Rightarrow> bool" where
  "invariant env c =
     ((\<forall>n. good env (snd c) (fst c n)) \<and>
      (\<forall>n m. holds (fst c n) \<longrightarrow> holds (fst c m) \<longrightarrow> n = m))"

lemma invariant_step:
  assumes "valid env" and "invariant env c" and "interleave (step env) c c'"
  shows "invariant env c'"
  using assms(3,2)
proof (cases rule: interleave.cases)
  case (turn ls n s l' s')
  have good: "good env s (ls m)" for m using assms(2) turn(1) by (simp add: invariant_def)
  have other: "good env s' (ls m)" for m
    using good_grows [OF assms(1) step_grows [OF assms(1) turn(3)] good] .
  have new: "good env s' l'" using step_good [OF assms(1) turn(3) good] .
  have unique: "m = n" if "holds l'" "holds (ls m)" for m
  proof (cases "holds (ls n)")
    case True
    with that assms(2) turn(1) show ?thesis by (simp add: invariant_def)
  next
    case False
    then have "free env s" using gain [OF assms(1) turn(3) good that(1)] by blast
    with held [OF good that(2)] show ?thesis by blast
  qed
  show ?thesis
    using other new unique assms(2) turn(1,2) by (auto simp: invariant_def)
qed

text \<open>
  The abstract course of the competition: who holds the place, and whether it is taken. It is
  taken by the node that comes to hold it or by nobody, once and for all.
\<close>

lemma holders_step:
  assumes "valid env" and "invariant env c" and "interleave (step env) c c'"
  shows "place_taken ({n. holds (fst c n)}, \<not> free env (snd c)) ({n. holds (fst c' n)}, \<not> free env (snd c'))"
  using assms(3)
proof (cases rule: interleave.cases)
  case (turn ls n s l' s')
  have good: "good env s (ls m)" for m using assms(2) turn(1) by (simp add: invariant_def)
  have new: "good env s' l'" using step_good [OF assms(1) turn(3) good] .
  have grow: "grows env s s'" using step_grows [OF assms(1) turn(3)] .
  show ?thesis
  proof (cases "free env s")
    case True
    then have none: "\<not> holds (ls m)" for m using held [OF good] by blast
    show ?thesis
    proof (cases "holds l'")
      case True
      then have "{m. holds ((ls(n := l')) m)} = {n}" "\<not> free env s'" using none held [OF new] by auto
      with none \<open>free env s\<close> turn(1,2) show ?thesis by (simp add: place_taken.win)
    next
      case False
      then have "{m. holds ((ls(n := l')) m)} = {}" using none by auto
      with none \<open>free env s\<close> turn(1,2) show ?thesis
        by (cases "free env s'") (simp_all add: place_taken.idle place_taken.orphan)
    qed
  next
    case False
    then have "\<not> free env s'" using free_before [OF grow] by blast
    moreover have "holds l' \<longleftrightarrow> holds (ls n)"
      using keep [OF turn(3) good] gain [OF assms(1) turn(3) good] False by blast
    then have "{m. holds ((ls(n := l')) m)} = {m. holds (ls m)}" by auto
    ultimately show ?thesis using False turn(1,2) by (simp add: place_taken.idle)
  qed
qed

lemma invariant_run:
  assumes "valid env" and "(interleave (step env))\<^sup>*\<^sup>* c c'" and "invariant env c"
  shows "invariant env c'"
  using assms(2,3) by (induction rule: rtranclp_induct) (auto intro: invariant_step [OF assms(1)])

text \<open>Once the place is taken, who holds it never changes again, nobody included.\<close>

lemma holds_settled:
  assumes "valid env" and "(interleave (step env))\<^sup>*\<^sup>* c c'" and "invariant env c"
    and "\<not> free env (snd c)"
  shows "\<not> free env (snd c') \<and> (holds (fst c' n) \<longleftrightarrow> holds (fst c n))"
  using assms(2)
proof (induction rule: rtranclp_induct)
  case (step y z)
  have good: "good env (snd y) (fst y m)" for m
    using invariant_run [OF assms(1) step.hyps(1) assms(3)] by (simp add: invariant_def)
  from step.hyps(2) show ?case
  proof (cases rule: interleave.cases)
    case (turn ls m s l' s')
    then have "\<not> free env s'" using step.IH free_before step_grows [OF assms(1) turn(3)] by auto
    moreover have "holds l' \<longleftrightarrow> holds (ls m)"
      using keep [OF turn(3)] gain [OF assms(1) turn(3)] good [of m] step.IH turn(1) by auto
    ultimately show ?thesis using step.IH turn by auto
  qed
qed (simp add: assms(4))

end

section \<open>The group\<close>

type_synonym ('s, 'h) group_env =
  "('s, 'h) object_store \<times> ('s \<Rightarrow> string \<rightharpoonup> bytes) \<times> prost_codec \<times> string"

text \<open>The entries of the log of a group.\<close>

definition group_log ::
  "('s, 'h) object_store \<Rightarrow> ('s \<Rightarrow> string \<rightharpoonup> bytes) \<Rightarrow> string \<Rightarrow> 's \<Rightarrow> u64 \<Rightarrow> bytes option" where
  "group_log os C g s i = C s (path_from os (entry_key g i))"

text \<open>The entry with which a leader was elected.\<close>

definition elected_entry :: "fsm \<Rightarrow> log_entry" where
  "elected_entry f =
     \<lparr>le_batch = Some \<lparr>batch_entries = []\<rparr>,
      le_leader_state = Some \<lparr>ls_epoch = epoch f, ls_commit_index = commit_index f,
        ls_node_identity = Some (fsm_node_identity f), ls_followers = []\<rparr>\<rparr>"

definition node_good :: "('s, 'h) group_env \<Rightarrow> 's \<Rightarrow> local \<Rightarrow> bool" where
  "node_good env s l =
     (case env of (os, C, codec, g) \<Rightarrow> case l of (f, a) \<Rightarrow>
        log_key_resolver (fsm_log f) = keys_resolver_new g \<and>
        (a = None \<or> fsm_state f = NOT_JOINED \<and> a = Some (attempt_of codec f)) \<and>
        (if fsm_state f = LEADER
         then commit_index f = 1 \<and> epoch f = 1 \<and>
              group_log os C g s 1 = Some (encode_log_entry codec (elected_entry f))
         else commit_index f = 0 \<and> epoch f = 0))"

definition group_valid :: "('s, 'h) group_env \<Rightarrow> bool" where
  "group_valid env = (case env of (os, C, codec, g) \<Rightarrow> create_store os C)"

definition group_step :: "('s, 'h) group_env \<Rightarrow> local \<times> 's \<Rightarrow> local \<times> 's \<Rightarrow> bool" where
  "group_step env = (case env of (os, C, codec, g) \<Rightarrow> node_step os codec)"

definition group_grows :: "('s, 'h) group_env \<Rightarrow> 's \<Rightarrow> 's \<Rightarrow> bool" where
  "group_grows env s s' = (case env of (os, C, codec, g) \<Rightarrow> C s \<subseteq>\<^sub>m C s')"

definition group_free :: "('s, 'h) group_env \<Rightarrow> 's \<Rightarrow> bool" where
  "group_free env s = (case env of (os, C, codec, g) \<Rightarrow> group_log os C g s 1 = None)"

definition leads :: "local \<Rightarrow> bool" where
  "leads l = (fsm_state (fst l) = LEADER)"

lemmas group_env_defs = group_valid_def group_step_def group_grows_def group_free_def

lemma node_step_mono:
  assumes "create_store os C" and "node_step os codec (l, s) (l', s')"
  shows "C s \<subseteq>\<^sub>m C s'"
  using assms(2)
  by (cases rule: node_step.cases) (use create_storeD [OF assms(1)] in auto)

lemma follower_step_keeps:
  assumes "follower_step f ev = (left, f', out)" and "fsm_state f = FOLLOWER"
  shows "fsm_state f' \<in> {FOLLOWER, NOT_JOINED}" "commit_index f' = commit_index f" "epoch f' = epoch f"
    "fsm_log f' = fsm_log f"
  using assms
  by (auto simp: follower_step_def Let_def
      split: recv_outcome.splits option.splits body.splits if_splits)

lemma entry_path_group:
  "log_key_resolver (fsm_log f) = keys_resolver_new g \<Longrightarrow> entry_path os f i = path_from os (entry_key g i)"
  by (simp add: entry_key_def)

lemma attempt_of_fresh:
  assumes "commit_index f = 0"
  shows "attempt_of codec f =
    \<lparr>at_commit_index = 1, at_epoch = 1,
     at_payload = encode_log_entry codec
       (elected_entry (f\<lparr>fsm_state := LEADER, commit_index := 1, epoch := 1\<rparr>))\<rparr>"
  using assms by (simp add: attempt_of_def leadership_target_def leadership_entry_def elected_entry_def)

text \<open>The one step in which a node becomes leader is a successful put at index 1.\<close>

lemma attempt_put_good:
  assumes "create_store os C" and "node_good (os, C, codec, g) s (f, Some a)"
    and "put_opts os s (entry_path os f (at_commit_index a)) (at_payload a) = (r, s')"
  shows "node_good (os, C, codec, g) s' (attempt_result f a r)"
    and "leads (attempt_result f a r) \<Longrightarrow> group_free (os, C, codec, g) s"
proof -
  have f: "log_key_resolver (fsm_log f) = keys_resolver_new g" "fsm_state f = NOT_JOINED"
    "commit_index f = 0" "epoch f = 0" "a = attempt_of codec f"
    using assms(2) by (simp_all add: node_good_def)
  let ?e = "encode_log_entry codec (elected_entry (f\<lparr>fsm_state := LEADER, commit_index := 1, epoch := 1\<rparr>))"
  have put: "put_opts os s (path_from os (entry_key g 1)) ?e = (r, s')"
    using assms(3) by (simp add: f attempt_of_fresh entry_key_def)
  show "node_good (os, C, codec, g) s' (attempt_result f a r)"
  proof (cases r)
    case (Ok x)
    with create_store_put_ok [OF assms(1)] put show ?thesis
      by (simp add: f attempt_result_def node_good_def group_log_def attempt_of_fresh)
  next
    case (Err e)
    then show ?thesis
      by (cases e) (simp_all add: f attempt_result_def node_good_def)
  qed
  show "group_free (os, C, codec, g) s" if "leads (attempt_result f a r)"
  proof (cases r)
    case (Ok x)
    with create_store_put_ok [OF assms(1)] put show ?thesis
      by (simp add: group_free_def group_log_def)
  next
    case (Err e)
    with that show ?thesis by (cases e) (simp_all add: f attempt_result_def leads_def)
  qed
qed

lemma node_good_grows:
  assumes "C s \<subseteq>\<^sub>m C s'" and "node_good (os, C, codec, g) s l"
  shows "node_good (os, C, codec, g) s' l"
proof -
  have "group_log os C g s' i = Some b" if "group_log os C g s i = Some b" for i b
    using that assms(1) by (auto simp: group_log_def map_le_def dom_def)
  with assms(2) show ?thesis by (auto simp: node_good_def split: prod.splits if_splits)
qed

lemma elected_entry_followers [simp]: "elected_entry (f\<lparr>followers := fs\<rparr>) = elected_entry f"
  by (simp add: elected_entry_def)

lemma attempt_of_client [simp]: "attempt_of codec (f\<lparr>fsm_client := c\<rparr>) = attempt_of codec f"
  by (simp add: attempt_of_def leadership_target_def leadership_entry_def)

lemma node_step_good:
  assumes "create_store os C" and "node_step os codec (l, s) (l', s')"
    and "node_good (os, C, codec, g) s l"
  shows "node_good (os, C, codec, g) s' l'"
proof -
  note mono = node_good_grows [OF node_step_mono [OF assms(1,2)] assms(3)]
  from assms(2) show ?thesis
  proof (cases rule: node_step.cases)
    case (attempt_put f a r)
    with attempt_put_good(1) [OF assms(1)] assms(3) show ?thesis by simp
  next
    case (follower f ev left f' out)
    with mono follower_step_keeps [OF follower(5,4)] show ?thesis
      by (auto simp: node_good_def)
  qed (use mono in \<open>auto simp: node_good_def\<close>)
qed

lemma node_step_gain:
  assumes "create_store os C" and "node_step os codec (l, s) (l', s')"
    and "node_good (os, C, codec, g) s l" and "leads l'" and "\<not> leads l"
  shows "group_free (os, C, codec, g) s"
  using assms(2)
proof (cases rule: node_step.cases)
  case (attempt_put f a r)
  with attempt_put_good(2) [OF assms(1)] assms(3,4) show ?thesis by simp
next
  case (follower f ev left f' out)
  with follower_step_keeps(1) [OF follower(5,4)] assms(4) show ?thesis by (auto simp: leads_def)
qed (use assms(4,5) in \<open>auto simp: leads_def\<close>)

lemma node_step_keep:
  assumes "node_step os codec (l, s) (l', s')" and "node_good (os, C, codec, g) s l" and "leads l"
  shows "leads l'"
  using assms
  by (cases rule: node_step.cases) (auto simp: leads_def node_good_def)

interpretation election: competing_nodes group_valid group_step node_good group_grows leads group_free
proof (unfold_locales, goal_cases)
  case (1 env l s l' s')
  then show ?case by (cases env) (auto simp: group_env_defs intro: node_step_mono [of _ _ _ l s l' s'])
next
  case (2 env s s' l)
  then show ?case by (cases env) (auto simp: group_env_defs intro: node_good_grows [of _ s s' _ _ _ l])
next
  case (3 env l s l' s')
  then show ?case
    by (cases env) (auto simp: group_env_defs intro: node_step_good [of _ _ _ l s l' s'])
next
  case (4 env l s l' s')
  then show ?case
    by (cases env) (auto simp: group_valid_def group_step_def intro: node_step_gain [of _ _ _ l s l' s'])
next
  case (5 env s l)
  then show ?case by (cases env; cases l) (auto simp: node_good_def leads_def group_free_def)
next
  case (6 env l s l' s')
  then show ?case
    by (cases env) (auto simp: group_step_def intro: node_step_keep [of _ _ l s l' s'])
next
  case (7 env s s')
  then show ?case
    by (cases env) (auto simp: group_grows_def group_free_def group_log_def map_le_def dom_def)
qed

section \<open>Reachable groups\<close>

text \<open>A group whose nodes have just been created, over any store.\<close>

definition fresh_group :: "string \<Rightarrow> (nat \<Rightarrow> local) \<times> 's \<Rightarrow> bool" where
  "fresh_group g c =
     (\<forall>n. snd (fst c n) = None \<and> fsm_state (fst (fst c n)) = NOT_JOINED \<and>
          commit_index (fst (fst c n)) = 0 \<and> epoch (fst (fst c n)) = 0 \<and>
          log_key_resolver (fsm_log (fst (fst c n))) = keys_resolver_new g)"

definition reachable ::
  "('s, 'h) object_store \<Rightarrow> prost_codec \<Rightarrow> string \<Rightarrow> (nat \<Rightarrow> local) \<times> 's \<Rightarrow> bool" where
  "reachable os codec g c = (\<exists>c0. fresh_group g c0 \<and> (interleave (node_step os codec))\<^sup>*\<^sup>* c0 c)"

lemma fresh_group_invariant:
  assumes "fresh_group g c"
  shows "election.invariant (os, C, codec, g) c"
proof -
  have "node_good (os, C, codec, g) (snd c) (fst c n)" "\<not> leads (fst c n)" for n
    using assms [unfolded fresh_group_def, rule_format, of n]
    by (cases "fst c n"; simp add: node_good_def leads_def)+
  then show ?thesis by (simp add: election.invariant_def)
qed

lemma reachable_invariant:
  assumes "create_store os C" and "reachable os codec g c"
  shows "election.invariant (os, C, codec, g) c"
proof -
  from assms(2) obtain c0 where "fresh_group g c0" "(interleave (node_step os codec))\<^sup>*\<^sup>* c0 c"
    unfolding reachable_def by blast
  then show ?thesis
    using election.invariant_run [of "(os, C, codec, g)" c0 c] fresh_group_invariant [of g c0 os C codec]
      assms(1)
    by (simp add: group_valid_def group_step_def)
qed

section \<open>The operations as sequences of steps\<close>

lemma append_loop_generic:
  assumes "append_loop os key payload backoff s = Some (r, s')" and "r = Err e" and "\<not> is_transient e"
  shows "e \<noteq> Generic store source"
  using assms by (induction rule: append_loop_induct) auto

lemma append_steps:
  assumes "append_log os (fsm_log f) (at_commit_index a) (at_payload a) s = Some (r, s')"
  shows "(node_step os codec)\<^sup>*\<^sup>* ((f, Some a), s) (attempt_result f a r, s')"
  using assms unfolding append_log_def
proof (induction rule: append_loop_induct)
  case (last backoff s r s')
  from last(1) show ?case by (intro r_into_rtranclp attempt_put)
next
  case (retry backoff backoff' s store source s1 r s')
  have "node_step os codec ((f, Some a), s) ((f, Some a), s1)"
    using attempt_put [OF retry(1), of codec] by (simp add: attempt_result_def)
  then show ?case using retry.IH by (rule converse_rtranclp_into_rtranclp)
qed

lemma attempt_steps:
  assumes "attempt_loop os f (at_commit_index a) (at_epoch a) (at_payload a) backoff s = Some (f', s')"
  shows "(node_step os codec)\<^sup>*\<^sup>* ((f, Some a), s) ((f', None), s')"
  using assms
proof (induction rule: attempt_loop_induct)
  case (won backoff s x s')
  from append_steps [OF won, of codec] show ?case by (simp add: attempt_result_def)
next
  case (taken backoff s q s')
  from append_steps [OF taken, of codec] show ?case by (simp add: attempt_result_def)
next
  case (stopped backoff s e s')
  then have "attempt_result f a (Err e) = (f\<lparr>fsm_state := STOPPED\<rparr>, None)"
    using append_loop_generic [OF stopped(1) [unfolded append_log_def] refl stopped(2)]
    by (cases e) (auto simp: attempt_result_def)
  with append_steps [OF stopped(1), of codec] show ?case by simp
next
  case (retry backoff backoff' s e s1 f' s')
  then have "attempt_result f a (Err e) = (f, Some a)"
    by (cases e) (simp_all add: attempt_result_def)
  with append_steps [OF retry(1), of codec] retry.IH show ?case by simp
qed

lemma attempt_leadership_steps:
  assumes "attempt_leadership os codec f s = Some (f', s')" and "fsm_state f = NOT_JOINED"
  shows "(node_step os codec)\<^sup>*\<^sup>* ((f, None), s) ((f', None), s')"
proof -
  obtain ci ep where t: "leadership_target f = (ci, ep)" by fastforce
  from begin_attempt [OF assms(2), of os codec s] show ?thesis
    by (rule converse_rtranclp_into_rtranclp, intro attempt_steps)
      (use assms(1) in \<open>simp add: attempt_leadership_def attempt_of_def t\<close>)
qed

lemma follower_loop_steps:
  assumes "follower_loop f evs = (left, f', out, rest)" and "fsm_state f = FOLLOWER"
  shows "(node_step os codec)\<^sup>*\<^sup>* ((f, None), s) ((f', None), s)"
  using assms
proof (induction evs arbitrary: f out)
  case (Cons ev evs)
  obtain l1 f1 out1 where step: "follower_step f ev = (l1, f1, out1)" by (metis prod_cases3)
  note one = follower [OF Cons.prems(2) step, of os codec s]
  show ?case
  proof (cases l1)
    case True
    with step Cons.prems(1) one show ?thesis by (simp add: r_into_rtranclp)
  next
    case False
    then have "fsm_state f1 = FOLLOWER"
      using step Cons.prems(2)
      by (auto simp: follower_step_def Let_def split: recv_outcome.splits option.splits body.splits if_splits)
    moreover from False step Cons.prems(1) obtain out2 where "follower_loop f1 evs = (left, f', out2, rest)"
      by (auto split: prod.splits)
    ultimately have "(node_step os codec)\<^sup>*\<^sup>* ((f1, None), s) ((f', None), s)" using Cons.IH by blast
    with one show ?thesis by (rule converse_rtranclp_into_rtranclp)
  qed
qed simp

lemma flush_steps:
  assumes "append_log os (fsm_log f) (commit_index f) b s = Some (r, s')" and "fsm_state f = LEADER"
  shows "(node_step os codec)\<^sup>*\<^sup>* ((f, None), s) ((f, None), s')"
  using assms(1) unfolding append_log_def
proof (induction rule: append_loop_induct)
  case (last backoff s r s')
  from flush [OF assms(2) last(1), of codec] show ?case by (rule r_into_rtranclp)
next
  case (retry backoff backoff' s store source s1 r s')
  from flush [OF assms(2) retry(1), of codec] retry.IH show ?case by (rule converse_rtranclp_into_rtranclp)
qed

lemma leader_iterations_steps:
  assumes "leader_iterations os codec f acc s inps = Some (Return (left, f', acc', s', rest))"
    and "fsm_state f = LEADER"
  shows "(node_step os codec)\<^sup>*\<^sup>* ((f, None), s) ((f', None), s')"
  using assms
proof (induction inps arbitrary: f acc s)
  case (Cons inp inps)
  from Cons.prems(1) obtain left1 f1 acc1 s1 where
    step: "leader_step os codec f acc s inp = Some (Return (left1, f1, acc1, s1))"
    by (auto split: option.splits exec.splits)
  from leader_step_shape [OF step] obtain fs where f1: "f1 = f\<lparr>followers := fs\<rparr>" by blast
  have "(node_step os codec)\<^sup>*\<^sup>* ((f, None), s) ((f, None), s1)"
    using leader_step_shape [OF step] flush_steps [OF _ Cons.prems(2), of os _ s _ s1 codec] by auto
  also from collect [OF Cons.prems(2)] have "node_step os codec ((f, None), s1) ((f1, None), s1)"
    unfolding f1 .
  finally have one: "(node_step os codec)\<^sup>*\<^sup>* ((f, None), s) ((f1, None), s1)" .
  show ?case
  proof (cases left1)
    case True
    with step Cons.prems(1) one show ?thesis by simp
  next
    case False
    with step Cons.prems(1)
    have "leader_iterations os codec f1 acc1 s1 inps = Some (Return (left, f', acc', s', rest))" by simp
    with Cons.IH [of f1 acc1 s1] Cons.prems(2) one show ?thesis by (simp add: f1)
  qed
qed simp

lemma get_head_step:
  assumes "get_head os lg s = (r, s')"
  shows "node_step os codec ((f, None), s) ((f, None), s')"
proof -
  obtain stream s1 where l: "os_list os s (path_from os (log_prefix (log_key_resolver lg))) = (stream, s1)"
    by fastforce
  with assms have "s1 = s'" by (simp add: get_head_def)
  with list [OF l, of codec f] show ?thesis by simp
qed

lemma get_at_steps:
  assumes "get_at os lg i s = Some (r, s')"
  shows "(node_step os codec)\<^sup>*\<^sup>* ((f, None), s) ((f, None), s')"
  using assms unfolding get_at_def
proof (induction rule: get_at_loop_induct)
  case (last backoff s re s1 r s')
  then show ?case
  proof (elim disjE exE conjE)
    assume a: "os_get os s (path_from os (log_entry_key (log_key_resolver lg) (invert i))) = (Ok re, s1)"
      and b: "os_bytes os s1 re = (r, s')"
    from get_bytes [OF b, of codec f] have "(node_step os codec)\<^sup>*\<^sup>* ((f, None), s1) ((f, None), s')"
      by (rule r_into_rtranclp)
    with get [OF a, of codec f] show ?thesis by (rule converse_rtranclp_into_rtranclp)
  next
    fix e
    assume "os_get os s (path_from os (log_entry_key (log_key_resolver lg) (invert i))) = (Err e, s')"
    from get [OF this, of codec f] show ?thesis by (rule r_into_rtranclp)
  qed
next
  case (retry_get backoff backoff' s e s1 r s')
  from get [OF retry_get(1), of codec f] retry_get.IH show ?case by (rule converse_rtranclp_into_rtranclp)
next
  case (retry_bytes backoff backoff' s re s1 e s2 r s')
  from get_bytes [OF retry_bytes(2), of codec f] retry_bytes.IH
  have "(node_step os codec)\<^sup>*\<^sup>* ((f, None), s1) ((f, None), s')" by (rule converse_rtranclp_into_rtranclp)
  with get [OF retry_bytes(1), of codec f] show ?case by (rule converse_rtranclp_into_rtranclp)
qed

lemma discover_steps:
  assumes ret: "discover_loop os codec lg backoff s = Some (r, s')"
  shows "(node_step os codec)\<^sup>*\<^sup>* ((f, None), s) ((f, None), s')"
proof -
  let ?steps = "\<lambda>s s'. (node_step os codec)\<^sup>*\<^sup>* ((f, None), s) ((f, None), s')"
  let ?Q = "\<lambda>os' codec' lg' (backoff :: backoff_counter) s
      (res :: (leader_state option, os_error) result exec \<times> 'a).
     os' = os \<longrightarrow> codec' = codec \<longrightarrow> ?steps s (snd res)"
  have "?Q os codec lg backoff s (r, s')"
  proof (rule discover_loop.raw_induct [where P = ?Q, OF _ ret], intro impI, hypsubst)
    fix loop lg backoff s and res :: "(leader_state option, os_error) result exec \<times> 'a"
    assume IH: "\<And>os' codec' lg' backoff s res.
        loop os' codec' lg' backoff s = Some res \<Longrightarrow> ?Q os' codec' lg' backoff s res"
      and body: "(case get_head os lg s of
          (Panic m, s1) \<Rightarrow> Some (Panic m, s1)
        | (Return (Ok None), s1) \<Rightarrow> Some (Return (Ok None), s1)
        | (Return (Ok (Some head)), s1) \<Rightarrow>
            (case get_at os lg head s1 of
               None \<Rightarrow> None
             | Some (Ok bs, s2) \<Rightarrow>
                 (case parse_leader_state codec bs of
                    Return leader_state \<Rightarrow> Some (Return (Ok (Some leader_state)), s2)
                  | Panic m \<Rightarrow> Some (Panic m, s2))
             | Some (Err e, s2) \<Rightarrow>
                 if is_transient e \<and> can_attempt backoff
                 then loop os codec lg (awaited backoff) s2
                 else Some (Return (Err e), s2))
        | (Return (Err e), s1) \<Rightarrow>
            if is_transient e \<and> can_attempt backoff
            then loop os codec lg (awaited backoff) s1
            else Some (Return (Err e), s1)) = Some res"
    obtain h s1 where head: "get_head os lg s = (h, s1)" by fastforce
    have "?steps s1 (snd res)"
      using body IH [of os codec lg "awaited backoff" _ res] get_at_steps [of os lg _ s1 _ _ codec f]
      by (auto simp: head split: exec.splits result.splits option.splits if_splits)
        (blast intro: rtranclp_trans)
    with get_head_step [OF head, of codec f] show "?steps s (snd res)"
      by (rule converse_rtranclp_into_rtranclp)
  qed
  then show ?thesis by simp
qed

lemma join_attempt_steps:
  assumes "join_attempt os codec f s cenvs fenvs = Some (Return (left, f', s', ce, fe))"
    and "fsm_state f = NOT_JOINED"
  shows "(node_step os codec)\<^sup>*\<^sup>* ((f, None), s) ((f', None), s')"
  using assms attempt_leadership_steps [of os codec f s f' s']
  by (auto simp: join_attempt_def split: option.splits)

lemma join_attempt_client_steps:
  assumes "join_attempt os codec (f\<lparr>fsm_client := c\<rparr>) s cenvs fenvs = Some (Return (left, f', s', ce, fe))"
    and "fsm_state f = NOT_JOINED"
  shows "(node_step os codec)\<^sup>*\<^sup>* ((f, None), s) ((f', None), s')"
  using client [OF assms(2), of os codec s c] join_attempt_steps [OF assms(1)] assms(2)
  by (simp add: converse_rtranclp_into_rtranclp)

lemma join_follow_steps:
  assumes "join_follow os codec f c s cenvs fenvs = Some (Return (left, f', s', ce, fe))"
    and nj: "fsm_state f = NOT_JOINED"
  shows "(node_step os codec)\<^sup>*\<^sup>* ((f, None), s) ((f', None), s')"
  using assms(1) r_into_rtranclp [of "node_step os codec", OF client [OF nj, of os codec s]]
    r_into_rtranclp [of "node_step os codec", OF followed [OF nj, of os codec s]] join_attempt_client_steps [OF _ nj]
  by (auto simp: join_follow_def split: option.splits result.splits if_splits)

lemma join_leader_steps:
  assumes "join_leader os codec f leader_state s cenvs fenvs = Some (Return (left, f', s', ce, fe))"
    and nj: "fsm_state f = NOT_JOINED"
  shows "(node_step os codec)\<^sup>*\<^sup>* ((f, None), s) ((f', None), s')"
  using assms(1) r_into_rtranclp [of "node_step os codec", OF client [OF nj, of os codec s]]
    join_follow_steps [OF _ nj] join_attempt_client_steps [OF _ nj]
  by (auto simp: join_leader_def split: option.splits result.splits exec.splits if_splits)

text \<open>One iteration of \<open>join\<close>.\<close>

lemma join_step_steps:
  assumes "join_step os codec f backoff s cenvs fenvs = (backoff', Some (Return (left, f', s', ce, fe)))"
    and nj: "fsm_state f = NOT_JOINED"
  shows "(node_step os codec)\<^sup>*\<^sup>* ((f, None), s) ((f', None), s')"
proof -
  obtain d s1 where disc: "discover_leader_state os codec f s = Some (d, s1)"
    using assms(1) by (cases "discover_leader_state os codec f s") (auto simp: join_step_def)
  have "(node_step os codec)\<^sup>*\<^sup>* ((f, None), s) ((f, None), s1)"
    using disc unfolding discover_leader_state_def by (rule discover_steps)
  also have "(node_step os codec)\<^sup>*\<^sup>* ((f, None), s1) ((f', None), s')"
    using assms(1) join_leader_steps [OF _ nj] join_attempt_steps [OF _ nj]
    by (auto simp: join_step_def disc split: exec.splits result.splits option.splits if_splits)
  finally show ?thesis .
qed

lemma join_steps:
  assumes ret: "join_loop os codec f backoff s cenvs fenvs = Some (Return (f', s', ce', fe'))"
  shows "(node_step os codec)\<^sup>*\<^sup>* ((f, None), s) ((f', None), s')"
proof -
  let ?steps = "\<lambda>f s. (node_step os codec)\<^sup>*\<^sup>* ((f, None), s) ((f', None), s')"
  let ?Q = "\<lambda>os' codec' f (backoff :: backoff_counter) s (cenvs :: connect_env list) (fenvs :: follow_env list)
      (res :: (fsm \<times> 'a \<times> connect_env list \<times> follow_env list) exec).
     os' = os \<longrightarrow> codec' = codec \<longrightarrow> res = Return (f', s', ce', fe') \<longrightarrow> ?steps f s"
  have "?Q os codec f backoff s cenvs fenvs (Return (f', s', ce', fe'))"
  proof (rule join_loop.raw_induct [where P = ?Q, OF _ ret], goal_cases)
    case (1 loop os' codec' f backoff s cenvs fenvs res)
    show ?case
    proof (intro impI)
      assume eq: "os' = os" "codec' = codec" "res = Return (f', s', ce', fe')"
      note body = 1(2) [unfolded eq]
      show "?steps f s"
      proof (cases "fsm_state f = NOT_JOINED")
        case False
        with body show ?thesis by simp
      next
        case nj: True
        with body obtain b' left f1 s1 ce fe where
          step: "join_step os codec f backoff s cenvs fenvs = (b', Some (Return (left, f1, s1, ce, fe)))"
          and cont: "(if left then Some (Return (f1, s1, ce, fe)) else loop os codec f1 b' s1 ce fe) =
            Some (Return (f', s', ce', fe'))"
          by (auto split: prod.splits option.splits exec.splits)
        have "?steps f1 s1"
          using cont 1(1) [of os codec f1 b' s1 ce fe] by (auto split: if_splits)
        with join_step_steps [OF step nj] show ?thesis by (rule rtranclp_trans)
      qed
    qed
  qed
  then show ?thesis by simp
qed

lemma fsm_round_steps:
  assumes "fsm_round os codec f s inp = Some (Return (f', s', inp'))"
  shows "(node_step os codec)\<^sup>*\<^sup>* ((f, None), s) ((f', None), s')"
proof (cases "fsm_state f")
  case NOT_JOINED
  with assms show ?thesis
    using join_steps [of os codec f _ s "ni_connects inp" "ni_follows inp"]
    by (auto simp: fsm_round_def join_def split: option.splits exec.splits)
next
  case FOLLOWER
  with assms show ?thesis
    using follower_loop_steps [OF _ FOLLOWER] by (auto simp: fsm_round_def split: prod.splits if_splits)
next
  case LEADER
  with assms show ?thesis
    using leader_iterations_steps [OF _ LEADER]
    by (auto simp: fsm_round_def leader_loop_def split: option.splits exec.splits if_splits)
next
  case STOPPED
  with assms show ?thesis by (simp add: fsm_round_def)
qed

text \<open>
  Most runs never return: a leader leads for ever, a follower waits for its next message. So
  what a run does is what it has done by each of its points. The points of \<open>join\<close> lie before
  each of its iterations and after each discovery of the leader; those of \<open>start\<close> lie before
  each of its rounds, at the points of \<open>join\<close>, and after any number of messages of the
  follower and of iterations of the leader.
\<close>

inductive join_at ::
  "('s, 'h) object_store \<Rightarrow> prost_codec \<Rightarrow> fsm \<Rightarrow> backoff_counter \<Rightarrow> 's \<Rightarrow> connect_env list \<Rightarrow>
   follow_env list \<Rightarrow> fsm \<Rightarrow> 's \<Rightarrow> bool"
  for os codec where
  join_here: "join_at os codec f backoff s cenvs fenvs f s"
| join_discovered: "fsm_state f = NOT_JOINED \<Longrightarrow> discover_leader_state os codec f s = Some (r, s') \<Longrightarrow>
     join_at os codec f backoff s cenvs fenvs f s'"
| join_iterated: "fsm_state f = NOT_JOINED \<Longrightarrow>
     join_step os codec f backoff s cenvs fenvs = (backoff1, Some (Return (False, f1, s1, cenvs1, fenvs1))) \<Longrightarrow>
     join_at os codec f1 backoff1 s1 cenvs1 fenvs1 f' s' \<Longrightarrow>
     join_at os codec f backoff s cenvs fenvs f' s'"

inductive start_at ::
  "('s, 'h) object_store \<Rightarrow> prost_codec \<Rightarrow> fsm \<Rightarrow> 's \<Rightarrow> node_input \<Rightarrow> fsm \<Rightarrow> 's \<Rightarrow> bool"
  for os codec where
  start_here: "start_at os codec f s inp f s"
| start_round: "fsm_state f \<noteq> STOPPED \<Longrightarrow> fsm_round os codec f s inp = Some (Return (f1, s1, inp1)) \<Longrightarrow>
     start_at os codec f1 s1 inp1 f' s' \<Longrightarrow> start_at os codec f s inp f' s'"
| start_joining: "fsm_state f = NOT_JOINED \<Longrightarrow>
     join_at os codec f (backoff_new (retry (fsm_options f))) s (ni_connects inp) (ni_follows inp) f' s' \<Longrightarrow>
     start_at os codec f s inp f' s'"
| start_following: "fsm_state f = FOLLOWER \<Longrightarrow>
     follower_loop f (take k (ni_recvs inp)) = (left, f', out, rest) \<Longrightarrow> start_at os codec f s inp f' s"
| start_leading: "fsm_state f = LEADER \<Longrightarrow>
     leader_loop os codec f s (take k (ni_leads inp)) = Some (Return (left, f', acc, s', rest)) \<Longrightarrow>
     start_at os codec f s inp f' s'"

lemma join_at_steps:
  "join_at os codec f backoff s cenvs fenvs f' s' \<Longrightarrow> (node_step os codec)\<^sup>*\<^sup>* ((f, None), s) ((f', None), s')"
proof (induction rule: join_at.induct)
  case (join_discovered f s r s' backoff cenvs fenvs)
  then show ?case unfolding discover_leader_state_def by (intro discover_steps)
next
  case (join_iterated f backoff s cenvs fenvs backoff1 f1 s1 cenvs1 fenvs1 f' s')
  from join_step_steps [OF join_iterated.hyps(2,1)] join_iterated.IH show ?case by (rule rtranclp_trans)
qed simp

lemma start_at_steps:
  "start_at os codec f s inp f' s' \<Longrightarrow> (node_step os codec)\<^sup>*\<^sup>* ((f, None), s) ((f', None), s')"
proof (induction rule: start_at.induct)
  case (start_round f s inp f1 s1 inp1 f' s')
  from fsm_round_steps [OF start_round.hyps(2)] start_round.IH show ?case by (rule rtranclp_trans)
next
  case (start_joining f s inp f' s')
  then show ?case by (intro join_at_steps)
next
  case (start_following f k inp left f' out rest s)
  then show ?case by (intro follower_loop_steps)
next
  case (start_leading f s k inp left f' acc s' rest)
  then show ?case unfolding leader_loop_def by (intro leader_iterations_steps)
qed simp

text \<open>What \<open>start\<close> returns is one of its points, the one in \<open>STOPPED\<close>.\<close>

lemma fsm_start_at:
  assumes ret: "fsm_start os codec f s inp = Some (Return (f', s'))"
  shows "start_at os codec f s inp f' s' \<and> fsm_state f' = STOPPED"
proof -
  let ?ends = "\<lambda>f s inp. start_at os codec f s inp f' s' \<and> fsm_state f' = STOPPED"
  let ?Q = "\<lambda>os' codec' f s (inp :: node_input) (res :: (fsm \<times> 'a) exec).
     os' = os \<longrightarrow> codec' = codec \<longrightarrow> res = Return (f', s') \<longrightarrow> ?ends f s inp"
  have "?Q os codec f s inp (Return (f', s'))"
  proof (rule fsm_start.raw_induct [where P = ?Q, OF _ ret], goal_cases)
    case (1 loop os' codec' f s inp res)
    show ?case
    proof (intro impI)
      assume eq: "os' = os" "codec' = codec" "res = Return (f', s')"
      note body = 1(2) [unfolded eq]
      show "?ends f s inp"
      proof (cases "fsm_state f = STOPPED")
        case True
        with body show ?thesis by (simp add: start_here)
      next
        case False
        with body obtain f1 s1 inp1 where round: "fsm_round os codec f s inp = Some (Return (f1, s1, inp1))"
          and cont: "loop os codec f1 s1 inp1 = Some (Return (f', s'))"
          by (auto split: option.splits exec.splits)
        from 1(1) [OF cont] start_round [OF False round] show ?thesis by simp
      qed
    qed
  qed
  then show ?thesis by simp
qed

section \<open>Properties\<close>

text \<open>The example: a group of new nodes over the store in memory; node 0 becomes leader.\<close>

definition example_group :: "nat \<Rightarrow> local" where
  "example_group n = (example_fsm 0, None)"

definition example_led_group :: "nat \<Rightarrow> local" where
  "example_led_group = example_group(0 := (example_leader, None))"

lemma example_group_fresh: "fresh_group ''g'' (example_group, s)"
  by (simp add: fresh_group_def example_group_def example_fsm_def fsm_new_def example_log_def s2c_log_new_def)

definition example_contender :: local where
  "example_contender = (example_fsm 0, Some (attempt_of example_codec (example_fsm 0)))"

lemma example_contender_step:
  "node_step memory example_codec (example_contender, mem_empty) ((example_leader, None), example_elected)"
proof -
  let ?a = "attempt_of example_codec (example_fsm 0)"
  have a: "at_commit_index ?a = 1" "at_epoch ?a = 1" "at_payload ?a = encode_log_entry example_codec (leadership_entry (example_fsm 0))"
    by (simp_all add: attempt_of_def leadership_target_def example_fsm_def fsm_new_def)
  have "node_step memory example_codec ((example_fsm 0, Some ?a), mem_empty)
      (attempt_result (example_fsm 0) ?a (Ok \<lparr>e_tag = None, version = None\<rparr>), example_elected)"
    using example_first_node(4) by (intro attempt_put) (simp add: a)
  then show ?thesis
    by (simp add: example_contender_def attempt_result_def a example_leader_def)
qed

lemma example_led_steps:
  "(node_step memory example_codec)\<^sup>*\<^sup>* (example_group 0, mem_empty) ((example_leader, None), example_elected)"
  using attempt_leadership_steps [OF example_attempt]
  by (simp add: example_group_def example_leader_def example_elected_def example_fsm_def fsm_new_def)

lemma example_led_reachable: "reachable memory example_codec ''g'' (example_led_group, example_elected)"
  unfolding reachable_def example_led_group_def
  by (intro exI [of _ "(example_group, mem_empty)"] conjI example_group_fresh
      interleave_node example_led_steps)

text \<open>
  C1: a group never has two leaders. In every state that any number of new nodes can reach,
  by any interleaving of their puts, reads, heartbeats and batches and with any failures of
  the store, at most one node leads; it leads at commit index 1 and epoch 1, and entry 1 of
  the log is its own.
\<close>

theorem at_most_one_leader:
  assumes "create_store os C" and "reachable os codec g (nodes, s)"
    and "fsm_state (fst (nodes n)) = LEADER"
  shows "(\<forall>m. fsm_state (fst (nodes m)) = LEADER \<longrightarrow> m = n) \<and>
         commit_index (fst (nodes n)) = 1 \<and> epoch (fst (nodes n)) = 1 \<and>
         group_log os C g s 1 = Some (encode_log_entry codec (elected_entry (fst (nodes n))))"
proof -
  note inv = reachable_invariant [OF assms(1,2), unfolded election.invariant_def]
  then have "node_good (os, C, codec, g) s (nodes n)"
    and "\<forall>m. leads (nodes m) \<longrightarrow> leads (nodes n) \<longrightarrow> m = n" by simp_all
  with assms(3) show ?thesis
    by (cases "nodes n") (simp add: node_good_def leads_def)
qed

theorem at_most_one_leader_witness:
  "group_log memory mem_contents ''g'' example_elected 1 =
     Some (encode_log_entry example_codec (elected_entry example_leader)) \<and>
   fsm_state (fst (example_led_group 1)) \<noteq> LEADER"
proof -
  have "fst (example_led_group 0) = example_leader" by (simp add: example_led_group_def)
  moreover have "fsm_state example_leader = LEADER" by (simp add: example_leader_def)
  ultimately show ?thesis
    using at_most_one_leader [OF memory_create_store example_led_reachable, of 0] by force
qed

definition election_view ::
  "('s, 'h) object_store \<Rightarrow> ('s \<Rightarrow> string \<rightharpoonup> bytes) \<Rightarrow> string \<Rightarrow> (nat \<Rightarrow> local) \<times> 's \<Rightarrow> nat set \<times> bool" where
  "election_view os C g c =
     ({n. fsm_state (fst (fst c n)) = LEADER}, group_log os C g (snd c) 1 \<noteq> None)"

text \<open>
  C8: the group implements a register that is written once. Seen as the set of leaders and
  whether entry 1 exists, every step of every node in a reachable state is a step of the
  abstract election: nothing happens, the free place is taken by one winner, or it is taken
  by nobody.
\<close>

theorem election_refines_register:
  assumes "create_store os C" and "reachable os codec g c" and "interleave (node_step os codec) c c'"
  shows "place_taken (election_view os C g c) (election_view os C g c')"
  using election.holders_step [of "(os, C, codec, g)" c c'] reachable_invariant [OF assms(1,2)] assms(1,3)
  by (simp add: group_env_defs leads_def election_view_def)

theorem election_refines_register_witness:
  "place_taken (election_view memory mem_contents ''g'' (example_group(0 := example_contender), mem_empty))
     (election_view memory mem_contents ''g'' (example_led_group, example_elected)) \<and>
   election_view memory mem_contents ''g'' (example_led_group, example_elected) = ({0}, True)"
proof -
  let ?c = "(example_group(0 := example_contender), mem_empty)"
  have "node_step memory example_codec (example_group 0, mem_empty) (example_contender, mem_empty)"
    using begin_attempt [of "example_fsm 0" memory example_codec mem_empty]
    by (simp add: example_group_def example_contender_def example_fsm_def fsm_new_def)
  then have reach: "reachable memory example_codec ''g'' ?c"
    unfolding reachable_def
    by (intro exI [of _ "(example_group, mem_empty)"] conjI example_group_fresh r_into_rtranclp turn)
  have "interleave (node_step memory example_codec) ?c ((example_group(0 := example_contender))(0 := (example_leader, None)), example_elected)"
    by (intro turn) (simp add: example_contender_step)
  then have "interleave (node_step memory example_codec) ?c (example_led_group, example_elected)"
    by (simp add: example_led_group_def)
  from election_refines_register [OF memory_create_store reach this] show ?thesis
    by (simp add: election_view_def example_led_group_def example_group_def example_leader_def
        example_elected_def group_log_def example_fsm_def fsm_new_def)
qed

text \<open>
  C11: a group never changes its leader. From any reachable state in which entry 1 of its log
  exists, and whatever happens afterwards, the nodes that lead are the nodes that lead
  already: a leader is never replaced, whether it is alive or not, and when the entry belongs
  to nobody (the put that wrote it was reported as failed) nobody ever leads.
\<close>

theorem no_failover:
  assumes "create_store os C" and "reachable os codec g (nodes, s)"
    and "group_log os C g s 1 \<noteq> None"
    and "(interleave (node_step os codec))\<^sup>*\<^sup>* (nodes, s) (nodes', s')"
  shows "fsm_state (fst (nodes' n)) = LEADER \<longleftrightarrow> fsm_state (fst (nodes n)) = LEADER"
  using election.holds_settled [of "(os, C, codec, g)" "(nodes, s)" "(nodes', s')" n]
    reachable_invariant [OF assms(1,2)] assms
  by (simp add: group_env_defs leads_def)

theorem no_failover_witness:
  "(interleave (node_step memory example_codec))\<^sup>*\<^sup>*
     (example_led_group, example_elected) (example_led_group(1 := example_contender), example_elected) \<and>
   fsm_state (fst ((example_led_group(1 := example_contender)) 0)) = LEADER"
proof -
  have "node_step memory example_codec (example_led_group 1, example_elected) (example_contender, example_elected)"
    using begin_attempt [of "example_fsm 0" memory example_codec example_elected]
    by (simp add: example_led_group_def example_group_def example_contender_def example_fsm_def fsm_new_def)
  then have run: "(interleave (node_step memory example_codec))\<^sup>*\<^sup>*
      (example_led_group, example_elected) (example_led_group(1 := example_contender), example_elected)"
    by (intro r_into_rtranclp turn)
  have "group_log memory mem_contents ''g'' example_elected 1 \<noteq> None"
    by (simp add: group_log_def example_elected_def)
  from no_failover [OF memory_create_store example_led_reachable this run, of 0] run show ?thesis
    by (simp add: example_led_group_def example_leader_def)
qed

text \<open>The keys of a group stay apart as paths of the store.\<close>

definition keys_apart :: "('s, 'h) object_store \<Rightarrow> string \<Rightarrow> bool" where
  "keys_apart os g = inj_on (path_from os) (range (entry_key g))"

lemma keys_apart_iff:
  "keys_apart os g \<Longrightarrow> path_from os (entry_key g i) = path_from os (entry_key g j) \<longleftrightarrow> i = j"
  by (auto simp: keys_apart_def inj_on_def)

lemma sole_writer_put:
  assumes "sole_writer os C" and "keys_apart os g" and "i \<noteq> j"
    and "put_opts os s (path_from os (entry_key g j)) b = (r, s')"
  shows "group_log os C g s' i = group_log os C g s i"
proof -
  have "C s' = C s \<or> C s' = (C s)(path_from os (entry_key g j) \<mapsto> b)"
    using assms(1,4) unfolding sole_writer_def by blast
  then show ?thesis using keys_apart_iff [OF assms(2), of i j] assms(3) by (auto simp: group_log_def)
qed

lemma sole_writer_reads:
  assumes "sole_writer os C"
  shows "os_get os s p = (x, s') \<Longrightarrow> C s' = C s" "os_bytes os s h = (y, s') \<Longrightarrow> C s' = C s"
    "os_list os s p = (z, s') \<Longrightarrow> C s' = C s"
  using assms unfolding sole_writer_def by blast+

lemma node_step_log:
  assumes "sole_writer os C" and "keys_apart os g" and "node_step os codec (l, s) (l', s')"
    and "node_good (os, C, codec, g) s l" and "i \<noteq> 1"
  shows "group_log os C g s' i = group_log os C g s i"
  using assms(3)
proof (cases rule: node_step.cases)
  case (attempt_put f a r)
  then have "put_opts os s (path_from os (entry_key g 1)) (at_payload a) = (r, s')"
    using assms(4) by (auto simp: node_good_def attempt_of_fresh entry_key_def)
  with sole_writer_put [OF assms(1,2,5)] show ?thesis by blast
next
  case (flush f b r)
  then have "put_opts os s (path_from os (entry_key g 1)) b = (r, s')"
    using assms(4) by (auto simp: node_good_def entry_key_def)
  with sole_writer_put [OF assms(1,2,5)] show ?thesis by blast
qed (auto simp: group_log_def sole_writer_reads [OF assms(1)])

text \<open>
  C12: the log never grows beyond its first entry. Starting with an empty log, and with nobody
  else writing to the group's keys, no state that the nodes can reach has an entry at any
  index but 1: leaders append only where their own entry is, and no second leader comes.
\<close>

theorem log_never_grows:
  assumes "create_store os C" and "sole_writer os C" and "keys_apart os g"
    and "fresh_group g (nodes0, s0)" and "group_log os C g s0 = (\<lambda>i. None)"
    and "(interleave (node_step os codec))\<^sup>*\<^sup>* (nodes0, s0) (nodes, s)"
    and "group_log os C g s i \<noteq> None"
  shows "i = 1"
proof (rule ccontr)
  assume i: "i \<noteq> 1"
  have "group_log os C g (snd c) i = None" if "(interleave (node_step os codec))\<^sup>*\<^sup>* (nodes0, s0) c" for c
    using that
  proof (induction rule: rtranclp_induct)
    case (step y z)
    have "election.invariant (os, C, codec, g) y"
      using step.hyps(1) assms(4) by (intro reachable_invariant [OF assms(1)]) (auto simp: reachable_def)
    then have "node_good (os, C, codec, g) (snd y) (fst y n)" for n by (simp add: election.invariant_def)
    with step.hyps(2) step.IH node_step_log [OF assms(2,3) _ _ i] show ?case
      by (cases rule: interleave.cases) fastforce
  qed (simp add: assms(5))
  with assms(6,7) show False by fastforce
qed

theorem log_never_grows_witness:
  "keys_apart memory ''g'' \<and> group_log memory mem_contents ''g'' example_elected 2 = None"
proof -
  have "(interleave (node_step memory example_codec))\<^sup>*\<^sup>*
      (example_group, mem_empty) (example_led_group, example_elected)"
    unfolding example_led_group_def by (intro interleave_node example_led_steps)
  moreover have keys: "keys_apart memory ''g''" by (simp add: keys_apart_def inj_on_def)
  moreover have "group_log memory mem_contents ''g'' mem_empty = (\<lambda>i. None)"
    by (simp add: group_log_def mem_empty_def fun_eq_iff)
  ultimately have "group_log memory mem_contents ''g'' example_elected 2 \<noteq> None \<Longrightarrow> (2 :: u64) = 1"
    using log_never_grows [OF memory_create_store memory_sole_writer _ example_group_fresh] by blast
  then have "group_log memory mem_contents ''g'' example_elected 2 = None" by fastforce
  with keys show ?thesis by simp
qed

text \<open>
  C10: the runs of the nodes are runs of the group. Wherever a run of \<open>start\<close> has come,
  returning or not (a leader's never does), after whole rounds, iterations of \<open>join\<close>,
  messages of the follower and iterations of the leader, it has come there by the steps of that
  node, over the same store and with every other node unchanged. The run returns at such a
  point, and only in \<open>STOPPED\<close>; and so does \<open>join\<close> when it returns.
\<close>

theorem node_runs_are_group_runs:
  assumes "snd (nodes n) = None"
  shows "(start_at os codec (fst (nodes n)) s inp f1 s1 \<longrightarrow>
            (interleave (node_step os codec))\<^sup>*\<^sup>* (nodes, s) (nodes(n := (f1, None)), s1)) \<and>
         (fsm_start os codec (fst (nodes n)) s inp = Some (Return (f2, s2)) \<longrightarrow>
            start_at os codec (fst (nodes n)) s inp f2 s2 \<and> fsm_state f2 = STOPPED) \<and>
         (join os codec (fst (nodes n)) s cenvs fenvs = Some (Return (f3, s3, cenvs', fenvs')) \<longrightarrow>
            (interleave (node_step os codec))\<^sup>*\<^sup>* (nodes, s) (nodes(n := (f3, None)), s3))"
proof (intro conjI impI)
  have n: "nodes n = (fst (nodes n), None)" using assms by (simp add: prod_eq_iff)
  have lift: "(interleave (node_step os codec))\<^sup>*\<^sup>* (nodes, s) (nodes(n := l), t)"
    if "(node_step os codec)\<^sup>*\<^sup>* ((fst (nodes n), None), s) (l, t)" for l t
    using that interleave_node [of "node_step os codec" nodes n s l t] n by metis
  show "(interleave (node_step os codec))\<^sup>*\<^sup>* (nodes, s) (nodes(n := (f1, None)), s1)"
    if "start_at os codec (fst (nodes n)) s inp f1 s1"
    using that by (intro lift start_at_steps)
  show "(interleave (node_step os codec))\<^sup>*\<^sup>* (nodes, s) (nodes(n := (f3, None)), s3)"
    if "join os codec (fst (nodes n)) s cenvs fenvs = Some (Return (f3, s3, cenvs', fenvs'))"
    using that unfolding join_def by (intro lift join_steps)
qed (use fsm_start_at [of os codec "fst (nodes n)" s inp f2 s2] in simp_all)

text \<open>The first node of the group joins, leads, and tries to write a batch.\<close>

definition example_lead_input :: node_input where
  "example_lead_input = \<lparr>ni_connects = [], ni_follows = [], ni_recvs = [], ni_leads = [example_flush]\<rparr>"

theorem node_runs_are_group_runs_witness:
  "start_at memory example_codec (fst (example_group 0)) mem_empty example_lead_input example_leader example_elected \<and>
   (interleave (node_step memory example_codec))\<^sup>*\<^sup>*
     (example_group, mem_empty) (example_group(0 := (example_leader, None)), example_elected)"
proof -
  have "fsm_round memory example_codec (example_fsm 0) mem_empty example_lead_input =
      Some (Return (example_leader, example_elected, example_lead_input))"
    by (simp add: fsm_round_def example_first_node(1) example_join example_lead_input_def)
  moreover have "start_at memory example_codec example_leader example_elected example_lead_input
      example_leader example_elected"
    by (rule start_leading [where k = 1 and left = False and acc = "[]" and rest = "[]"])
      (simp_all add: example_lead_input_def example_flush_run, simp add: example_leader_def)
  ultimately have "start_at memory example_codec (fst (example_group 0)) mem_empty example_lead_input
      example_leader example_elected"
    using example_first_node(1) by (auto intro: start_round simp: example_group_def)
  then show ?thesis
    using node_runs_are_group_runs [of example_group 0 memory example_codec mem_empty example_lead_input
        example_leader example_elected]
    by (simp add: example_group_def)
qed

text \<open>
  C9: the leader can be found where it is. In any reachable state with a leader, and for as long
  as the store keeps its objects, reading entry 1 and parsing it yields the leader's own
  identity, commit index and epoch, without a panic.
\<close>

theorem leader_entry_names_leader:
  assumes "create_store os C" and "readable_store os C" and "reachable os codec g (nodes, s)"
    and "fsm_state (fst (nodes n)) = LEADER" and "log_codec_ok codec {elected_entry (fst (nodes n))}"
    and "C s \<subseteq>\<^sub>m C t" and "log_key_resolver lg = keys_resolver_new g"
  shows "\<exists>bs t' ls. get_at os lg 1 t = Some (Ok bs, t') \<and> parse_leader_state codec bs = Return ls \<and>
           ls_node_identity ls = Some (fsm_node_identity (fst (nodes n))) \<and>
           ls_commit_index ls = 1 \<and> ls_epoch ls = 1"
proof -
  let ?f = "fst (nodes n)" and ?bs = "encode_log_entry codec (elected_entry (fst (nodes n)))"
  have "node_good (os, C, codec, g) s (nodes n)"
    using reachable_invariant [OF assms(1,3)] by (simp add: election.invariant_def)
  then have f: "commit_index ?f = 1" "epoch ?f = 1" and "group_log os C g s 1 = Some ?bs"
    using assms(4) by (cases "nodes n"; simp add: node_good_def)+
  then have "C t (path_from os (log_entry_key (log_key_resolver lg) (invert 1))) = Some ?bs"
    using assms(6,7) by (auto simp: group_log_def entry_key_def map_le_def dom_def)
  then obtain t' where "get_at os lg 1 t = Some (Ok ?bs, t')"
    unfolding get_at_def using get_at_loop_readable [OF assms(2)] by blast
  moreover have "parse_leader_state codec ?bs =
      Return \<lparr>ls_epoch = 1, ls_commit_index = 1, ls_node_identity = Some (fsm_node_identity ?f), ls_followers = []\<rparr>"
    using assms(5) f by (simp add: parse_leader_state_def log_codec_ok_def elected_entry_def)
  ultimately show ?thesis by simp
qed

definition example_log_codec :: prost_codec where
  "example_log_codec = example_codec\<lparr>decode_log_entry := (\<lambda>bs. Ok (elected_entry example_leader))\<rparr>"

lemma node_step_decode: "node_step os (codec\<lparr>decode_log_entry := d\<rparr>) = node_step os codec"
proof -
  have "attempt_of (codec\<lparr>decode_log_entry := d\<rparr>) f = attempt_of codec f" for f
    by (simp add: attempt_of_def)
  then show ?thesis by (intro ext) (simp add: node_step.simps)
qed

theorem leader_entry_names_leader_witness:
  "\<exists>bs t' ls. get_at memory example_log 1 example_elected = Some (Ok bs, t') \<and>
     parse_leader_state example_log_codec bs = Return ls \<and>
     ls_node_identity ls = Some (fsm_node_identity example_leader) \<and> ls_commit_index ls = 1 \<and> ls_epoch ls = 1"
proof -
  have reach: "reachable memory example_log_codec ''g'' (example_led_group, example_elected)"
    using example_led_reachable by (simp add: reachable_def example_log_codec_def node_step_decode)
  have lead: "fst (example_led_group 0) = example_leader" "fsm_state (fst (example_led_group 0)) = LEADER"
    by (simp_all add: example_led_group_def example_leader_def)
  have codec: "log_codec_ok example_log_codec {elected_entry (fst (example_led_group 0))}"
    by (simp add: lead log_codec_ok_def example_log_codec_def)
  have key: "log_key_resolver example_log = keys_resolver_new ''g''"
    by (simp add: example_log_def s2c_log_new_def)
  show ?thesis
    using leader_entry_names_leader [OF memory_create_store memory_readable reach lead(2) codec map_le_refl key]
    by (simp add: lead)
qed

end
