(* ===== verification/S2c_Leader_Loop.thy ===== *)
theory S2c_Leader_Loop
  imports S2c_Leader
begin

text \<open>
  More about the leader of \<^verbatim>\<open>src/fsm.rs\<close>: on a store whose faults run out every wait for the
  store ends, so the attempt at leadership, the search for the leader and the loop of the
  leader return; what the loop still holds; and when it panics.
\<close>

section \<open>Waiting for a store that recovers\<close>

lemma attempt_loop_recovers:
  assumes rec: "recovering os faults"
  shows "\<exists>self' s'. attempt_loop os self ci ep payload backoff s = Some (self', s')"
proof (induction "faults s" arbitrary: s backoff rule: less_induct)
  case less
  obtain r s1 where app: "append_log os (fsm_log self) ci payload s = Some (r, s1)"
    and lt: "\<And>store source. r = Err (Generic store source) \<Longrightarrow> faults s1 < faults s"
    by (rule append_log_recovers [OF rec, of "fsm_log self" ci payload s]) blast
  show ?case
  proof (cases r)
    case (Err e)
    show ?thesis
    proof (cases e)
      case (Generic store source)
      with Err lt have "faults s1 < faults s" by simp
      from less [OF this, of "awaited backoff"] obtain self' s' where
        "attempt_loop os self ci ep payload (awaited backoff) s1 = Some (self', s')" by blast
      with app Err Generic show ?thesis by (subst attempt_loop.simps) simp
    qed (use app Err in \<open>subst attempt_loop.simps, simp\<close>)+
  next
    case (Ok x)
    with app show ?thesis by (subst attempt_loop.simps) simp
  qed
qed

lemma discover_loop_recovers:
  assumes rec: "recovering os faults"
  shows "\<exists>r s'. discover_loop os codec lg backoff s = Some (r, s')"
proof (induction "faults s" arbitrary: s backoff rule: less_induct)
  case less
  obtain h s1 where head: "get_head os lg s = (h, s1)" by fastforce
  note h = get_head_recovers [OF rec head]
  show ?case
  proof (cases h)
    case (Return res)
    show ?thesis
    proof (cases res)
      case (Err e)
      with h head Return show ?thesis by (subst discover_loop.simps) simp
    next
      case (Ok found)
      show ?thesis
      proof (cases found)
        case (Some n)
        obtain r s2 where at: "get_at os lg n s1 = Some (r, s2)"
          and lt: "\<And>e. r = Err e \<Longrightarrow> is_transient e \<Longrightarrow> faults s2 < faults s1"
          by (rule get_at_recovers [OF rec, of lg n s1]) blast
        have "\<exists>r s'. discover_loop os codec lg (awaited backoff) s2 = Some (r, s')"
          if "r = Err e" "is_transient e" for e
          using less [of s2 "awaited backoff"] lt [OF that] h by simp
        with at head Return Ok Some show ?thesis
          by (subst discover_loop.simps) (auto split: exec.splits result.splits)
      qed (use head Return Ok in \<open>subst discover_loop.simps, simp\<close>)
    qed
  qed (use head in \<open>subst discover_loop.simps, simp\<close>)
qed

text \<open>
  C16: a node does not wait for ever on a store that recovers. When only finitely many
  \<open>Generic\<close> failures of puts and transient failures of reads are still to come, the search for
  the current leader and the attempt at leadership both return, although the attempt retries
  without a limit and \<open>append\<close> retries permanent failures too.
\<close>

theorem recovering_store_returns:
  assumes "recovering os faults"
  shows "(\<exists>r s'. discover_leader_state os codec self s = Some (r, s')) \<and>
         (\<exists>self' s'. attempt_leadership os codec self s = Some (self', s'))"
  unfolding discover_leader_state_def attempt_leadership_def
  using discover_loop_recovers [OF assms] attempt_loop_recovers [OF assms]
  by (simp split: prod.splits)

definition example_faulty :: mem_store where
  "example_faulty = \<lparr>mem_objects = [], mem_faults = [''503 Slow Down'', ''access denied'']\<rparr>"

theorem recovering_store_returns_witness:
  "\<exists>self' s'. attempt_leadership memory example_codec (example_fsm 0) example_faulty = Some (self', s')"
  using recovering_store_returns [OF memory_recovering] by blast

section \<open>The election of the first node\<close>

text \<open>
  A put on a free key creates the object or fails with a \<open>Generic\<close> error and leaves the key
  free.
\<close>

definition honest_put :: "('s, 'h) object_store \<Rightarrow> ('s \<Rightarrow> string \<rightharpoonup> bytes) \<Rightarrow> bool" where
  "honest_put os C =
     (\<forall>s p b r s'. put_opts os s p b = (r, s') \<longrightarrow> C s p = None \<longrightarrow>
        is_ok r \<or> (\<exists>store source. r = Err (Generic store source)) \<and> C s' p = None)"

lemma append_loop_free:
  assumes rec: "recovering os faults" and hon: "honest_put os C"
  shows "C s (path_from os key) = None \<Longrightarrow>
         \<exists>r s'. append_loop os key b backoff s = Some (r, s') \<and>
           (is_ok r \<or> (\<exists>e. r = Err e \<and> is_transient e) \<and> C s' (path_from os key) = None \<and> faults s' < faults s)"
proof (induction "faults s" arbitrary: s backoff rule: less_induct)
  case less
  obtain r s1 where put: "put_opts os s (path_from os key) b = (r, s1)" by fastforce
  from hon put less.prems consider (created) "is_ok r"
    | (failed) store source where "r = Err (Generic store source)" "C s1 (path_from os key) = None"
    unfolding honest_put_def by blast
  then show ?case
  proof cases
    case created
    with put show ?thesis by (cases r) (subst append_loop.simps, simp)+
  next
    case failed
    have lt: "faults s1 < faults s" using put failed(1) by (simp add: recovering_put_generic [OF rec])
    note again = less(1) [OF lt failed(2)]
    show ?thesis
    proof (cases "is_transient (Generic store source) \<and> \<not> can_attempt backoff")
      case True
      with put failed lt show ?thesis by (subst append_loop.simps) simp
    next
      case False
      then have "append_loop os key b backoff s =
          append_loop os key b (if is_transient (Generic store source) then awaited backoff else backoff) s1"
        using put failed by (subst append_loop.simps) simp
      with again [of "if is_transient (Generic store source) then awaited backoff else backoff"] lt
      show ?thesis using order.strict_trans by fastforce
    qed
  qed
qed

lemma attempt_loop_free:
  assumes rec: "recovering os faults" and hon: "honest_put os C" and cs: "create_store os C"
  shows "log_contents (fsm_env os C self) s ci = None \<Longrightarrow>
         \<exists>s'. attempt_loop os self ci ep payload backoff s =
                Some (self\<lparr>fsm_state := LEADER, commit_index := ci, epoch := ep\<rparr>, s') \<and>
              log_contents (fsm_env os C self) s' ci = Some payload"
proof (induction "faults s" arbitrary: s backoff rule: less_induct)
  case less
  let ?key = "log_entry_key (log_key_resolver (fsm_log self)) (invert ci)"
  have free: "C s (path_from os ?key) = None" using less.prems by (simp add: log_contents_def)
  obtain r s1 where app: "append_log os (fsm_log self) ci payload s = Some (r, s1)"
    and r: "is_ok r \<or> (\<exists>e. r = Err e \<and> is_transient e) \<and> C s1 (path_from os ?key) = None \<and> faults s1 < faults s"
    using append_loop_free [OF rec hon free] unfolding append_log_def by blast
  from r show ?case
  proof
    assume "is_ok r"
    then obtain x where "r = Ok x" by (cases r) simp_all
    with app fsm_append_ok [OF cs app] show ?thesis by (subst attempt_loop.simps) simp
  next
    assume "(\<exists>e. r = Err e \<and> is_transient e) \<and> C s1 (path_from os ?key) = None \<and> faults s1 < faults s"
    then obtain e where e: "r = Err e" "is_transient e" and lt: "faults s1 < faults s"
      and "log_contents (fsm_env os C self) s1 ci = None" by (auto simp: log_contents_def)
    note again = less(1) [OF lt this(4), of "awaited backoff"]
    from is_transient_generic [OF e(2)] obtain store source where "e = Generic store source" by blast
    with e app again show ?thesis by (subst attempt_loop.simps) simp
  qed
qed

text \<open>
  C15: the first node of a group becomes its leader, however the store hiccups. When the log
  is found empty, its first key is free, puts on free keys fail at most with \<open>Generic\<close> errors
  that change nothing, and these run out, then joining returns a leader with commit index 1
  and epoch 1, without using the client; and its own entry is entry 1 of the log.
\<close>

theorem first_node_leads_despite_faults:
  assumes "recovering os faults" and "honest_put os C" and "create_store os C"
    and "fsm_state self = NOT_JOINED" and "commit_index self = 0"
    and "get_head os (fsm_log self) s = (Return (Ok None), s1)"
    and "log_contents (os, C, fsm_log self) s1 1 = None"
  shows "\<exists>s2. join os codec self s cenvs fenvs =
             Some (Return (self\<lparr>fsm_state := LEADER, commit_index := 1, epoch := 1\<rparr>, s2, cenvs, fenvs)) \<and>
           log_contents (os, C, fsm_log self) s2 1 = Some (encode_log_entry codec (leadership_entry self))"
proof -
  let ?leader = "self\<lparr>fsm_state := LEADER, commit_index := 1, epoch := 1\<rparr>"
  have target: "leadership_target self = (1, 1)" using assms(5) by (simp add: leadership_target_def)
  from attempt_loop_free [OF assms(1-3,7), of 1 "encode_log_entry codec (leadership_entry self)"]
  obtain s2 where att: "attempt_leadership os codec self s1 = Some (?leader, s2)"
    and entry: "log_contents (os, C, fsm_log self) s2 1 = Some (encode_log_entry codec (leadership_entry self))"
    by (auto simp: attempt_leadership_def target)
  show ?thesis using join_elected [OF assms(4,6) att] entry by auto
qed

lemma memory_honest_put: "honest_put memory mem_contents"
  unfolding honest_put_def by (auto simp: mem_put_def split: list.splits option.splits)

theorem first_node_leads_despite_faults_witness:
  "\<exists>self' s'. join memory example_codec (example_fsm 0) example_faulty [] [] =
      Some (Return (self', s', [], [])) \<and>
     fsm_state self' = LEADER \<and> log_contents (memory, mem_contents, example_log) s' 1 = Some []"
proof -
  have l: "fsm_log (example_fsm 0) = example_log" by (simp add: example_fsm_def fsm_new_def)
  have "get_head memory (fsm_log (example_fsm 0)) example_faulty = (Return (Ok None), example_faulty)"
    by (simp add: get_head_def mem_list_def example_faulty_def)
  moreover have "log_contents (memory, mem_contents, fsm_log (example_fsm 0)) example_faulty 1 = None"
    by (simp add: log_contents_def example_faulty_def)
  ultimately show ?thesis
    using first_node_leads_despite_faults [OF memory_recovering memory_honest_put memory_create_store
        example_first_node(1,2), of example_faulty example_faulty example_codec "[]" "[]"]
    by (auto simp: l example_codec_def)
qed

section \<open>What the loop holds\<close>

lemma leader_step_pending:
  assumes "leader_step os codec self acc s inp = Some (Return (left, self', acc', s'))"
    and "length acc \<le> unat (batch_min_count (fsm_options self))"
  shows "fsm_options self' = fsm_options self \<and> length acc' \<le> unat (batch_min_count (fsm_options self)) \<and>
         suffix acc' (acc @ (if left then [] else due_requests (leader_due inp)))"
proof (cases "leader_collect self acc (leader_due inp)")
  case (Return x)
  obtain self1 acc1 where x: "x = (self1, acc1)" by fastforce
  note col = leader_collect_result [OF Return [unfolded x]]
  show ?thesis
    using assms by (auto simp: leader_step_eq Return x col split: if_splits option.splits)
next
  case (Panic m)
  with assms show ?thesis by (auto simp: leader_step_eq split: if_splits)
qed

text \<open>The requests that arrived in the iterations before the loop was left.\<close>

fun handled_requests :: "leader_input list \<Rightarrow> state_request list" where
  "handled_requests [] = []"
| "handled_requests (inp # inps) =
     (if leader_next inp = ChannelClosed then [] else due_requests (leader_due inp) @ handled_requests inps)"

lemma leader_step_left:
  "leader_step os codec self acc s inp = Some (Return (left, self', acc', s')) \<Longrightarrow>
   left = (leader_next inp = ChannelClosed)"
  by (auto simp: leader_step_eq split: if_splits exec.splits option.splits)

lemma leader_iterations_pending:
  assumes "leader_iterations os codec self acc s inps = Some (Return (left, self', acc', s', rest))"
    and "length acc \<le> unat (batch_min_count (fsm_options self))"
  shows "length acc' \<le> unat (batch_min_count (fsm_options self)) \<and> suffix acc' (acc @ handled_requests inps)"
  using assms
proof (induction inps arbitrary: self acc s)
  case (Cons inp inps)
  from Cons.prems(1) obtain left1 self1 acc1 s1 where
    step: "leader_step os codec self acc s inp = Some (Return (left1, self1, acc1, s1))"
    by (auto split: option.splits exec.splits)
  note one = leader_step_pending [OF step Cons.prems(2)] and left1 = leader_step_left [OF step]
  show ?case
  proof (cases left1)
    case True
    with step Cons.prems(1) one left1 show ?thesis by auto
  next
    case False
    with step Cons.prems(1)
    have "leader_iterations os codec self1 acc1 s1 inps = Some (Return (left, self', acc', s', rest))"
      by simp
    from Cons.IH [OF this] one
    have "length acc' \<le> unat (batch_min_count (fsm_options self))" "suffix acc' (acc1 @ handled_requests inps)"
      by simp_all
    moreover have "suffix (acc1 @ handled_requests inps) ((acc @ due_requests (leader_due inp)) @ handled_requests inps)"
      using one False by (auto simp: suffix_def)
    ultimately show ?thesis using False left1 by (auto intro: suffix_order.order_trans)
  qed
qed simp

text \<open>
  C33: the leader never holds more than the minimal batch. Whatever it received, at the end of
  every iteration the requests that wait for the next flush are the most recent ones that
  arrived, in the order of their arrival, and there are at most \<open>batch_min_count\<close> of them.
\<close>

theorem leader_pending_bounded:
  assumes "leader_loop os codec self s inps = Some (Return (left, self', acc, s', rest))"
  shows "length acc \<le> unat (batch_min_count (fsm_options self)) \<and> suffix acc (handled_requests inps)"
  using leader_iterations_pending [OF assms [unfolded leader_loop_def]] by simp

definition example_quiet :: leader_input where
  "example_quiet = example_flush\<lparr>li_elapsed := 1000\<rparr>"

lemmas leader_loop_eval =
  leader_loop_def leader_step_def leader_next_simps example_quiet_def example_flush_def
  example_envelope_def example_leader_simps example_append_taken

theorem leader_pending_bounded_witness:
  "case leader_loop memory example_codec example_leader example_elected [example_flush, example_quiet] of
     Some (Return (left, self', acc, s', rest)) \<Rightarrow>
       acc = [example_state_request] \<and> length acc \<le> 100 \<and>
       suffix acc (handled_requests [example_flush, example_quiet])
   | _ \<Rightarrow> False"
proof -
  have run: "leader_loop memory example_codec example_leader example_elected [example_flush, example_quiet] =
      Some (Return (False, example_leader, [example_state_request], example_elected, []))"
    by (simp add: leader_loop_eval)
  from leader_pending_bounded [OF this] run show ?thesis by (simp add: example_leader_simps)
qed

section \<open>When the leader panics\<close>

definition malformed_follow :: "envelope \<Rightarrow> bool" where
  "malformed_follow msg =
     (case msg_body (env_message msg) of Some (Follow f) \<Rightarrow> fo_node_identity f = None | _ \<Rightarrow> False)"

lemma leader_collect_panics:
  "leader_collect self acc due = Panic m \<longleftrightarrow>
     m = ''Invalid follow request'' \<and> list_ex malformed_follow due"
proof (induction self acc due rule: leader_collect.induct)
  case (2 self acc msg due)
  show ?case
  proof (cases "msg_body (env_message msg)")
    case None
    with 2 show ?thesis by (simp add: malformed_follow_def)
  next
    case (Some b)
    show ?thesis
    proof (cases b)
      case (Follow f)
      with Some 2 show ?thesis by (cases "fo_node_identity f") (auto simp: malformed_follow_def)
    qed (use Some 2 in \<open>simp_all add: malformed_follow_def\<close>)
  qed
qed simp

lemma leader_step_panics:
  "leader_step os codec self acc s inp = Some (Panic m) \<longleftrightarrow>
     leader_next inp \<noteq> ChannelClosed \<and> m = ''Invalid follow request'' \<and> list_ex malformed_follow (leader_due inp)"
proof (cases "leader_collect self acc (leader_due inp)")
  case (Return x)
  with leader_collect_panics [of self acc "leader_due inp" "''Invalid follow request''"]
  show ?thesis by (cases x) (auto simp: leader_step_eq Return split: option.splits)
next
  case (Panic m')
  with leader_collect_panics [of self acc "leader_due inp" m'] show ?thesis
    by (auto simp: leader_step_eq Panic)
qed

lemma leader_step_recovers:
  assumes "recovering os faults"
  shows "leader_step os codec self acc s inp \<noteq> None"
proof -
  have "append_log os lg i b s \<noteq> None" for lg i b
    by (rule append_log_recovers [OF assms, of lg i b s]) simp
  then show ?thesis
    by (auto simp: leader_step_eq simp del: not_None_eq split: exec.splits option.splits)
qed

lemma leader_iterations_panics:
  assumes "recovering os faults"
  shows "leader_iterations os codec self acc s inps \<noteq> None \<and>
         (leader_iterations os codec self acc s inps = Some (Panic m) \<longleftrightarrow>
            m = ''Invalid follow request'' \<and>
            (\<exists>inp \<in> set (takeWhile (\<lambda>i. leader_next i \<noteq> ChannelClosed) inps).
               list_ex malformed_follow (leader_due inp)))"
proof (induction inps arbitrary: self acc s)
  case (Cons inp inps)
  obtain res where step: "leader_step os codec self acc s inp = Some res"
    using leader_step_recovers [OF assms, of codec self acc s inp] by blast
  show ?case
  proof (cases res)
    case (Panic m')
    with step leader_step_panics [of os codec self acc s inp m'] show ?thesis by auto
  next
    case (Return x)
    obtain left self1 acc1 s1 where x: "x = (left, self1, acc1, s1)" by (metis prod_cases4)
    have ok: "leader_next inp = ChannelClosed \<or> \<not> list_ex malformed_follow (leader_due inp)"
      using step Return leader_step_panics [of os codec self acc s inp "''Invalid follow request''"] by auto
    show ?thesis
      using step Return x ok leader_step_left [OF step [unfolded Return x]] Cons.IH [of self1 acc1 s1] by auto
  qed
qed simp

text \<open>
  C34: a peer can bring the leader down, and nothing else makes its loop panic. On a store that
  recovers the loop always gets through its input, and it panics exactly when, before a
  channel is closed, a \<open>Follow\<close> request without a node identity is received.
\<close>

theorem leader_panics_on_malformed_follow:
  assumes "recovering os faults"
  shows "leader_loop os codec self s inps \<noteq> None \<and>
         (leader_loop os codec self s inps = Some (Panic m) \<longleftrightarrow>
            m = ''Invalid follow request'' \<and>
            (\<exists>inp \<in> set (takeWhile (\<lambda>i. leader_next i \<noteq> ChannelClosed) inps).
               list_ex malformed_follow (leader_due inp)))"
  unfolding leader_loop_def by (rule leader_iterations_panics [OF assms])

definition example_anonymous_follow :: leader_input where
  "example_anonymous_follow =
     \<lparr>li_local_recv = None, li_remote_recv = None, li_local_first = False, li_local = [],
      li_remote = [example_envelope ''f''
        (Follow \<lparr>fo_apply_index = 0, fo_node_identity = None, fo_group_id = ''g''\<rparr>)],
      li_elapsed = 0\<rparr>"

theorem leader_panics_on_malformed_follow_witness:
  "leader_loop memory example_codec example_leader example_elected [example_quiet, example_anonymous_follow] =
     Some (Panic ''Invalid follow request'')"
  using leader_panics_on_malformed_follow [OF memory_recovering, of example_codec example_leader
      example_elected "[example_quiet, example_anonymous_follow]" "''Invalid follow request''"]
  by (simp add: example_quiet_def example_flush_def example_anonymous_follow_def leader_next_simps
      malformed_follow_def example_envelope_def)

end
