(* ===== verification/S2c_Client_State.thy ===== *)
theory S2c_Client_State
  imports S2c_Client
begin

text \<open>
  What holds of a client of \<^verbatim>\<open>src/network/client.rs\<close> at every moment between its calls:
  the states that \<open>new\<close>, the calls and the steps of the tasks can bring about, and their
  common invariant.
\<close>

section \<open>Reachable clients\<close>

inductive client_reachable :: "s2c_options \<Rightarrow> context_t \<Rightarrow> s2c_client \<Rightarrow> bool"
  for options ctx where
  reach_new: "client_new options ctx = Return c \<Longrightarrow> client_reachable options ctx c"
| reach_step: "client_reachable options ctx c \<Longrightarrow> client_reachable options ctx (client_step c e)"
| reach_send: "client_reachable options ctx c \<Longrightarrow>
    client_send c cid payload evs1 evs2 = Some (r, c') \<Longrightarrow> client_reachable options ctx c'"
| reach_connect: "client_reachable options ctx c \<Longrightarrow>
    client_connect codec c env = Some (Return (u, c')) \<Longrightarrow> client_reachable options ctx c'"
| reach_close: "client_reachable options ctx c \<Longrightarrow>
    client_close c evs = Some c' \<Longrightarrow> client_reachable options ctx c'"

section \<open>The invariant\<close>

text \<open>
  The types of the state: the cell holds the number of one of the four states, the channel
  is within its capacity, the table of requests is sound.
\<close>

definition client_wf :: "s2c_client \<Rightarrow> bool" where
  "client_wf c =
     (client_cell c = client_state_u8 (client_load c) \<and> length (out_channel c) \<le> client_capacity c \<and>
      inflight_inv (inflight c))"

text \<open>A closed tracker has no task left.\<close>

definition client_ok :: "s2c_client \<Rightarrow> bool" where
  "client_ok c = (client_wf c \<and> (tracker_closed c \<longrightarrow> tasks_ended c))"

lemma client_wf_frame [simp]:
  "client_wf (c\<lparr>throttle := b\<rparr>) = client_wf c"
  "client_wf (c\<lparr>tracker_closed := b\<rparr>) = client_wf c"
  "client_wf (c\<lparr>cancelled := b\<rparr>) = client_wf c"
  "client_wf (c\<lparr>drain_in := i\<rparr>) = client_wf c"
  "client_wf (c\<lparr>drain_out := u\<rparr>) = client_wf c"
  "client_wf (c\<lparr>written := w\<rparr>) = client_wf c"
  by (simp_all add: client_wf_def)

lemma client_cell_store [simp]: "client_cell (client_store st c) = client_state_u8 st"
  by (simp add: client_store_def)

lemma tasks_ended_store [simp]: "tasks_ended (client_store st c) = tasks_ended c"
  by (simp add: tasks_ended_def)

lemma client_wf_store: "client_wf c \<Longrightarrow> client_wf (client_store st c)"
  by (simp add: client_wf_def)

lemma client_wf_inflight:
  "client_wf c \<Longrightarrow> inflight_inv t \<Longrightarrow> client_wf (c\<lparr>inflight := t\<rparr>)"
  by (simp add: client_wf_def)

lemma client_wf_enqueue:
  "client_wf c \<Longrightarrow> length (out_channel c) < client_capacity c \<Longrightarrow>
   client_wf (c\<lparr>out_channel := out_channel c @ [p]\<rparr>)"
  by (simp add: client_wf_def)

lemma cell_step:
  "client_cell (client_step c e) = client_cell c \<or>
   client_cell (client_step c e) = client_state_u8 NotConnected"
  by (cases e)
    (auto simp: drain_defs split: option.splits in_task.splits out_task.splits list.splits result.splits)

lemma capacity_step [simp]: "client_capacity (client_step c e) = client_capacity c"
  by (cases e)
    (auto simp: drain_defs split: option.splits in_task.splits out_task.splits list.splits result.splits)

lemma channel_step:
  "length (out_channel c) \<le> client_capacity c \<Longrightarrow> length (out_channel (client_step c e)) \<le> client_capacity c"
  by (cases e)
    (auto simp: drain_defs split: option.splits in_task.splits out_task.splits list.splits result.splits)

lemma client_wf_step: "client_wf c \<Longrightarrow> client_wf (client_step c e)"
  unfolding client_wf_def client_load_def
  using cell_step [of c e] channel_step [of c e] client_run_inflight_inv [of c "[e]"]
  by (auto simp del: client_state_u8.simps)

lemma client_wf_run: "client_wf c \<Longrightarrow> client_wf (client_run c evs)"
  by (rule client_run_invariant [where P = client_wf]) (simp_all add: client_wf_step)

lemma tasks_ended_step: "tasks_ended c \<Longrightarrow> tasks_ended (client_step c e)"
  by (cases e) (auto simp: tasks_ended_def)

lemma tasks_ended_run: "tasks_ended c \<Longrightarrow> tasks_ended (client_run c evs)"
  by (rule client_run_invariant [where P = tasks_ended]) (simp_all add: tasks_ended_step)

lemma client_ok_run: "client_ok c \<Longrightarrow> client_ok (client_run c evs)"
  by (simp add: client_ok_def client_wf_run tasks_ended_run)

lemma client_ok_step: "client_ok c \<Longrightarrow> client_ok (client_step c e)"
  using client_ok_run [of c "[e]"] by simp

text \<open>Where the client belongs, and how much its channel holds, no step changes.\<close>

lemma owner_step:
  "cl_options (client_step c e) = cl_options c" "cl_context (client_step c e) = cl_context c"
  by (cases e;
      auto simp: drain_defs client_store_def split: option.splits in_task.splits out_task.splits list.splits result.splits)+

lemma owner_run [simp]:
  "cl_options (client_run c evs) = cl_options c" "cl_context (client_run c evs) = cl_context c"
  by (induction evs arbitrary: c) (simp_all add: owner_step)

section \<open>The calls\<close>

text \<open>A call keeps \<open>client_ok\<close>, the options and the context.\<close>

definition client_keeps :: "s2c_client \<Rightarrow> s2c_client \<Rightarrow> bool" where
  "client_keeps c c' =
     ((client_ok c \<longrightarrow> client_ok c') \<and> cl_options c' = cl_options c \<and> cl_context c' = cl_context c)"

lemma client_keepsI:
  "(client_ok c \<Longrightarrow> client_ok c') \<Longrightarrow> cl_options c' = cl_options c \<Longrightarrow> cl_context c' = cl_context c \<Longrightarrow>
   client_keeps c c'"
  by (simp add: client_keeps_def)

lemma client_ok_add: "client_ok c \<Longrightarrow> inflight_add (inflight c) cid = (rx, t) \<Longrightarrow> client_ok (c\<lparr>inflight := t\<rparr>)"
  using client_ok_step [of c "CallerAdd cid"] by simp

lemma client_ok_discard: "client_ok c \<Longrightarrow> client_ok (c\<lparr>inflight := inflight_discard (inflight c) cid\<rparr>)"
  using client_ok_step [of c "CallerDiscard cid"] by simp

lemma client_ok_enqueue:
  "client_ok c \<Longrightarrow> length (out_channel c) < client_capacity c \<Longrightarrow>
   client_ok (c\<lparr>out_channel := out_channel c @ [p]\<rparr>)"
  using client_ok_step [of c "CallerEnqueue p"] by simp

lemma send_and_await_keeps:
  assumes "send_and_await_response c cid payload evs1 evs2 = Some (r, c')"
  shows "client_keeps c c'" and "tracker_closed c' = tracker_closed c"
proof -
  obtain rx t where add: "inflight_add (inflight c) cid = (rx, t)" by fastforce
  define c1 where "c1 = client_run (c\<lparr>inflight := t\<rparr>) evs1"
  define c2 where "c2 = client_run (c1\<lparr>out_channel := out_channel c1 @ [payload]\<rparr>) evs2"
  have room: "length (out_channel c1) < client_capacity c1"
    and c': "c' = c2 \<or> c' = c2\<lparr>inflight := inflight_discard (inflight c2) cid\<rparr>"
    using assms add
    by (auto simp: send_and_await_response_def Let_def c1_def [symmetric] c2_def [symmetric]
        split: if_splits oneshot.splits result.splits)
  have "client_ok c2" if "client_ok c"
    unfolding c2_def
    using client_ok_run [OF client_ok_enqueue [OF _ room]] client_ok_run [OF client_ok_add [OF that add]]
    by (simp add: c1_def)
  with c' have ok: "client_ok c'" if "client_ok c" using that client_ok_discard by blast
  show "client_keeps c c'"
    by (rule client_keepsI [OF ok]) (use c' in \<open>auto simp: c2_def c1_def\<close>)
  show "tracker_closed c' = tracker_closed c" using assms by (rule send_frame(1))
qed

lemma client_send_keeps:
  "client_send c cid payload evs1 evs2 = Some (r, c') \<Longrightarrow> client_keeps c c'"
  by (auto simp: client_send_def client_keeps_def split: if_splits dest: send_and_await_keeps(1))

text \<open>Closing the tracker and waiting for the tasks.\<close>

lemma client_ok_drained:
  "client_ok c \<Longrightarrow> tasks_ended (client_run (c\<lparr>tracker_closed := True\<rparr>) evs) \<Longrightarrow>
   client_ok (client_run (c\<lparr>tracker_closed := True\<rparr>) evs)"
  by (simp add: client_ok_def client_wf_run)



lemma client_ok_store: "client_ok c \<Longrightarrow> client_ok (client_store st c)"
  by (simp add: client_ok_def client_wf_store tasks_ended_def)

lemma client_ok_reopen: "client_ok c \<Longrightarrow> client_ok (c\<lparr>tracker_closed := False\<rparr>)"
  by (simp add: client_ok_def)

lemma client_ok_cancel: "client_ok c \<Longrightarrow> client_ok (c\<lparr>cancelled := b\<rparr>)"
  by (simp add: client_ok_def tasks_ended_def)

lemma client_ok_spawn:
  "client_ok c \<Longrightarrow> \<not> tracker_closed c \<Longrightarrow> client_ok (spawn_drain_out (spawn_drain_in c))"
  by (simp add: client_ok_def spawn_drain_in_def spawn_drain_out_def)

lemma owner_spawn [simp]:
  "cl_options (spawn_drain_out (spawn_drain_in c)) = cl_options c"
  "cl_context (spawn_drain_out (spawn_drain_in c)) = cl_context c"
  "cl_context (client_store st c) = cl_context c"
  by (simp_all add: spawn_drain_in_def spawn_drain_out_def client_store_def)

lemma client_handshake_keeps:
  assumes "client_handshake codec c uuid evs1 evs2 = Some (Return (r, c'))"
  shows "client_keeps c c'" and "tracker_closed c' = tracker_closed c"
  using assms send_and_await_keeps
  by (auto simp: client_handshake_def split: option.splits result.splits prod.splits body.splits)

lemma client_connect_cases:
  assumes "client_connect codec c env = Some (Return (u, c'))" and "client_load c = NotConnected"
  obtains (no_stream) "\<not> tracker_closed c \<longrightarrow> tasks_ended (connect_drained c env)"
      "c' = (connect_drained c env)\<lparr>tracker_closed := False\<rparr>"
  | (shaken) r c4 where "\<not> tracker_closed c \<longrightarrow> tasks_ended (connect_drained c env)"
      "client_handshake codec (connect_spawned c env) (ce_uuid env) (ce_full env) (ce_response env) =
         Some (Return (r, c4))"
      "c' = client_store Ready c4 \<or> c' = client_store NotConnected c4 \<or>
       tasks_ended c' \<and> c' = client_run
         ((client_store NotConnected c4)\<lparr>tracker_closed := True, cancelled := True\<rparr>) (ce_close env)"
proof -
  let ?hs = "client_handshake codec (connect_spawned c env) (ce_uuid env) (ce_full env) (ce_response env)"
  note eq = client_connect_eq [OF assms(2), of codec env]
  have waited: "\<not> tracker_closed c \<longrightarrow> tasks_ended (connect_drained c env)"
    using assms(1) by (auto simp: eq split: if_splits)
  show ?thesis
  proof (cases "ce_tcp env")
    case TcpConnected
    with assms(1) obtain r c4 where hs: "?hs = Some (Return (r, c4))"
      by (auto simp: eq split: if_splits option.splits exec.splits)
    show ?thesis
      by (rule shaken [OF waited hs])
        (use assms(1) TcpConnected in \<open>auto simp: eq hs Let_def split: result.splits if_splits\<close>)
  qed (use assms(1) waited in \<open>auto simp: eq intro!: no_stream split: if_splits\<close>)
qed

lemma connect_drained_keeps:
  assumes "\<not> tracker_closed c \<longrightarrow> tasks_ended (connect_drained c env)"
  shows "client_keeps c (connect_drained c env)"
    and "client_ok c \<Longrightarrow> tasks_ended (connect_drained c env)"
  using assms client_ok_drained [of c "ce_wait env"]
  by (auto simp: connect_drained_def client_keeps_def client_ok_def)

lemma connect_spawned_keeps:
  assumes "client_keeps c (connect_drained c env)"
  shows "client_keeps c (connect_spawned c env)"
  using assms
  by (simp add: client_keeps_def connect_spawned_def client_ok_spawn client_ok_store client_ok_reopen)

lemma client_connect_keeps:
  assumes "client_connect codec c env = Some (Return (u, c'))"
  shows "client_keeps c c'"
proof (cases "client_load c = NotConnected")
  case True
  from assms True show ?thesis
  proof (cases rule: client_connect_cases)
    case no_stream
    with connect_drained_keeps(1) [OF no_stream(1)] show ?thesis
      by (simp add: client_keeps_def client_ok_reopen)
  next
    case (shaken r c4)
    have "client_keeps c c4"
      using connect_spawned_keeps [OF connect_drained_keeps(1) [OF shaken(1)]]
        client_handshake_keeps(1) [OF shaken(2)] by (simp add: client_keeps_def)
    with shaken(3) show ?thesis
      by (auto simp: client_keeps_def client_ok_store client_ok_def client_wf_run client_wf_store)
  qed
next
  case False
  with assms show ?thesis by (simp add: client_connect_def client_keeps_def)
qed

lemma client_close_keeps:
  assumes "client_close c evs = Some c'"
  shows "client_keeps c c'"
proof -
  have "c' = c \<or> c' = client_store Closed c \<or> tasks_ended c' \<and>
      c' = client_run ((client_store Closed c)\<lparr>tracker_closed := True, cancelled := True\<rparr>) evs"
    using assms by (auto simp: client_close_def Let_def split: if_splits)
  then show ?thesis
    by (auto simp: client_keeps_def client_ok_store client_ok_def client_wf_run client_wf_store)
qed

section \<open>Soundness of the state\<close>

lemma client_new_ok:
  assumes "client_new options ctx = Return c"
  shows "client_ok c \<and> cl_options c = options \<and> cl_context c = ctx \<and> 0 < client_capacity c"
proof -
  from assms have c: "c = fresh_client options ctx" and room: "0 < client_capacity c"
    by (auto simp: client_new_def split: if_splits)
  have "client_load c = NotConnected"
    by (simp add: c fresh_client_def atomic_client_state_new_def client_load_def load_client_state_def)
  then have "client_ok c"
    by (simp add: client_ok_def client_wf_def) (simp add: c fresh_client_def atomic_client_state_new_def inflight_inv_new)
  with room show ?thesis by (simp add: c fresh_client_def)
qed

lemma client_reachable_ok:
  assumes "client_reachable options ctx c"
  shows "client_ok c \<and> cl_options c = options \<and> cl_context c = ctx \<and> 0 < client_capacity c"
  using assms
proof induction
  case (reach_new c)
  then show ?case by (rule client_new_ok)
next
  case (reach_step c e)
  then show ?case by (simp add: client_ok_step owner_step)
next
  case (reach_send c cid payload evs1 evs2 r c')
  with client_send_keeps show ?case by (fastforce simp: client_keeps_def client_capacity_def)
next
  case (reach_connect c codec env u c')
  with client_connect_keeps show ?case by (fastforce simp: client_keeps_def client_capacity_def)
next
  case (reach_close c evs c')
  with client_close_keeps show ?case by (fastforce simp: client_keeps_def client_capacity_def)
qed

lemma connect_never_doubles_tasks:
  assumes "client_ok c" and "client_load c = NotConnected" and "client_connect codec c env \<noteq> None"
  shows "tasks_ended (connect_drained c env)"
proof -
  have "\<not> tracker_closed c \<longrightarrow> tasks_ended (connect_drained c env)"
    using assms(3) by (auto simp: client_connect_eq [OF assms(2)] split: if_splits)
  then show ?thesis using connect_drained_keeps(2) assms(1) by blast
qed

text \<open>
  C19: the state of a client is sound whatever calls were made and however its tasks were
  scheduled. The cell holds one of the four states it is written with (the catch-all arm of
  \<open>load\<close> reads only \<open>Closed\<close>), the channel never exceeds the configured capacity, which is not
  zero, the table of requests is consistent, options and context are those of \<open>new\<close>, and a
  closed tracker has no task left; so a \<open>connect\<close> that gets as far as opening a stream does
  so when no task of an earlier connection is running.
\<close>

theorem client_state_sound:
  assumes "client_reachable options ctx c"
  shows "client_cell c = client_state_u8 (client_load c) \<and>
         0 < unat (max_pending_reqs_per_client (network options)) \<and>
         length (out_channel c) \<le> unat (max_pending_reqs_per_client (network options)) \<and>
         inflight_inv (inflight c) \<and> cl_options c = options \<and> cl_context c = ctx \<and>
         (tracker_closed c \<longrightarrow> tasks_ended c) \<and>
         (client_load c = NotConnected \<longrightarrow> client_connect codec c env \<noteq> None \<longrightarrow>
            tasks_ended (connect_drained c env))"
  using client_reachable_ok [OF assms] connect_never_doubles_tasks [of c codec env]
  unfolding client_ok_def client_wf_def client_capacity_def by auto

theorem client_state_sound_witness:
  "\<exists>c. client_reachable options_default example_context c \<and> client_load c = Ready \<and>
     length (out_channel c) \<le> 1000 \<and> \<not> tracker_closed c"
proof -
  let ?c = "fresh_client options_default example_context"
  have "client_new options_default example_context = Return ?c"
    by (simp add: client_new_def fresh_client_simps options_default_def network_default_def)
  then have new: "client_reachable options_default example_context ?c" by (rule reach_new)
  have "\<exists>c'. client_connect example_codec ?c example_connect = Some (Return (Ok (), c')) \<and>
      client_load c' = Ready \<and> \<not> tracker_closed c'"
    by (simp add: client_eval example_connect_def)
  then obtain c' where con: "client_connect example_codec ?c example_connect = Some (Return (Ok (), c'))"
    and c': "client_load c' = Ready" "\<not> tracker_closed c'" by blast
  have reach: "client_reachable options_default example_context c'" using new con by (rule reach_connect)
  from client_state_sound [OF this] c' reach show ?thesis
    by (auto simp: options_default_def network_default_def)
qed

end
