(* ===== verification/S2c_Group_Server.thy ===== *)
theory S2c_Group_Server
  imports S2c_Fsm
begin

text \<open>
  \<^verbatim>\<open>src/network/group_server.rs\<close>: the server side of one group: the connected clients, a
  reading and a writing task for each of them, and the dispatcher that hands the outgoing
  messages to the writing tasks.

  As in the client, the tasks are program counters in the record and everything that happens
  is an event. A task that runs under a token may end at any time once the token is
  cancelled, and one that is started under a cancelled token never takes a step. The channel
  \<open>all_in\<close> is the list of what was sent to the state machine; its receiver lives as long as
  the node. Encoding into a \<open>BytesMut\<close> has room for any message and cannot fail.
\<close>

section \<open>State\<close>

datatype read_task = ReadEnded | ReadTop | ReadWaiting

datatype write_task = WriteEnded | WriteTop | WriteReceiving | WriteWriting bytes

text \<open>A handled client: its identity, the unbounded channel to its writing task, its tasks.\<close>

record client_conn =
  conn_identity :: node_identity
  conn_queue :: "envelope list"
  conn_read :: read_task
  conn_write :: write_task
  conn_written :: "bytes list"

text \<open>The dispatcher with its cache \<open>local_client_ins\<close>.\<close>

datatype dispatch_task =
    DispatchEnded
  | DispatchTop "node_identity \<rightharpoonup> nat"
  | DispatchWaiting "node_identity \<rightharpoonup> nat"

record group_server =
  gs_group_id :: string
  gs_options :: s2c_options
  gs_running :: bool
  gs_cancelled :: bool
  gs_inner_cancelled :: bool
  gs_tracker_closed :: bool
  clients_ins :: "node_identity \<rightharpoonup> nat"
  gs_conns :: "client_conn list"
  gs_dispatch :: dispatch_task
  gs_all_in :: "envelope list"

definition group_server_new :: "string \<Rightarrow> s2c_options \<Rightarrow> group_server" where
  "group_server_new group_id options =
     \<lparr>gs_group_id = group_id, gs_options = options, gs_running = False, gs_cancelled = False,
      gs_inner_cancelled = False, gs_tracker_closed = False, clients_ins = Map.empty, gs_conns = [],
      gs_dispatch = DispatchEnded, gs_all_in = []\<rparr>"

text \<open>
  When the token is cancelled both branches of the dispatcher's \<open>select!\<close> are ready; which one
  wins, and so whether the inner token is cancelled too, is the argument.
\<close>

definition dispatch_cancelled :: "group_server \<Rightarrow> bool \<Rightarrow> group_server" where
  "dispatch_cancelled gs first_branch =
     gs\<lparr>gs_dispatch := DispatchEnded,
        gs_inner_cancelled := (gs_inner_cancelled gs \<or> first_branch)\<rparr>"

text \<open>
  \<open>start\<close>. The dispatcher that is started under a cancelled token (after a \<open>close\<close>) ends at its
  first poll, before it takes a message.
\<close>

definition gs_start :: "bool \<Rightarrow> group_server \<Rightarrow> group_server" where
  "gs_start first_branch gs =
     (if \<not> gs_running gs
      then
        (let gs1 = gs\<lparr>gs_running := True\<rparr>
         in if gs_cancelled gs then dispatch_cancelled gs1 first_branch
            else gs1\<lparr>gs_dispatch := DispatchTop Map.empty\<rparr>)
      else gs)"

definition gs_handle_client :: "group_server \<Rightarrow> node_identity \<Rightarrow> group_server" where
  "gs_handle_client gs ni =
     (if gs_running gs
      then
        (case clients_ins gs ni of
           Some _ \<Rightarrow> gs
         | None \<Rightarrow>
             gs\<lparr>clients_ins := (clients_ins gs)(ni \<mapsto> length (gs_conns gs)),
                gs_conns := gs_conns gs @
                  [\<lparr>conn_identity = ni, conn_queue = [],
                    conn_read = (if gs_inner_cancelled gs then ReadEnded else ReadTop),
                    conn_write = (if gs_inner_cancelled gs then WriteEnded else WriteTop),
                    conn_written = []\<rparr>]\<rparr>)
      else gs)"

section \<open>The tasks\<close>

definition update_conn :: "nat \<Rightarrow> (client_conn \<Rightarrow> client_conn) \<Rightarrow> group_server \<Rightarrow> group_server" where
  "update_conn i f gs =
     (if i < length (gs_conns gs)
      then gs\<lparr>gs_conns := (gs_conns gs)[i := f (gs_conns gs ! i)]\<rparr> else gs)"

text \<open>\<open>start_read_loop\<close>: the condition of the loop, then what a finished read does.\<close>

definition read_loop_top :: "group_server \<Rightarrow> nat \<Rightarrow> group_server" where
  "read_loop_top gs i =
     update_conn i (\<lambda>c. c\<lparr>conn_read := (if gs_running gs then ReadWaiting else ReadEnded)\<rparr>) gs"

definition read_loop_read ::
  "group_server \<Rightarrow> nat \<Rightarrow> (s2c_message, network_error) result \<Rightarrow> group_server" where
  "read_loop_read gs i r =
     (case r of
        Ok msg \<Rightarrow>
          if \<not> gs_running gs then update_conn i (\<lambda>c. c\<lparr>conn_read := ReadEnded\<rparr>) gs
          else update_conn i (\<lambda>c. c\<lparr>conn_read := ReadTop\<rparr>)
                 (gs\<lparr>gs_all_in := gs_all_in gs @
                    [\<lparr>env_message = msg, env_node_identity = conn_identity (gs_conns gs ! i)\<rparr>]\<rparr>)
      | Err err \<Rightarrow>
          update_conn i (\<lambda>c. c\<lparr>conn_read := ReadEnded\<rparr>) (gs\<lparr>gs_cancelled := True\<rparr>))"

text \<open>
  \<open>drain_out\<close>: the buffer is empty at the top (the last message was split off), is resized
  with zeros and then encoded into. The sending end of its channel stays in \<open>clients_ins\<close>, so
  \<open>recv\<close> only ever waits or returns a message.
\<close>

definition write_frame :: "prost_codec \<Rightarrow> s2c_message \<Rightarrow> bytes" where
  "write_frame codec m =
     (let buf = replicate (length (encode_message codec m)) 0
      in encode_into codec buf (encode_message codec m))"

definition write_loop_top :: "group_server \<Rightarrow> nat \<Rightarrow> group_server" where
  "write_loop_top gs i =
     update_conn i (\<lambda>c. c\<lparr>conn_write := (if gs_running gs then WriteReceiving else WriteEnded)\<rparr>) gs"

definition write_loop_received :: "prost_codec \<Rightarrow> group_server \<Rightarrow> nat \<Rightarrow> group_server" where
  "write_loop_received codec gs i =
     update_conn i (\<lambda>c. case conn_queue c of
                          [] \<Rightarrow> c
                        | msg # rest \<Rightarrow>
                            c\<lparr>conn_queue := rest,
                              conn_write := WriteWriting (write_frame codec (env_message msg))\<rparr>) gs"

definition write_loop_wrote ::
  "group_server \<Rightarrow> nat \<Rightarrow> bytes \<Rightarrow> (unit, io_error) result \<Rightarrow> group_server" where
  "write_loop_wrote gs i payload r =
     (case r of
        Ok _ \<Rightarrow>
          update_conn i (\<lambda>c. c\<lparr>conn_written := conn_written c @ [payload], conn_write := WriteTop\<rparr>) gs
      | Err err \<Rightarrow>
          update_conn i (\<lambda>c. c\<lparr>conn_write := WriteEnded\<rparr>) (gs\<lparr>gs_cancelled := True\<rparr>))"

text \<open>
  \<open>inner_drain_out\<close>. Sending to a client whose writing task has ended fails and the failure is
  ignored.
\<close>

definition send_to_conn :: "envelope \<Rightarrow> client_conn \<Rightarrow> client_conn" where
  "send_to_conn msg c =
     (if conn_write c = WriteEnded then c else c\<lparr>conn_queue := conn_queue c @ [msg]\<rparr>)"

definition dispatch_top :: "group_server \<Rightarrow> (node_identity \<rightharpoonup> nat) \<Rightarrow> group_server" where
  "dispatch_top gs cache =
     gs\<lparr>gs_dispatch := (if gs_running gs then DispatchWaiting cache else DispatchEnded)\<rparr>"

definition dispatch_received ::
  "group_server \<Rightarrow> (node_identity \<rightharpoonup> nat) \<Rightarrow> envelope option \<Rightarrow> group_server" where
  "dispatch_received gs cache r =
     (case r of
        None \<Rightarrow> gs\<lparr>gs_dispatch := DispatchEnded\<rparr>
      | Some msg \<Rightarrow>
          (case cache (env_node_identity msg) of
             Some i \<Rightarrow> update_conn i (send_to_conn msg) (gs\<lparr>gs_dispatch := DispatchTop cache\<rparr>)
           | None \<Rightarrow>
               (case clients_ins gs (env_node_identity msg) of
                  Some i \<Rightarrow> gs\<lparr>gs_dispatch := DispatchTop (cache(env_node_identity msg \<mapsto> i))\<rparr>
                | None \<Rightarrow> gs\<lparr>gs_dispatch := DispatchTop cache\<rparr>)))"

datatype gs_event =
    GsHandle node_identity
  | GsRead nat
  | GsReadDone nat "(s2c_message, network_error) result"
  | GsReadCancelled nat
  | GsWrite nat
  | GsWrote nat "(unit, io_error) result"
  | GsWriteCancelled nat
  | GsDispatch
  | GsDispatchRecv "envelope option"
  | GsDispatchCancelled bool

text \<open>An event that is not enabled changes nothing.\<close>

definition read_task_of :: "group_server \<Rightarrow> nat \<Rightarrow> read_task" where
  "read_task_of gs i = (if i < length (gs_conns gs) then conn_read (gs_conns gs ! i) else ReadEnded)"

definition write_task_of :: "group_server \<Rightarrow> nat \<Rightarrow> write_task" where
  "write_task_of gs i = (if i < length (gs_conns gs) then conn_write (gs_conns gs ! i) else WriteEnded)"

fun gs_step :: "prost_codec \<Rightarrow> group_server \<Rightarrow> gs_event \<Rightarrow> group_server" where
  "gs_step codec gs (GsHandle ni) = gs_handle_client gs ni"
| "gs_step codec gs (GsRead i) = (if read_task_of gs i = ReadTop then read_loop_top gs i else gs)"
| "gs_step codec gs (GsReadDone i r) =
     (if read_task_of gs i = ReadWaiting then read_loop_read gs i r else gs)"
| "gs_step codec gs (GsReadCancelled i) =
     (if gs_inner_cancelled gs then update_conn i (\<lambda>c. c\<lparr>conn_read := ReadEnded\<rparr>) gs else gs)"
| "gs_step codec gs (GsWrite i) =
     (case write_task_of gs i of
        WriteTop \<Rightarrow> write_loop_top gs i
      | WriteReceiving \<Rightarrow> write_loop_received codec gs i
      | _ \<Rightarrow> gs)"
| "gs_step codec gs (GsWrote i r) =
     (case write_task_of gs i of
        WriteWriting payload \<Rightarrow> write_loop_wrote gs i payload r
      | _ \<Rightarrow> gs)"
| "gs_step codec gs (GsWriteCancelled i) =
     (if gs_inner_cancelled gs then update_conn i (\<lambda>c. c\<lparr>conn_write := WriteEnded\<rparr>) gs else gs)"
| "gs_step codec gs GsDispatch =
     (case gs_dispatch gs of DispatchTop cache \<Rightarrow> dispatch_top gs cache | _ \<Rightarrow> gs)"
| "gs_step codec gs (GsDispatchRecv r) =
     (case gs_dispatch gs of DispatchWaiting cache \<Rightarrow> dispatch_received gs cache r | _ \<Rightarrow> gs)"
| "gs_step codec gs (GsDispatchCancelled b) =
     (if gs_cancelled gs \<and> gs_dispatch gs \<noteq> DispatchEnded then dispatch_cancelled gs b else gs)"

definition gs_run :: "prost_codec \<Rightarrow> group_server \<Rightarrow> gs_event list \<Rightarrow> group_server" where
  "gs_run codec gs evs = foldl (gs_step codec) gs evs"

definition gs_tasks_ended :: "group_server \<Rightarrow> bool" where
  "gs_tasks_ended gs =
     (gs_dispatch gs = DispatchEnded \<and>
      (\<forall>c \<in> set (gs_conns gs). conn_read c = ReadEnded \<and> conn_write c = WriteEnded))"

text \<open>\<open>close\<close> with the events up to the end of its wait; \<open>None\<close> is a wait that goes on.\<close>

definition gs_close :: "prost_codec \<Rightarrow> group_server \<Rightarrow> gs_event list \<Rightarrow> group_server option" where
  "gs_close codec gs evs =
     (if gs_running gs
      then
        (let gs1 = gs\<lparr>gs_running := False, gs_cancelled := True, gs_tracker_closed := True\<rparr>;
             gs2 = gs_run codec gs1 evs
         in if gs_tasks_ended gs2 then Some gs2 else None)
      else Some gs)"

section \<open>Rules for the steps\<close>

lemma update_conn_frame [simp]:
  "clients_ins (update_conn i f gs) = clients_ins gs" "gs_dispatch (update_conn i f gs) = gs_dispatch gs"
  "gs_running (update_conn i f gs) = gs_running gs" "gs_cancelled (update_conn i f gs) = gs_cancelled gs"
  "gs_inner_cancelled (update_conn i f gs) = gs_inner_cancelled gs"
  "gs_all_in (update_conn i f gs) = gs_all_in gs"
  by (simp_all add: update_conn_def)

lemma update_conn_conns:
  "gs_conns (update_conn i f gs) = (gs_conns gs)[i := f (gs_conns gs ! i)]"
  by (simp add: update_conn_def list_update_beyond)

lemma length_update_conn [simp]: "length (gs_conns (update_conn i f gs)) = length (gs_conns gs)"
  by (simp add: update_conn_conns)

lemma nth_update_conn:
  "j < length (gs_conns gs) \<Longrightarrow>
   gs_conns (update_conn i f gs) ! j = (if i = j then f (gs_conns gs ! j) else gs_conns gs ! j)"
  by (simp add: update_conn_conns nth_list_update)

lemmas gs_loop_defs =
  read_loop_top_def read_loop_read_def write_loop_top_def write_loop_received_def write_loop_wrote_def
  dispatch_top_def dispatch_received_def dispatch_cancelled_def

lemma gs_run_simps [simp]:
  "gs_run codec gs [] = gs" "gs_run codec gs (e # evs) = gs_run codec (gs_step codec gs e) evs"
  "gs_run codec gs (evs @ evs') = gs_run codec (gs_run codec gs evs) evs'"
  by (simp_all add: gs_run_def)

text \<open>
  The invariant: the table and the connections describe each other, the dispatcher's cache is
  part of the table, and a client's queue holds only messages for that client.
\<close>

definition registered :: "(node_identity \<rightharpoonup> nat) \<Rightarrow> client_conn list \<Rightarrow> bool" where
  "registered tab conns =
     (\<forall>ni i. tab ni = Some i \<longleftrightarrow> i < length conns \<and> conn_identity (conns ! i) = ni)"

definition dispatch_cache :: "dispatch_task \<Rightarrow> (node_identity \<rightharpoonup> nat)" where
  "dispatch_cache d = (case d of DispatchEnded \<Rightarrow> Map.empty | DispatchTop m \<Rightarrow> m | DispatchWaiting m \<Rightarrow> m)"

definition addressed :: "client_conn \<Rightarrow> bool" where
  "addressed c = (\<forall>e \<in> set (conn_queue c). env_node_identity e = conn_identity c)"

definition gs_inv :: "group_server \<Rightarrow> bool" where
  "gs_inv gs =
     (registered (clients_ins gs) (gs_conns gs) \<and> dispatch_cache (gs_dispatch gs) \<subseteq>\<^sub>m clients_ins gs \<and>
      (\<forall>c \<in> set (gs_conns gs). addressed c))"

lemma registered_update:
  assumes "registered tab conns" and "conn_identity c = conn_identity (conns ! i)"
  shows "registered tab (conns[i := c])"
proof -
  have "conn_identity (conns[i := c] ! j) = conn_identity (conns ! j)" if "j < length conns" for j
    using that assms(2) by (cases "i = j") simp_all
  with assms(1) show ?thesis by (auto simp: registered_def)
qed

lemma registered_new:
  assumes "registered tab conns" and "tab ni = None" and "conn_identity c = ni"
  shows "registered (tab(ni \<mapsto> length conns)) (conns @ [c])"
  using assms unfolding registered_def
  by (auto simp: nth_append less_Suc_eq) (metis option.distinct(1))+

lemma gs_inv_update:
  assumes "gs_inv gs" and "\<And>c. conn_identity (f c) = conn_identity c"
    and "i < length (gs_conns gs) \<Longrightarrow> addressed (gs_conns gs ! i) \<Longrightarrow> addressed (f (gs_conns gs ! i))"
  shows "gs_inv (update_conn i f gs)"
proof -
  have "addressed c" if "c \<in> set ((gs_conns gs)[i := f (gs_conns gs ! i)])" for c
  proof (cases "i < length (gs_conns gs)")
    case True
    then have "addressed (f (gs_conns gs ! i))" using assms(1,3) by (simp add: gs_inv_def)
    with that show ?thesis using assms(1) set_update_subset_insert by (fastforce simp: gs_inv_def)
  next
    case False
    with that assms(1) show ?thesis by (simp add: gs_inv_def list_update_beyond)
  qed
  with assms(1,2) show ?thesis by (auto simp: gs_inv_def update_conn_conns registered_update)
qed

lemma addressed_simps [simp]:
  "addressed (c\<lparr>conn_read := x\<rparr>) = addressed c" "addressed (c\<lparr>conn_write := y\<rparr>) = addressed c"
  "addressed (c\<lparr>conn_written := z\<rparr>) = addressed c"
  by (simp_all add: addressed_def)

lemma gs_inv_frame [simp]:
  "gs_inv (gs\<lparr>gs_running := a\<rparr>) = gs_inv gs" "gs_inv (gs\<lparr>gs_cancelled := a\<rparr>) = gs_inv gs"
  "gs_inv (gs\<lparr>gs_inner_cancelled := a\<rparr>) = gs_inv gs" "gs_inv (gs\<lparr>gs_tracker_closed := a\<rparr>) = gs_inv gs"
  "gs_inv (gs\<lparr>gs_all_in := l\<rparr>) = gs_inv gs"
  by (simp_all add: gs_inv_def)

lemma gs_inv_dispatch:
  "gs_inv gs \<Longrightarrow> dispatch_cache d \<subseteq>\<^sub>m clients_ins gs \<Longrightarrow> gs_inv (gs\<lparr>gs_dispatch := d\<rparr>)"
  by (simp add: gs_inv_def)

lemma dispatch_cache_simps [simp]:
  "dispatch_cache DispatchEnded = Map.empty" "dispatch_cache (DispatchTop m) = m"
  "dispatch_cache (DispatchWaiting m) = m"
  by (simp_all add: dispatch_cache_def)

lemma gs_inv_cache: "gs_inv gs \<Longrightarrow> dispatch_cache (gs_dispatch gs) \<subseteq>\<^sub>m clients_ins gs"
  by (simp add: gs_inv_def)

lemma gs_inv_new: "gs_inv (group_server_new g options)"
  by (simp add: gs_inv_def group_server_new_def registered_def)

lemma gs_inv_start: "gs_inv gs \<Longrightarrow> gs_inv (gs_start b gs)"
  by (simp add: gs_start_def dispatch_cancelled_def gs_inv_dispatch Let_def)

lemma gs_inv_handle:
  assumes "gs_inv gs"
  shows "gs_inv (gs_handle_client gs ni)"
proof -
  have "dispatch_cache (gs_dispatch gs) \<subseteq>\<^sub>m (clients_ins gs)(ni \<mapsto> k)" if "clients_ins gs ni = None" for k
    using gs_inv_cache [OF assms] that by (force simp: map_le_def dom_def)
  with assms show ?thesis
    by (auto simp: gs_handle_client_def gs_inv_def addressed_def registered_new split: option.splits)
qed

lemma gs_inv_dispatched:
  assumes "gs_inv gs" and "gs_dispatch gs = DispatchWaiting cache"
  shows "gs_inv (dispatch_received gs cache r)"
proof (cases r)
  case None
  with assms(1) show ?thesis by (simp add: dispatch_received_def gs_inv_dispatch)
next
  case (Some msg)
  let ?ni = "env_node_identity msg"
  have cache: "cache \<subseteq>\<^sub>m clients_ins gs" using gs_inv_cache [OF assms(1)] assms(2) by simp
  show ?thesis
  proof (cases "cache ?ni")
    case (Some i)
    with cache have tab: "clients_ins gs ?ni = Some i" by (auto simp: map_le_def dom_def)
    then have "conn_identity (gs_conns gs ! i) = ?ni"
      using assms(1) by (simp add: gs_inv_def registered_def)
    then have "gs_inv (update_conn i (send_to_conn msg) (gs\<lparr>gs_dispatch := DispatchTop cache\<rparr>))"
      by (intro gs_inv_update gs_inv_dispatch assms(1))
        (auto simp: send_to_conn_def addressed_def cache)
    with \<open>r = Some msg\<close> Some show ?thesis by (simp add: dispatch_received_def)
  next
    case None
    have "cache(?ni \<mapsto> i) \<subseteq>\<^sub>m clients_ins gs" if "clients_ins gs ?ni = Some i" for i
      using cache that by (auto simp: map_le_def)
    with \<open>r = Some msg\<close> None assms(1) cache show ?thesis
      by (auto simp: dispatch_received_def gs_inv_dispatch split: option.splits)
  qed
qed

lemma gs_inv_step:
  assumes "gs_inv gs"
  shows "gs_inv (gs_step codec gs ev)"
proof (cases ev)
  case (GsHandle ni)
  with gs_inv_handle [OF assms] show ?thesis by simp
next
  case (GsDispatchRecv r)
  with gs_inv_dispatched [OF assms] assms show ?thesis by (auto split: dispatch_task.splits)
next
  case (GsDispatchCancelled b)
  with gs_inv_dispatch [OF assms] assms show ?thesis by (simp add: dispatch_cancelled_def)
next
  case GsDispatch
  with gs_inv_dispatch [OF assms] gs_inv_cache [OF assms] assms show ?thesis
    by (auto simp: dispatch_top_def split: dispatch_task.splits)
next
  case (GsWrite i)
  with assms show ?thesis
    by (auto simp: write_loop_top_def write_loop_received_def addressed_def
        split: write_task.splits list.splits intro!: gs_inv_update)
qed (use assms in \<open>auto simp: gs_loop_defs intro!: gs_inv_update split: write_task.splits result.splits\<close>)

lemma gs_inv_run: "gs_inv gs \<Longrightarrow> gs_inv (gs_run codec gs evs)"
  by (induction evs arbitrary: gs) (simp_all add: gs_inv_step)

lemma gs_inv_reach: "gs_inv (gs_run codec (gs_start b (group_server_new g options)) evs)"
  by (intro gs_inv_run gs_inv_start gs_inv_new)

section \<open>Properties\<close>

subsection \<open>Registration\<close>

lemma gs_step_conns:
  "length (gs_conns gs) \<le> length (gs_conns (gs_step codec gs ev)) \<and>
   (\<forall>i < length (gs_conns gs). conn_identity (gs_conns (gs_step codec gs ev) ! i) = conn_identity (gs_conns gs ! i))"
proof (cases ev)
  case (GsHandle ni)
  then show ?thesis by (simp add: gs_handle_client_def nth_append split: option.splits)
next
  case (GsDispatchRecv r)
  then show ?thesis
    by (auto simp: dispatch_received_def send_to_conn_def nth_update_conn
        split: dispatch_task.splits option.splits)
next
  case (GsWrite i)
  then show ?thesis
    by (auto simp: write_loop_top_def write_loop_received_def nth_update_conn
        split: write_task.splits list.splits)
qed (auto simp: gs_loop_defs nth_update_conn split: write_task.splits result.splits dispatch_task.splits)

lemma gs_run_conns:
  "length (gs_conns gs) \<le> length (gs_conns (gs_run codec gs evs)) \<and>
   (\<forall>i < length (gs_conns gs). conn_identity (gs_conns (gs_run codec gs evs) ! i) = conn_identity (gs_conns gs ! i))"
proof (induction evs arbitrary: gs)
  case (Cons e evs)
  with gs_step_conns [of gs codec e] Cons.IH [of "gs_step codec gs e"] show ?case
    by (metis gs_run_simps(2) order.trans less_le_trans)
qed simp

text \<open>
  C24: one connection per node, for ever. In every state a started group server can reach, the
  table names exactly the connections, no two connections have the same identity, and a node
  that was ever registered is never accepted again, not even after its connection is lost.
\<close>

theorem one_connection_per_node:
  assumes "gs = gs_run codec (gs_start b (group_server_new g options)) evs"
    and "gs' = gs_run codec gs evs'"
  shows "(\<forall>i < length (gs_conns gs). \<forall>j < length (gs_conns gs).
            conn_identity (gs_conns gs ! i) = conn_identity (gs_conns gs ! j) \<longrightarrow> i = j) \<and>
         (\<forall>ni i. clients_ins gs ni = Some i \<longleftrightarrow>
            i < length (gs_conns gs) \<and> conn_identity (gs_conns gs ! i) = ni) \<and>
         (\<forall>c \<in> set (gs_conns gs). gs_handle_client gs' (conn_identity c) = gs')"
proof (intro conjI ballI)
  have inv: "registered (clients_ins gs) (gs_conns gs)" "registered (clients_ins gs') (gs_conns gs')"
    using gs_inv_reach [of codec b g options evs] gs_inv_run [OF gs_inv_reach, of codec codec b g options evs evs']
    unfolding assms by (simp_all add: gs_inv_def)
  then show "\<forall>ni i. clients_ins gs ni = Some i \<longleftrightarrow>
      i < length (gs_conns gs) \<and> conn_identity (gs_conns gs ! i) = ni"
    by (simp add: registered_def)
  then show "\<forall>i < length (gs_conns gs). \<forall>j < length (gs_conns gs).
      conn_identity (gs_conns gs ! i) = conn_identity (gs_conns gs ! j) \<longrightarrow> i = j"
    by (metis option.inject)
  fix c assume "c \<in> set (gs_conns gs)"
  then obtain i where "i < length (gs_conns gs)" "c = gs_conns gs ! i" by (metis in_set_conv_nth)
  then have "clients_ins gs' (conn_identity c) = Some i"
    using inv(2) gs_run_conns [of gs codec evs'] unfolding assms(2) registered_def by auto
  then show "gs_handle_client gs' (conn_identity c) = gs'" by (simp add: gs_handle_client_def)
qed

definition example_identity :: "string \<Rightarrow> node_identity" where
  "example_identity n = \<lparr>node_id = n, node_address = ''10.0.0.2'', node_port = 9000, node_az = ''a''\<rparr>"

definition example_group_server :: group_server where
  "example_group_server = gs_start True (group_server_new ''g'' options_default)"

theorem one_connection_per_node_witness:
  "gs_handle_client (gs_run example_codec (gs_handle_client example_group_server (example_identity ''a''))
      [GsRead 0, GsReadDone 0 (Err (InvalidProtobuf ''eof''))]) (example_identity ''a'') =
   gs_run example_codec (gs_handle_client example_group_server (example_identity ''a''))
      [GsRead 0, GsReadDone 0 (Err (InvalidProtobuf ''eof''))]"
proof -
  let ?gs = "gs_run example_codec example_group_server [GsHandle (example_identity ''a'')]"
  have "\<exists>c \<in> set (gs_conns ?gs). conn_identity c = example_identity ''a''"
    by (simp add: example_group_server_def gs_start_def group_server_new_def gs_handle_client_def)
  then show ?thesis
    using one_connection_per_node [OF refl refl, where codec = example_codec and b = True and g = "''g''"
        and options = options_default and evs = "[GsHandle (example_identity ''a'')]"
        and evs' = "[GsRead 0, GsReadDone 0 (Err (InvalidProtobuf ''eof''))]"]
    unfolding example_group_server_def by force
qed

subsection \<open>Incoming messages\<close>

lemma gs_step_all_in:
  "gs_all_in (gs_step codec gs ev) = gs_all_in gs \<or>
   (\<exists>i m. ev = GsReadDone i (Ok m) \<and> i < length (gs_conns gs) \<and>
          gs_all_in (gs_step codec gs ev) =
            gs_all_in gs @ [\<lparr>env_message = m, env_node_identity = conn_identity (gs_conns gs ! i)\<rparr>])"
  by (cases ev) (auto simp: gs_loop_defs gs_handle_client_def read_task_of_def
      split: write_task.splits result.splits dispatch_task.splits option.splits if_splits)

text \<open>The messages that connection \<open>i\<close> was read to have sent.\<close>

definition read_by :: "nat \<Rightarrow> gs_event \<Rightarrow> s2c_message list" where
  "read_by i e =
     (case e of
        GsReadDone j r \<Rightarrow> (case r of Ok m \<Rightarrow> if i = j then [m] else [] | Err _ \<Rightarrow> [])
      | _ \<Rightarrow> [])"

definition read_from :: "nat \<Rightarrow> gs_event list \<Rightarrow> s2c_message list" where
  "read_from i evs = concat (map (read_by i) evs)"

lemma read_from_simps [simp]:
  "read_from i [] = []" "read_from i (e # evs) = read_by i e @ read_from i evs"
  by (simp_all add: read_from_def)

abbreviation messages_of :: "node_identity \<Rightarrow> envelope list \<Rightarrow> s2c_message list" where
  "messages_of ni es \<equiv> map env_message (filter (\<lambda>e. env_node_identity e = ni) es)"

lemma incoming_step:
  assumes "gs_inv gs" and "i < length (gs_conns gs)"
  shows "subseq (messages_of (conn_identity (gs_conns gs ! i)) (gs_all_in (gs_step codec gs ev)))
           (messages_of (conn_identity (gs_conns gs ! i)) (gs_all_in gs) @ read_by i ev)"
proof -
  consider "gs_all_in (gs_step codec gs ev) = gs_all_in gs"
    | j m where "ev = GsReadDone j (Ok m)" "j < length (gs_conns gs)"
        "gs_all_in (gs_step codec gs ev) =
            gs_all_in gs @ [\<lparr>env_message = m, env_node_identity = conn_identity (gs_conns gs ! j)\<rparr>]"
    using gs_step_all_in [of codec gs ev] by blast
  then show ?thesis
  proof cases
    case 2
    then have "conn_identity (gs_conns gs ! j) = conn_identity (gs_conns gs ! i) \<Longrightarrow> i = j"
      using assms by (auto simp: gs_inv_def registered_def) (metis option.inject)
    with 2 show ?thesis by (simp add: read_by_def)
  qed (simp add: list_emb_prefix)
qed

text \<open>
  C25: what reaches the state machine under a node's identity was read from that node's own
  connection, in the order in which it was read, and nothing is delivered twice.
\<close>

theorem incoming_in_order:
  assumes "gs_inv gs" and "i < length (gs_conns gs)"
  shows "subseq (messages_of (conn_identity (gs_conns gs ! i)) (gs_all_in (gs_run codec gs evs)))
           (messages_of (conn_identity (gs_conns gs ! i)) (gs_all_in gs) @ read_from i evs)"
  using assms
proof (induction evs arbitrary: gs)
  case (Cons e evs)
  let ?gs = "gs_step codec gs e" and ?ni = "conn_identity (gs_conns gs ! i)"
  have keep: "i < length (gs_conns ?gs)" "conn_identity (gs_conns ?gs ! i) = ?ni"
    using gs_step_conns [of gs codec e] Cons.prems(2) by auto
  have "subseq (messages_of ?ni (gs_all_in (gs_run codec ?gs evs)))
      (messages_of ?ni (gs_all_in ?gs) @ read_from i evs)"
    using Cons.IH [OF gs_inv_step [OF Cons.prems(1)] keep(1)] keep(2) by simp
  also have "subseq \<dots> ((messages_of ?ni (gs_all_in gs) @ read_by i e) @ read_from i evs)"
    by (intro list_emb_append_mono incoming_step Cons.prems) simp
  finally show ?case by simp
qed simp

definition example_served :: group_server where
  "example_served = gs_handle_client example_group_server (example_identity ''a'')"

lemma example_served_inv: "gs_inv example_served" "length (gs_conns example_served) = 1"
  "conn_identity (gs_conns example_served ! 0) = example_identity ''a''" "gs_all_in example_served = []"
  unfolding example_served_def example_group_server_def
  by (intro gs_inv_handle gs_inv_start gs_inv_new)
    (simp_all add: gs_start_def group_server_new_def gs_handle_client_def)

theorem incoming_in_order_witness:
  "subseq (messages_of (example_identity ''a'')
      (gs_all_in (gs_run example_codec example_served
         [GsRead 0, GsReadDone 0 (Ok (example_message ''a'')), GsRead 0, GsReadDone 0 (Ok (example_message ''b''))])))
    [example_message ''a'', example_message ''b'']"
  using incoming_in_order [OF example_served_inv(1), of 0 example_codec
      "[GsRead 0, GsReadDone 0 (Ok (example_message ''a'')), GsRead 0, GsReadDone 0 (Ok (example_message ''b''))]"]
  by (simp add: example_served_inv read_by_def)

subsection \<open>Outgoing messages\<close>

text \<open>What a connection has been given and not lost: written, being written, still queued.\<close>

definition conn_out :: "prost_codec \<Rightarrow> client_conn \<Rightarrow> bytes list" where
  "conn_out codec c =
     conn_written c @ (case conn_write c of WriteWriting p \<Rightarrow> [p] | _ \<Rightarrow> []) @
     map (\<lambda>e. write_frame codec (env_message e)) (conn_queue c)"

definition dispatched_by :: "node_identity \<Rightarrow> gs_event \<Rightarrow> s2c_message list" where
  "dispatched_by ni e =
     (case e of
        GsDispatchRecv r \<Rightarrow> (case r of Some m \<Rightarrow> messages_of ni [m] | None \<Rightarrow> [])
      | _ \<Rightarrow> [])"

definition dispatched :: "node_identity \<Rightarrow> gs_event list \<Rightarrow> s2c_message list" where
  "dispatched ni evs = concat (map (dispatched_by ni) evs)"

lemma dispatched_simps [simp]:
  "dispatched ni [] = []" "dispatched ni (e # evs) = dispatched_by ni e @ dispatched ni evs"
  by (simp_all add: dispatched_def)

lemma conn_out_simps [simp]:
  "conn_out codec (c\<lparr>conn_read := r\<rparr>) = conn_out codec c"
  by (simp add: conn_out_def)

lemma subseq_skip: "subseq (xs @ ys) (xs @ y # ys)"
  by (intro list_emb_append_mono list_emb_Cons) simp_all

lemma conn_out_send:
  "subseq (conn_out codec (send_to_conn m c)) (conn_out codec c @ [write_frame codec (env_message m)])"
proof (cases "conn_write c = WriteEnded")
  case True
  then show ?thesis by (simp add: send_to_conn_def list_emb_prefix)
next
  case False
  then have "conn_out codec (send_to_conn m c) = conn_out codec c @ [write_frame codec (env_message m)]"
    by (simp add: send_to_conn_def conn_out_def)
  then show ?thesis by simp
qed

text \<open>One event adds at most the message it dispatches to this client.\<close>

lemma outgoing_step:
  assumes "gs_inv gs" and "i < length (gs_conns gs)"
  shows "subseq (conn_out codec (gs_conns (gs_step codec gs ev) ! i))
           (conn_out codec (gs_conns gs ! i) @
            map (write_frame codec) (dispatched_by (conn_identity (gs_conns gs ! i)) ev))"
proof (cases ev)
  case (GsHandle ni)
  then show ?thesis
    using assms(2) by (simp add: gs_handle_client_def nth_append list_emb_prefix split: option.splits)
next
  case (GsDispatchRecv r)
  show ?thesis
  proof (cases "\<exists>cache m j. gs_dispatch gs = DispatchWaiting cache \<and> r = Some m \<and>
      cache (env_node_identity m) = Some j \<and> j = i")
    case True
    then obtain cache m where c: "gs_dispatch gs = DispatchWaiting cache" "r = Some m"
      "cache (env_node_identity m) = Some i" by blast
    then have "clients_ins gs (env_node_identity m) = Some i"
      using gs_inv_cache [OF assms(1)] by (auto simp: map_le_def dom_def)
    then have "conn_identity (gs_conns gs ! i) = env_node_identity m"
      using assms(1) by (simp add: gs_inv_def registered_def)
    with GsDispatchRecv c assms(2) show ?thesis
      by (simp add: dispatch_received_def nth_update_conn dispatched_by_def conn_out_send)
  next
    case False
    then have "gs_conns (gs_step codec gs ev) ! i = gs_conns gs ! i"
      using GsDispatchRecv assms(2)
      by (auto simp: dispatch_received_def nth_update_conn split: dispatch_task.splits option.splits)
    then show ?thesis by (simp add: list_emb_prefix)
  qed
next
  case (GsWrite j)
  then have "conn_out codec (gs_conns (gs_step codec gs ev) ! i) = conn_out codec (gs_conns gs ! i)"
    using assms(2)
    by (auto simp: write_loop_top_def write_loop_received_def nth_update_conn write_task_of_def conn_out_def
        split: write_task.splits list.splits)
  then show ?thesis by (simp add: list_emb_prefix)
next
  case (GsWrote j r)
  then show ?thesis
    using assms(2)
    by (auto simp: write_loop_wrote_def nth_update_conn write_task_of_def conn_out_def dispatched_by_def
        subseq_skip split: write_task.splits result.splits)
next
  case (GsWriteCancelled j)
  then show ?thesis
    using assms(2)
    by (auto simp: nth_update_conn conn_out_def dispatched_by_def subseq_skip split: write_task.splits)
qed (use assms(2) in \<open>auto simp: gs_loop_defs nth_update_conn list_emb_prefix
      split: result.splits dispatch_task.splits\<close>)

text \<open>
  C26: what is written to a node's connection is a subsequence of the messages that were
  dispatched for that node, framed and in their order: messages may be lost, but none is
  duplicated, overtaken, or sent to another node.
\<close>

theorem outgoing_in_order:
  assumes "gs_inv gs" and "i < length (gs_conns gs)"
  shows "subseq (conn_out codec (gs_conns (gs_run codec gs evs) ! i))
           (conn_out codec (gs_conns gs ! i) @
            map (write_frame codec) (dispatched (conn_identity (gs_conns gs ! i)) evs))"
  using assms
proof (induction evs arbitrary: gs)
  case (Cons e evs)
  let ?gs = "gs_step codec gs e" and ?ni = "conn_identity (gs_conns gs ! i)"
  have keep: "i < length (gs_conns ?gs)" "conn_identity (gs_conns ?gs ! i) = ?ni"
    using gs_step_conns [of gs codec e] Cons.prems(2) by auto
  have "subseq (conn_out codec (gs_conns (gs_run codec ?gs evs) ! i))
      (conn_out codec (gs_conns ?gs ! i) @ map (write_frame codec) (dispatched ?ni evs))"
    using Cons.IH [OF gs_inv_step [OF Cons.prems(1)] keep(1)] keep(2) by simp
  also have "subseq \<dots> ((conn_out codec (gs_conns gs ! i) @ map (write_frame codec) (dispatched_by ?ni e)) @
      map (write_frame codec) (dispatched ?ni evs))"
    by (intro list_emb_append_mono outgoing_step Cons.prems) simp
  finally show ?case by simp
qed simp

definition example_reply :: "string \<Rightarrow> envelope" where
  "example_reply cid = \<lparr>env_message = example_response cid, env_node_identity = example_identity ''a''\<rparr>"

definition example_dispatch :: "gs_event list" where
  "example_dispatch =
     [GsDispatch, GsDispatchRecv (Some (example_reply ''x'')),
      GsDispatch, GsDispatchRecv (Some (example_reply ''y''))]"

theorem outgoing_in_order_witness:
  "subseq (conn_out example_codec (gs_conns (gs_run example_codec example_served example_dispatch) ! 0))
     (map (write_frame example_codec) [example_response ''x'', example_response ''y''])"
proof -
  have "conn_out example_codec (gs_conns example_served ! 0) = []"
    by (simp add: example_served_def example_group_server_def gs_start_def group_server_new_def
        gs_handle_client_def conn_out_def)
  then show ?thesis
    using outgoing_in_order [OF example_served_inv(1), of 0 example_codec example_dispatch]
    by (simp add: example_served_inv example_dispatch_def example_reply_def dispatched_by_def)
qed

subsection \<open>The dispatcher\<close>

definition dispatch_all :: "envelope list \<Rightarrow> gs_event list" where
  "dispatch_all ms = concat (map (\<lambda>m. [GsDispatch, GsDispatchRecv (Some m)]) ms)"

lemma dispatch_all_Cons:
  assumes "gs_dispatch gs = DispatchTop cache" and "gs_running gs"
  shows "gs_run codec gs (dispatch_all (m # ms)) =
         gs_run codec (dispatch_received (gs\<lparr>gs_dispatch := DispatchWaiting cache\<rparr>) cache (Some m)) (dispatch_all ms)"
  using assms by (simp add: dispatch_all_def dispatch_top_def)

text \<open>One message: what becomes of the cache and of the connection of \<open>ni\<close>.\<close>

lemma dispatch_received_effect:
  assumes "gs_inv gs" and "gs_dispatch gs = DispatchWaiting cache" and "clients_ins gs ni = Some i"
    and "gs' = dispatch_received gs cache (Some m)"
  shows "\<exists>cache'. gs_dispatch gs' = DispatchTop cache' \<and>
           cache' ni = (if env_node_identity m = ni then Some i else cache ni)"
    and "gs_conns gs' ! i = (if env_node_identity m = ni \<and> cache ni \<noteq> None
                             then send_to_conn m (gs_conns gs ! i) else gs_conns gs ! i)"
    and "gs_running gs' = gs_running gs" "clients_ins gs' = clients_ins gs" "gs_inv gs'"
proof -
  let ?mi = "env_node_identity m"
  have cache: "cache \<subseteq>\<^sub>m clients_ins gs" using gs_inv_cache [OF assms(1)] assms(2) by simp
  have len: "i < length (gs_conns gs)" using assms(1,3) by (simp add: gs_inv_def registered_def)
  have same: "j = i \<longleftrightarrow> ?mi = ni" if "cache ?mi = Some j" for j
  proof -
    have tab: "clients_ins gs ?mi = Some j" using cache that by (auto simp: map_le_def dom_def)
    then have "conn_identity (gs_conns gs ! j) = ?mi" "conn_identity (gs_conns gs ! i) = ni"
      using assms(1,3) by (simp_all add: gs_inv_def registered_def)
    with tab assms(3) show ?thesis by (metis option.inject)
  qed
  show "gs_inv gs'" unfolding assms(4) by (rule gs_inv_dispatched [OF assms(1,2)])
  show "gs_running gs' = gs_running gs" "clients_ins gs' = clients_ins gs"
    unfolding assms(4) by (simp_all add: dispatch_received_def split: option.splits)
  show "\<exists>cache'. gs_dispatch gs' = DispatchTop cache' \<and>
      cache' ni = (if ?mi = ni then Some i else cache ni)"
  proof (cases "cache ?mi")
    case None
    then show ?thesis using assms(3,4) by (auto simp: dispatch_received_def split: option.splits)
  next
    case (Some j)
    then show ?thesis using same [OF Some] assms(4) by (auto simp: dispatch_received_def)
  qed
  show "gs_conns gs' ! i = (if ?mi = ni \<and> cache ni \<noteq> None
      then send_to_conn m (gs_conns gs ! i) else gs_conns gs ! i)"
  proof (cases "cache ?mi")
    case None
    then show ?thesis using assms(4) by (auto simp: dispatch_received_def split: option.splits)
  next
    case (Some j)
    then show ?thesis
      using len same [OF Some] assms(4) by (auto simp: dispatch_received_def nth_update_conn)
  qed
qed

text \<open>The connection gets all of its messages once it is cached, and all but the first before.\<close>

lemma dispatch_all_queue:
  assumes "gs_dispatch gs = DispatchTop cache" and "gs_running gs" and "gs_inv gs"
    and "clients_ins gs ni = Some i" and "conn_write (gs_conns gs ! i) \<noteq> WriteEnded"
  shows "conn_queue (gs_conns (gs_run codec gs (dispatch_all ms)) ! i) =
         conn_queue (gs_conns gs ! i) @
         (if cache ni = None then tl (filter (\<lambda>m. env_node_identity m = ni) ms)
          else filter (\<lambda>m. env_node_identity m = ni) ms)"
  using assms
proof (induction ms arbitrary: gs cache)
  case Nil
  then show ?case by (simp add: dispatch_all_def)
next
  case (Cons m ms)
  let ?w = "gs\<lparr>gs_dispatch := DispatchWaiting cache\<rparr>"
  let ?gs = "dispatch_received ?w cache (Some m)"
  have "gs_inv ?w" using gs_inv_cache [OF Cons.prems(3)] Cons.prems(1,3) by (simp add: gs_inv_dispatch)
  note one = dispatch_received_effect [where gs = ?w and cache = cache and ni = ni and i = i and m = m,
      OF this _ _ refl, simplified, OF Cons.prems(4)]
  from one(1) obtain cache' where cache': "gs_dispatch ?gs = DispatchTop cache'"
    "cache' ni = (if env_node_identity m = ni then Some i else cache ni)" by blast
  have "conn_queue (gs_conns (gs_run codec ?gs (dispatch_all ms)) ! i) =
      conn_queue (gs_conns ?gs ! i) @
      (if cache' ni = None then tl (filter (\<lambda>m. env_node_identity m = ni) ms)
       else filter (\<lambda>m. env_node_identity m = ni) ms)"
    by (rule Cons.IH [OF cache'(1)]) (use Cons.prems one in \<open>simp_all add: send_to_conn_def\<close>)
  then show ?case
    unfolding dispatch_all_Cons [OF Cons.prems(1,2)]
    by (auto simp: one(2) cache'(2) send_to_conn_def Cons.prems(5))
qed

text \<open>
  C27: the dispatcher loses the first message for every client. A message for a client that is
  not in the dispatcher's cache only brings the client into the cache; so from the start of the
  dispatcher a connected client is given all the messages for it, in order, but the first.
\<close>

theorem dispatcher_loses_first:
  assumes "gs_inv gs" and "gs_running gs" and "gs_dispatch gs = DispatchTop Map.empty"
    and "clients_ins gs ni = Some i" and "conn_write (gs_conns gs ! i) \<noteq> WriteEnded"
  shows "conn_queue (gs_conns (gs_run codec gs (dispatch_all ms)) ! i) =
         conn_queue (gs_conns gs ! i) @ tl (filter (\<lambda>m. env_node_identity m = ni) ms)"
  using dispatch_all_queue [OF assms(3,2,1,4,5)] by simp

theorem dispatcher_loses_first_witness:
  "conn_queue (gs_conns (gs_run example_codec example_served
      (dispatch_all [example_reply ''x'', example_reply ''y''])) ! 0) = [example_reply ''y'']"
proof -
  have "gs_running example_served" "gs_dispatch example_served = DispatchTop Map.empty"
    "clients_ins example_served (example_identity ''a'') = Some 0"
    "conn_write (gs_conns example_served ! 0) \<noteq> WriteEnded" "conn_queue (gs_conns example_served ! 0) = []"
    by (simp_all add: example_served_def example_group_server_def gs_start_def group_server_new_def
        gs_handle_client_def)
  with dispatcher_loses_first [OF example_served_inv(1) this(1-4)] show ?thesis
    by (simp add: example_reply_def)
qed

subsection \<open>Errors\<close>

text \<open>A group server without its dispatcher: it runs, but nothing is ever queued again.\<close>

definition silenced :: "group_server \<Rightarrow> bool" where
  "silenced gs = (gs_running gs \<and> gs_cancelled gs \<and> gs_dispatch gs = DispatchEnded)"

text \<open>What waits for the writing task of a connection; nothing, where there is no connection.\<close>

definition queue_of :: "group_server \<Rightarrow> nat \<Rightarrow> envelope list" where
  "queue_of gs i = (if i < length (gs_conns gs) then conn_queue (gs_conns gs ! i) else [])"

lemma queue_of_update:
  "queue_of (update_conn j f gs) i =
   (if i = j \<and> i < length (gs_conns gs) then conn_queue (f (gs_conns gs ! i)) else queue_of gs i)"
  by (simp add: queue_of_def nth_update_conn)

lemma silenced_step:
  assumes "silenced gs"
  shows "silenced (gs_step codec gs ev)"
    and "suffix (queue_of (gs_step codec gs ev) i) (queue_of gs i)"
proof -
  show "silenced (gs_step codec gs ev)"
    using assms
    by (cases ev) (auto simp: silenced_def gs_handle_client_def gs_loop_defs
        split: option.splits write_task.splits result.splits)
  show "suffix (queue_of (gs_step codec gs ev) i) (queue_of gs i)"
  proof (cases ev)
    case (GsHandle ni)
    then show ?thesis by (auto simp: queue_of_def gs_handle_client_def nth_append split: option.splits)
  next
    case (GsWrite j)
    then show ?thesis
      by (auto simp: write_loop_top_def write_loop_received_def queue_of_def nth_update_conn suffix_ConsI
          split: write_task.splits list.splits)
  qed (use assms in \<open>auto simp: silenced_def gs_loop_defs queue_of_def nth_update_conn
        split: write_task.splits result.splits\<close>)
qed

lemma silenced_run:
  assumes "silenced gs"
  shows "silenced (gs_run codec gs evs) \<and> suffix (queue_of (gs_run codec gs evs) i) (queue_of gs i)"
  using assms
proof (induction evs arbitrary: gs)
  case (Cons e evs)
  note one = silenced_step [OF Cons.prems, of codec e]
  from Cons.IH [OF one(1)] one(2) show ?case by (auto intro: suffix_order.trans)
qed simp

text \<open>No event stops the server or takes a cancellation back.\<close>

lemma gs_step_flags:
  "gs_running (gs_step codec gs ev) = gs_running gs"
  "gs_cancelled gs \<Longrightarrow> gs_cancelled (gs_step codec gs ev)"
  by (cases ev; simp add: gs_handle_client_def gs_loop_defs dispatch_received_def write_loop_received_def
      split: option.splits write_task.splits list.splits result.splits dispatch_task.splits)+

lemma gs_run_flags:
  "gs_running (gs_run codec gs evs) = gs_running gs"
  "gs_cancelled gs \<Longrightarrow> gs_cancelled (gs_run codec gs evs)"
  by (induction evs arbitrary: gs) (simp_all add: gs_step_flags)

text \<open>
  C28: one client's failed read silences the whole group. The reading task cancels the token of
  the group server. The dispatcher may go on for a while (\<open>evs1\<close>), until it notices the token;
  from that moment on no message is queued for any client, connected then or later (the queues
  only shrink), while the server still counts as running, so that \<open>start\<close> does nothing and
  further clients are registered in vain.
\<close>

theorem read_error_silences_group:
  assumes "gs_running gs" and "read_task_of gs k = ReadWaiting"
    and "gs1 = gs_run codec gs (GsReadDone k (Err e) # evs1)"
    and "gs2 = gs_run codec gs1 (GsDispatchCancelled b # evs2)"
  shows "gs_running gs2 \<and> gs_dispatch gs2 = DispatchEnded \<and> gs_start b' gs2 = gs2 \<and>
         suffix (queue_of gs2 i) (queue_of gs1 i)"
proof -
  let ?g = "gs_step codec gs1 (GsDispatchCancelled b)"
  have "gs_cancelled (gs_step codec gs (GsReadDone k (Err e)))"
    using assms(2) by (simp add: read_loop_read_def)
  then have "gs_running gs1 \<and> gs_cancelled gs1"
    using assms(1) unfolding assms(3) by (simp only: gs_run_simps gs_run_flags gs_step_flags)
  then have "silenced ?g" by (simp add: silenced_def dispatch_cancelled_def)
  moreover have "queue_of ?g i = queue_of gs1 i" by (simp add: queue_of_def dispatch_cancelled_def)
  moreover have "gs2 = gs_run codec ?g evs2" unfolding assms(4) by simp
  ultimately show ?thesis using silenced_run [of ?g codec evs2 i] by (simp add: silenced_def gs_start_def)
qed

text \<open>
  The message for the client is the second one dispatched after the failed read, and is queued;
  those dispatched after the dispatcher has noticed are not.
\<close>

definition example_after_error :: group_server where
  "example_after_error =
     gs_run example_codec (gs_step example_codec example_served (GsRead 0))
       (GsReadDone 0 (Err (InvalidProtobuf ''eof'')) # example_dispatch)"

theorem read_error_silences_group_witness:
  "queue_of example_after_error 0 = [example_reply ''y''] \<and>
   suffix (queue_of (gs_run example_codec example_after_error
       (GsDispatchCancelled True # example_dispatch)) 0) [example_reply ''y'']"
proof -
  let ?gs = "gs_step example_codec example_served (GsRead 0)"
  have gs: "gs_running ?gs" "read_task_of ?gs 0 = ReadWaiting"
    by (simp_all add: example_served_def example_group_server_def gs_start_def group_server_new_def
        gs_handle_client_def read_task_of_def read_loop_top_def update_conn_def)
  have "queue_of example_after_error 0 = [example_reply ''y'']"
    by (simp add: example_after_error_def example_served_def example_group_server_def gs_start_def
        group_server_new_def gs_handle_client_def read_task_of_def read_loop_top_def read_loop_read_def
        update_conn_def example_dispatch_def example_reply_def dispatch_top_def dispatch_received_def
        send_to_conn_def queue_of_def)
  then show ?thesis
    using read_error_silences_group [OF gs example_after_error_def refl,
        where b = True and ?evs2.0 = example_dispatch and i = 0] by simp
qed

text \<open>
  The frames of the group server are not the encodings of the messages: the buffer holds as
  many zeros as the encoding is long when the message is encoded at its end.
\<close>

lemma write_frame_zeros:
  assumes "buf_mut_appends codec"
  shows "write_frame codec m = replicate (length (encode_message codec m)) 0 @ encode_message codec m"
  using assms by (simp add: write_frame_def buf_mut_appends_def)

subsection \<open>Closing\<close>

definition stuck_reader :: "nat \<Rightarrow> group_server \<Rightarrow> bool" where
  "stuck_reader k gs =
     (k < length (gs_conns gs) \<and> conn_read (gs_conns gs ! k) = ReadWaiting \<and> \<not> gs_inner_cancelled gs)"

lemma stuck_reader_not_ended: "stuck_reader k gs \<Longrightarrow> \<not> gs_tasks_ended gs"
  unfolding stuck_reader_def gs_tasks_ended_def by (metis nth_mem read_task.distinct(3))

lemma stuck_reader_step:
  assumes "stuck_reader k gs" and "\<And>r. ev \<noteq> GsReadDone k r" and "ev \<noteq> GsDispatchCancelled True"
  shows "stuck_reader k (gs_step codec gs ev)"
proof (cases ev)
  case (GsHandle ni)
  with assms(1) show ?thesis
    by (auto simp: stuck_reader_def gs_handle_client_def nth_append split: option.splits)
next
  case (GsDispatchRecv r)
  with assms(1) show ?thesis
    by (auto simp: stuck_reader_def dispatch_received_def nth_update_conn send_to_conn_def
        split: dispatch_task.splits option.splits)
next
  case (GsWrite i)
  with assms(1) show ?thesis
    by (auto simp: stuck_reader_def write_loop_top_def write_loop_received_def nth_update_conn
        split: write_task.splits list.splits)
qed (use assms in \<open>auto simp: stuck_reader_def gs_loop_defs nth_update_conn read_task_of_def
      split: write_task.splits result.splits dispatch_task.splits\<close>)

text \<open>
  \<open>close\<close> can wait for ever. When the dispatcher's \<open>select!\<close> takes the branch of the ended
  drain instead of the branch of the cancelled token, the inner token is never cancelled; a
  reading task that waits for a client that sends nothing then never ends, and \<open>close\<close> does not
  return, whatever else happens.
\<close>

theorem close_waits_for_silent_client:
  assumes "gs_running gs" and "\<not> gs_inner_cancelled gs" and "read_task_of gs k = ReadWaiting"
    and "\<forall>ev \<in> set evs. (\<forall>r. ev \<noteq> GsReadDone k r) \<and> ev \<noteq> GsDispatchCancelled True"
  shows "gs_close codec gs evs = None"
proof -
  let ?gs1 = "gs\<lparr>gs_running := False, gs_cancelled := True, gs_tracker_closed := True\<rparr>"
  have "stuck_reader k ?gs1"
    using assms(2,3) by (auto simp: stuck_reader_def read_task_of_def split: if_splits)
  then have "stuck_reader k (gs_run codec ?gs1 evs)"
    using assms(4)
  proof (induction evs arbitrary: gs rule: rev_induct)
    case (snoc e evs)
    then have "stuck_reader k (gs_run codec (gs\<lparr>gs_running := False, gs_cancelled := True, gs_tracker_closed := True\<rparr>) evs)"
      by simp
    with snoc.prems(2) show ?case by (simp add: stuck_reader_step)
  qed simp
  then have "\<not> gs_tasks_ended (gs_run codec ?gs1 evs)"
    by (rule stuck_reader_not_ended)
  with assms(1) show ?thesis by (simp add: gs_close_def Let_def)
qed

theorem close_waits_for_silent_client_witness:
  "gs_close example_codec (gs_step example_codec example_served (GsRead 0))
     [GsDispatchCancelled False, GsRead 0, GsWrite 0, GsReadCancelled 0, GsWriteCancelled 0] = None"
  by (rule close_waits_for_silent_client [where k = 0])
    (simp_all add: example_served_def example_group_server_def gs_start_def group_server_new_def
      gs_handle_client_def read_task_of_def read_loop_top_def update_conn_def)

end
