(* ===== verification/S2c_Server.thy ===== *)
theory S2c_Server
  imports S2c_Group_Server
begin

text \<open>
  \<^verbatim>\<open>src/network/server.rs\<close>: the server of a node: binding, the accept loop with its rebinding,
  the handshake of new connections, closing.

  The task of \<open>serve\<close> and \<open>do_serve\<close> is a program counter, the tasks of the connections are a
  list of handlers, and the outcomes of \<open>bind\<close>, \<open>accept\<close> and the timed reads come with the
  events. \<open>start\<close> has the server to itself (\<open>&mut self\<close>) and runs without interference.
\<close>

section \<open>The state cell\<close>

datatype server_state = NotBound | Binding | ServerReady | ServerClosed

primrec server_state_u8 :: "server_state \<Rightarrow> u8" where
  "server_state_u8 NotBound = 0"
| "server_state_u8 Binding = 1"
| "server_state_u8 ServerReady = 2"
| "server_state_u8 ServerClosed = 3"

definition load_server_state :: "u8 \<Rightarrow> server_state" where
  "load_server_state cell =
     (if cell = 0 then NotBound else if cell = 1 then Binding
      else if cell = 2 then ServerReady else ServerClosed)"

definition cell_compare_and_exchange :: "u8 \<Rightarrow> server_state \<Rightarrow> server_state \<Rightarrow> bool \<times> u8" where
  "cell_compare_and_exchange cell current new =
     (if cell = server_state_u8 current then (True, server_state_u8 new) else (False, cell))"

section \<open>Binding\<close>

text \<open>One outcome per call of \<open>TcpListener::bind\<close>; running out of them is still waiting.\<close>

fun bind_loop ::
  "backoff_counter \<Rightarrow> (unit, io_error) result list \<Rightarrow> ((unit, io_error) result \<times> (unit, io_error) result list) option" where
  "bind_loop backoff [] = None"
| "bind_loop backoff (Ok listener # outcomes) = Some (Ok listener, outcomes)"
| "bind_loop backoff (Err err # outcomes) =
     (if can_attempt backoff then bind_loop (awaited backoff) outcomes
      else Some (Err err, outcomes))"

definition server_bind ::
  "s2c_retry_options \<Rightarrow> (unit, io_error) result list \<Rightarrow> ((unit, io_error) result \<times> (unit, io_error) result list) option" where
  "server_bind retry_opts outcomes = bind_loop (backoff_new retry_opts) outcomes"

section \<open>The handshake\<close>

datatype hs_outcome = HsElapsed | HsRead "(s2c_message, network_error) result"

definition server_write ::
  "prost_codec \<Rightarrow> 'w async_writer \<Rightarrow> 'w \<Rightarrow> s2c_message \<Rightarrow> (unit, io_error) result \<times> 'w" where
  "server_write codec wr writer msg =
     (case write_bytes wr writer (encode_message codec msg) of
        (Err e, w) \<Rightarrow> (Err e, w)
      | (Ok _, w) \<Rightarrow> flush wr w)"

text \<open>One timed read: \<open>None\<close> when the loop goes on, otherwise what it returns.\<close>

definition handshake_step ::
  "prost_codec \<Rightarrow> 'w async_writer \<Rightarrow> 'w \<Rightarrow> hs_outcome \<Rightarrow> handshake_msg option option \<times> 'w" where
  "handshake_step codec wr writer outcome =
     (case outcome of
        HsElapsed \<Rightarrow> (Some None, writer)
      | HsRead r \<Rightarrow>
          (case r of
             Err e \<Rightarrow> (Some None, writer)
           | Ok msg \<Rightarrow>
               (case msg_body msg of
                  Some (Handshake handshake) \<Rightarrow>
                    (case server_write codec wr writer msg of
                       (Ok _, w) \<Rightarrow> (Some (Some handshake), w)
                     | (Err _, w) \<Rightarrow> (Some None, w))
                | _ \<Rightarrow> (None, writer))))"

fun server_handshake ::
  "prost_codec \<Rightarrow> 'w async_writer \<Rightarrow> 'w \<Rightarrow> hs_outcome list \<Rightarrow>
   (handshake_msg option \<times> 'w \<times> hs_outcome list) option" where
  "server_handshake codec wr writer [] = None"
| "server_handshake codec wr writer (outcome # outcomes) =
     (case handshake_step codec wr writer outcome of
        (Some r, w) \<Rightarrow> Some (r, w, outcomes)
      | (None, w) \<Rightarrow> server_handshake codec wr w outcomes)"

section \<open>The server\<close>

type_synonym group_servers = "string \<rightharpoonup> group_server"

text \<open>
  What \<open>handle_client\<close> does after the handshake. The future of the group server's
  \<open>handle_client\<close> is bound to \<open>_\<close> and never awaited: it is built and dropped.
\<close>

definition admit_client :: "group_servers \<Rightarrow> handshake_msg option \<Rightarrow> group_servers" where
  "admit_client groups r =
     (case r of
        None \<Rightarrow> groups
      | Some handshake \<Rightarrow>
          (case groups (hs_group_id handshake) of
             None \<Rightarrow> groups
           | Some group_server \<Rightarrow>
               (case hs_node_identity handshake of
                  None \<Rightarrow> groups
                | Some ni \<Rightarrow>
                    (let future = (\<lambda>_ :: unit. gs_handle_client group_server ni) in groups))))"

record 'w handler =
  h_ended :: bool
  h_writer :: 'w

datatype serve_task =
    ServeEnded
  | AcceptTop
  | Accepting
  | Unbound
  | Rebinding backoff_counter
  | ServeDraining

record 'w s2c_server =
  sv_options :: s2c_options
  sv_group_servers :: group_servers
  sv_cell :: u8
  sv_node_identity :: node_identity
  sv_tracker_closed :: bool
  sv_cancelled :: bool
  sv_inner_cancelled :: bool
  sv_serve :: serve_task
  sv_handlers :: "'w handler list"

definition atomic_server_state_new :: u8 where
  "atomic_server_state_new = server_state_u8 NotBound"

definition server_new :: "s2c_options \<Rightarrow> node_identity \<Rightarrow> 'w s2c_server" where
  "server_new options ni =
     \<lparr>sv_options = options, sv_group_servers = Map.empty, sv_cell = atomic_server_state_new,
      sv_node_identity = ni, sv_tracker_closed = False, sv_cancelled = False,
      sv_inner_cancelled = False, sv_serve = ServeEnded, sv_handlers = []\<rparr>"

definition server_load :: "'w s2c_server \<Rightarrow> server_state" where
  "server_load sv = load_server_state (sv_cell sv)"

definition server_store :: "server_state \<Rightarrow> 'w s2c_server \<Rightarrow> 'w s2c_server" where
  "server_store st sv = sv\<lparr>sv_cell := server_state_u8 st\<rparr>"

definition compare_and_exchange :: "server_state \<Rightarrow> server_state \<Rightarrow> 'w s2c_server \<Rightarrow> bool \<times> 'w s2c_server" where
  "compare_and_exchange current new sv =
     (case cell_compare_and_exchange (sv_cell sv) current new of
        (ok, cell) \<Rightarrow> (ok, sv\<lparr>sv_cell := cell\<rparr>))"

definition server_start ::
  "'w s2c_server \<Rightarrow> (unit, io_error) result list \<Rightarrow>
   ((unit, io_error) result \<times> 'w s2c_server \<times> (unit, io_error) result list) option" where
  "server_start sv outcomes =
     (case compare_and_exchange NotBound Binding sv of
        (True, sv) \<Rightarrow>
          (case server_bind (retry (sv_options sv)) outcomes of
             None \<Rightarrow> None
           | Some (Err e, rest) \<Rightarrow> Some (Err e, sv, rest)
           | Some (Ok _, rest) \<Rightarrow>
               Some (Ok (), (server_store ServerReady sv)\<lparr>sv_serve := AcceptTop\<rparr>, rest))
      | (False, sv) \<Rightarrow> Some (Ok (), sv, outcomes))"

definition register_group_server :: "'w s2c_server \<Rightarrow> string \<Rightarrow> group_server \<Rightarrow> 'w s2c_server" where
  "register_group_server sv group_id gs =
     sv\<lparr>sv_group_servers := (sv_group_servers sv)(group_id \<mapsto> gs)\<rparr>"

subsection \<open>The serving task\<close>

text \<open>Leaving \<open>start_accept_loop\<close>: \<open>do_serve\<close> returns unless the server was ready.\<close>

definition accept_loop_left :: "'w s2c_server \<Rightarrow> 'w s2c_server" where
  "accept_loop_left sv =
     (case compare_and_exchange ServerReady NotBound sv of
        (True, sv) \<Rightarrow> sv\<lparr>sv_serve := Unbound\<rparr>
      | (False, sv) \<Rightarrow> sv\<lparr>sv_serve := ServeEnded\<rparr>)"

definition accept_loop_top :: "'w s2c_server \<Rightarrow> 'w s2c_server" where
  "accept_loop_top sv =
     (if server_load sv = ServerClosed then accept_loop_left sv else sv\<lparr>sv_serve := Accepting\<rparr>)"

definition accept_outcome :: "'w s2c_server \<Rightarrow> ('w, io_error) result \<Rightarrow> 'w s2c_server" where
  "accept_outcome sv re =
     (if server_load sv = ServerClosed then accept_loop_left sv
      else
        (case re of
           Ok tcp_stream \<Rightarrow>
             sv\<lparr>sv_handlers := sv_handlers sv @ [\<lparr>h_ended = sv_inner_cancelled sv, h_writer = tcp_stream\<rparr>],
                sv_serve := AcceptTop\<rparr>
         | Err err \<Rightarrow> accept_loop_left sv))"

definition rebind_begin :: "'w s2c_server \<Rightarrow> 'w s2c_server" where
  "rebind_begin sv =
     (case compare_and_exchange NotBound Binding sv of
        (True, sv) \<Rightarrow> sv\<lparr>sv_serve := Rebinding (backoff_new (retry (sv_options sv)))\<rparr>
      | (False, sv) \<Rightarrow> sv\<lparr>sv_serve := ServeEnded\<rparr>)"

definition rebind_outcome :: "'w s2c_server \<Rightarrow> backoff_counter \<Rightarrow> (unit, io_error) result \<Rightarrow> 'w s2c_server" where
  "rebind_outcome sv backoff r =
     (case r of
        Ok listener \<Rightarrow> (server_store ServerReady sv)\<lparr>sv_serve := AcceptTop\<rparr>
      | Err err \<Rightarrow>
          if can_attempt backoff then sv\<lparr>sv_serve := Rebinding (awaited backoff)\<rparr>
          else (server_store ServerClosed sv)\<lparr>sv_inner_cancelled := True, sv_serve := ServeDraining\<rparr>)"

text \<open>A connection's task: one timed read of its handshake.\<close>

definition handler_read ::
  "prost_codec \<Rightarrow> 'w async_writer \<Rightarrow> 'w s2c_server \<Rightarrow> nat \<Rightarrow> hs_outcome \<Rightarrow> 'w s2c_server" where
  "handler_read codec wr sv i outcome =
     (if i < length (sv_handlers sv) \<and> \<not> h_ended (sv_handlers sv ! i)
      then
        (case handshake_step codec wr (h_writer (sv_handlers sv ! i)) outcome of
           (None, w) \<Rightarrow> sv\<lparr>sv_handlers := (sv_handlers sv)[i := \<lparr>h_ended = False, h_writer = w\<rparr>]\<rparr>
         | (Some r, w) \<Rightarrow>
             sv\<lparr>sv_handlers := (sv_handlers sv)[i := \<lparr>h_ended = True, h_writer = w\<rparr>],
                sv_group_servers := admit_client (sv_group_servers sv) r\<rparr>)
      else sv)"

datatype 'w sv_event =
    SvServe
  | SvAccepted "('w, io_error) result"
  | SvBound "(unit, io_error) result"
  | SvCancelled
  | SvDrained
  | SvHandler nat hs_outcome
  | SvHandlerCancelled nat
  | SvRegister string group_server

fun sv_step :: "prost_codec \<Rightarrow> 'w async_writer \<Rightarrow> 'w s2c_server \<Rightarrow> 'w sv_event \<Rightarrow> 'w s2c_server" where
  "sv_step codec wr sv SvServe =
     (case sv_serve sv of
        AcceptTop \<Rightarrow> accept_loop_top sv
      | Unbound \<Rightarrow> rebind_begin sv
      | _ \<Rightarrow> sv)"
| "sv_step codec wr sv (SvAccepted re) = (if sv_serve sv = Accepting then accept_outcome sv re else sv)"
| "sv_step codec wr sv (SvBound r) =
     (case sv_serve sv of Rebinding backoff \<Rightarrow> rebind_outcome sv backoff r | _ \<Rightarrow> sv)"
| "sv_step codec wr sv SvCancelled =
     (if sv_cancelled sv \<and> sv_serve sv \<noteq> ServeEnded
      then sv\<lparr>sv_inner_cancelled := True, sv_serve := ServeDraining\<rparr> else sv)"
| "sv_step codec wr sv SvDrained =
     (if sv_serve sv = ServeDraining \<and> (\<forall>h \<in> set (sv_handlers sv). h_ended h)
      then sv\<lparr>sv_serve := ServeEnded\<rparr> else sv)"
| "sv_step codec wr sv (SvHandler i outcome) = handler_read codec wr sv i outcome"
| "sv_step codec wr sv (SvHandlerCancelled i) =
     (if sv_inner_cancelled sv \<and> i < length (sv_handlers sv)
      then sv\<lparr>sv_handlers := (sv_handlers sv)[i := (sv_handlers sv ! i)\<lparr>h_ended := True\<rparr>]\<rparr> else sv)"
| "sv_step codec wr sv (SvRegister group_id gs) = register_group_server sv group_id gs"

definition sv_run :: "prost_codec \<Rightarrow> 'w async_writer \<Rightarrow> 'w s2c_server \<Rightarrow> 'w sv_event list \<Rightarrow> 'w s2c_server" where
  "sv_run codec wr sv evs = foldl (sv_step codec wr) sv evs"

definition server_close ::
  "prost_codec \<Rightarrow> 'w async_writer \<Rightarrow> 'w s2c_server \<Rightarrow> 'w sv_event list \<Rightarrow> 'w s2c_server option" where
  "server_close codec wr sv evs =
     (if server_load sv = ServerClosed then Some sv
      else
        (let sv1 = (server_store ServerClosed sv)\<lparr>sv_cancelled := True, sv_tracker_closed := True\<rparr>;
             sv2 = sv_run codec wr sv1 evs
         in if sv_serve sv2 = ServeEnded then Some sv2 else None))"

section \<open>Rules for the steps\<close>

lemma load_server_state_u8 [simp]: "load_server_state (server_state_u8 st) = st"
  by (cases st) (simp_all add: load_server_state_def)

interpretation scell: atomic_cas_enum server_state_u8 load_server_state cell_compare_and_exchange
  by unfold_locales (simp_all add: cell_compare_and_exchange_def)

lemma server_load_store [simp]: "server_load (server_store st sv) = st"
  by (simp add: server_load_def server_store_def)

lemma server_load_frame [simp]:
  "server_load (sv\<lparr>sv_serve := t\<rparr>) = server_load sv" "server_load (sv\<lparr>sv_handlers := hs\<rparr>) = server_load sv"
  "server_load (sv\<lparr>sv_group_servers := gs\<rparr>) = server_load sv"
  "server_load (sv\<lparr>sv_cancelled := b\<rparr>) = server_load sv"
  "server_load (sv\<lparr>sv_inner_cancelled := b\<rparr>) = server_load sv"
  "server_load (sv\<lparr>sv_tracker_closed := b\<rparr>) = server_load sv"
  by (simp_all add: server_load_def)

lemma server_store_frame [simp]:
  "sv_serve (server_store st sv) = sv_serve sv" "sv_handlers (server_store st sv) = sv_handlers sv"
  "sv_group_servers (server_store st sv) = sv_group_servers sv"
  "sv_cancelled (server_store st sv) = sv_cancelled sv" "sv_options (server_store st sv) = sv_options sv"
  "sv_inner_cancelled (server_store st sv) = sv_inner_cancelled sv"
  by (simp_all add: server_store_def)

text \<open>
  Only the four states are ever stored in the cell, so an exchange is a test of the loaded
  state.
\<close>

definition cell_ok :: "'w s2c_server \<Rightarrow> bool" where
  "cell_ok sv = (\<exists>st. sv_cell sv = server_state_u8 st)"

lemma compare_and_exchange_eq:
  assumes "cell_ok sv"
  shows "compare_and_exchange current new sv =
         (if server_load sv = current then (True, server_store new sv) else (False, sv))"
proof -
  obtain st where "sv_cell sv = server_state_u8 st" using assms by (auto simp: cell_ok_def)
  then show ?thesis
    using scell.cas_stored [of st current new]
    by (simp add: compare_and_exchange_def server_load_def server_store_def)
qed

lemma cell_ok_store [simp]: "cell_ok (server_store st sv)"
  by (auto simp: cell_ok_def server_store_def)

lemma cell_ok_frame [simp]:
  "cell_ok (sv\<lparr>sv_serve := t\<rparr>) = cell_ok sv" "cell_ok (sv\<lparr>sv_handlers := hs\<rparr>) = cell_ok sv"
  "cell_ok (sv\<lparr>sv_group_servers := gs\<rparr>) = cell_ok sv" "cell_ok (sv\<lparr>sv_cancelled := b\<rparr>) = cell_ok sv"
  "cell_ok (sv\<lparr>sv_inner_cancelled := b\<rparr>) = cell_ok sv" "cell_ok (sv\<lparr>sv_tracker_closed := b\<rparr>) = cell_ok sv"
  by (simp_all add: cell_ok_def)

lemma cell_ok_new: "cell_ok (server_new options ni)"
  unfolding cell_ok_def server_new_def atomic_server_state_new_def by (metis s2c_server.select_convs(3))

lemma accept_loop_left_eq:
  "cell_ok sv \<Longrightarrow> accept_loop_left sv =
     (if server_load sv = ServerReady then (server_store NotBound sv)\<lparr>sv_serve := Unbound\<rparr>
      else sv\<lparr>sv_serve := ServeEnded\<rparr>)"
  by (simp add: accept_loop_left_def compare_and_exchange_eq)

lemma rebind_begin_eq:
  "cell_ok sv \<Longrightarrow> rebind_begin sv =
     (if server_load sv = NotBound
      then (server_store Binding sv)\<lparr>sv_serve := Rebinding (backoff_new (retry (sv_options sv)))\<rparr>
      else sv\<lparr>sv_serve := ServeEnded\<rparr>)"
  by (simp add: rebind_begin_def compare_and_exchange_eq)

lemmas sv_defs = accept_loop_top_def accept_outcome_def rebind_outcome_def register_group_server_def

lemma handler_read_frame [simp]:
  "cell_ok (handler_read codec wr sv i e) = cell_ok sv"
  "server_load (handler_read codec wr sv i e) = server_load sv"
  "sv_serve (handler_read codec wr sv i e) = sv_serve sv"
  "length (sv_handlers (handler_read codec wr sv i e)) = length (sv_handlers sv)"
  by (simp_all add: handler_read_def split: prod.splits option.splits)

lemma cell_ok_step: "cell_ok sv \<Longrightarrow> cell_ok (sv_step codec wr sv ev)"
  by (cases ev) (auto simp: sv_defs accept_loop_left_eq rebind_begin_eq
      split: serve_task.splits result.splits)

lemma sv_run_simps [simp]:
  "sv_run codec wr sv [] = sv" "sv_run codec wr sv (e # evs) = sv_run codec wr (sv_step codec wr sv e) evs"
  by (simp_all add: sv_run_def)

lemma cell_ok_run: "cell_ok sv \<Longrightarrow> cell_ok (sv_run codec wr sv evs)"
  by (induction evs arbitrary: sv) (simp_all add: cell_ok_step)

section \<open>Properties\<close>

subsection \<open>Binding and starting\<close>

lemma bind_loop_errors:
  assumes "backoff_limited b" and "length es \<le> attempts_left b"
  shows "bind_loop b (map Err es @ rest) = bind_loop ((awaited ^^ length es) b) rest"
  using assms
proof (induction es arbitrary: b)
  case (Cons e es)
  then have "can_attempt b" by (simp add: can_attempt_iff)
  with Cons awaited_limited [of b] awaited_attempts_left [of b] show ?case
    by (simp add: funpow_swap1)
qed simp

lemma server_bind_exhausted:
  assumes "max_attempts ro = Some m" and "unat m < 2 ^ 32 - 1" and "length es = unat m"
  shows "server_bind ro (map Err es @ Err e # rest) = Some (Err e, rest)"
proof -
  have lim: "backoff_limited (backoff_new ro)" "attempts_left (backoff_new ro) = unat m"
    using assms(1,2) by (simp_all add: backoff_limited_def attempts_left_def)
  have "\<not> can_attempt ((awaited ^^ length es) (backoff_new ro))"
    using backoff.can_after [OF lim(1)] lim(2) assms(3) by simp
  with lim assms(3) show ?thesis by (simp add: server_bind_def bind_loop_errors)
qed

text \<open>
  Binding tries exactly as often as the options say. With \<open>max_attempts = Some m\<close> it
  returns the listener when one of the first \<open>m + 1\<close> calls succeeds, and the error of call
  \<open>m + 1\<close> otherwise, without another call.
\<close>

theorem bind_attempts:
  assumes "max_attempts ro = Some m" and "unat m < 2 ^ 32 - 1"
  shows "(length es \<le> unat m \<longrightarrow> server_bind ro (map Err es @ Ok () # rest) = Some (Ok (), rest)) \<and>
         (length es = unat m \<longrightarrow> server_bind ro (map Err es @ Err e # rest) = Some (Err e, rest))"
proof -
  have lim: "backoff_limited (backoff_new ro)" "attempts_left (backoff_new ro) = unat m"
    using assms by (simp_all add: backoff_limited_def attempts_left_def)
  then have "length es \<le> unat m \<longrightarrow> server_bind ro (map Err es @ Ok () # rest) = Some (Ok (), rest)"
    by (simp add: server_bind_def bind_loop_errors)
  then show ?thesis using server_bind_exhausted [OF assms] by blast
qed

definition in_use :: io_error where
  "in_use = \<lparr>io_kind = AddrInUse, io_msg = ''Address in use''\<rparr>"

theorem bind_attempts_witness:
  "server_bind retry_default [Err in_use, Err in_use, Err in_use, Ok ()] = Some (Ok (), []) \<and>
   server_bind retry_default [Err in_use, Err in_use, Err in_use, Err in_use, Ok ()] = Some (Err in_use, [Ok ()])"
  using bind_attempts [of retry_default 3 "[in_use, in_use, in_use]" "[]"]
    bind_attempts [of retry_default 3 "[in_use, in_use, in_use]" "[Ok ()]" in_use]
  by (simp add: retry_default_def)

text \<open>
  A start that failed cannot be repeated. The error of \<open>bind\<close> leaves the server in
  \<open>Binding\<close>; every later \<open>start\<close> then reports success at once, binds nothing and serves
  nothing.
\<close>

theorem failed_start_is_final:
  assumes "cell_ok sv" and "sv_serve sv = ServeEnded" and "server_start sv outcomes = Some (Err e, sv', rest)"
  shows "server_load sv' = Binding \<and> sv_serve sv' = ServeEnded \<and>
         server_start sv' outcomes' = Some (Ok (), sv', outcomes')"
proof -
  have "server_load sv = NotBound \<and> sv' = server_store Binding sv"
    using assms(1,3)
    by (auto simp: server_start_def compare_and_exchange_eq split: if_splits option.splits result.splits)
  then show ?thesis
    using assms(2) by (simp add: server_start_def compare_and_exchange_eq)
qed

theorem failed_start_is_final_witness:
  "\<exists>sv'. server_start (server_new options_default (example_identity ''a'') :: bytes s2c_server)
            (replicate 4 (Err in_use)) = Some (Err in_use, sv', []) \<and>
         server_start sv' [Ok ()] = Some (Ok (), sv', [Ok ()])"
proof -
  let ?sv = "server_new options_default (example_identity ''a'') :: bytes s2c_server"
  have outcomes: "replicate 4 (Err in_use) = map Err (replicate 3 in_use) @ Err in_use # []"
    by (simp add: eval_nat_numeral)
  have "server_bind retry_default (replicate 4 (Err in_use)) = Some (Err in_use, [])"
    unfolding outcomes by (rule server_bind_exhausted [of _ 3]) (simp_all add: retry_default_def)
  moreover have "server_load ?sv = NotBound" "retry (sv_options ?sv) = retry_default" "sv_serve ?sv = ServeEnded"
    by (simp_all add: server_load_def server_new_def atomic_server_state_new_def load_server_state_def
        options_default_def)
  ultimately have start: "server_start ?sv (replicate 4 (Err in_use)) = Some (Err in_use, server_store Binding ?sv, [])"
    by (simp add: server_start_def compare_and_exchange_eq cell_ok_new)
  show ?thesis
    using failed_start_is_final [OF cell_ok_new _ start, of "[Ok ()]"] start
    by (simp add: \<open>sv_serve ?sv = ServeEnded\<close>)
qed

subsection \<open>The handshake\<close>

abbreviation is_handshake :: "s2c_message \<Rightarrow> bool" where
  "is_handshake m \<equiv> (case msg_body m of Some (Handshake _) \<Rightarrow> True | _ \<Rightarrow> False)"

lemma server_write_appends:
  assumes "appends_stream wr acc" and "server_write codec wr w m = (Ok (), w')"
  shows "acc w' = acc w @ frame (encode_message codec m)"
proof -
  from assms(2) obtain w1 where "write_bytes wr w (encode_message codec m) = (Ok (), w1)"
    and "flush wr w1 = (Ok (), w')"
    by (auto simp: server_write_def split: prod.splits result.splits)
  then show ?thesis using write_bytes_appends [OF assms(1)] assms(1) by (auto simp: appends_stream_def)
qed

lemma handshake_step_cases:
  assumes "appends_stream wr accepted" and "handshake_step codec wr w outcome = (r, w')"
  shows "case r of
           None \<Rightarrow> w' = w \<and> (\<exists>m. outcome = HsRead (Ok m) \<and> \<not> is_handshake m)
         | Some None \<Rightarrow> True
         | Some (Some h) \<Rightarrow> \<exists>m. outcome = HsRead (Ok m) \<and> msg_body m = Some (Handshake h) \<and>
                             accepted w' = accepted w @ frame (encode_message codec m)"
  using assms(2) server_write_appends [OF assms(1), of codec w]
  by (auto simp: handshake_step_def split: hs_outcome.splits result.splits option.splits body.splits prod.splits)

text \<open>
  The handshake answers with the handshake itself. If it succeeds, the messages before the
  handshake were other messages and were skipped without an answer, and the bytes written are
  one frame, the handshake message that was read, under its own correlation id.
\<close>

theorem handshake_echoes:
  assumes "appends_stream wr accepted"
    and "server_handshake codec wr w outcomes = Some (Some h, w', rest)"
  shows "\<exists>skipped m. outcomes = map (\<lambda>x. HsRead (Ok x)) skipped @ HsRead (Ok m) # rest \<and>
           (\<forall>x \<in> set skipped. \<not> is_handshake x) \<and> msg_body m = Some (Handshake h) \<and>
           accepted w' = accepted w @ frame (encode_message codec m)"
  using assms(2)
proof (induction outcomes arbitrary: w)
  case (Cons outcome outcomes)
  obtain r w1 where step: "handshake_step codec wr w outcome = (r, w1)" by fastforce
  note c = handshake_step_cases [OF assms(1) step]
  show ?case
  proof (cases r)
    case None
    with c obtain x where x: "outcome = HsRead (Ok x)" "\<not> is_handshake x" "w1 = w" by auto
    from None step Cons.prems x(3) have "server_handshake codec wr w outcomes = Some (Some h, w', rest)" by simp
    from Cons.IH [OF this] obtain skipped m where
      "outcomes = map (\<lambda>x. HsRead (Ok x)) skipped @ HsRead (Ok m) # rest"
      "\<forall>x \<in> set skipped. \<not> is_handshake x" "msg_body m = Some (Handshake h)"
      "accepted w' = accepted w @ frame (encode_message codec m)" by blast
    with x show ?thesis by (intro exI [of _ "x # skipped"] exI [of _ m]) simp
  next
    case (Some r')
    with step Cons.prems have "r' = Some h" "w1 = w'" "outcomes = rest" by simp_all
    with c Some show ?thesis by (intro exI [of _ "[]"]) auto
  qed
qed simp

definition example_handshake :: s2c_message where
  "example_handshake =
     \<lparr>msg_correlation_id = ''h'',
      msg_body = Some (Handshake \<lparr>hs_group_id = ''g'', hs_node_identity = Some (example_identity ''a'')\<rparr>),
      msg_error = None\<rparr>"

lemma example_server_handshake:
  "server_handshake example_codec list_writer [] [HsRead (Ok (example_response ''x'')), HsRead (Ok example_handshake)] =
     Some (Some \<lparr>hs_group_id = ''g'', hs_node_identity = Some (example_identity ''a'')\<rparr>,
           frame (encode_message example_codec example_handshake), [])"
  by (simp add: handshake_step_def example_response_def example_handshake_def server_write_def
      write_bytes_def list_writer_def frame_def)

theorem handshake_echoes_witness:
  "\<exists>skipped m. [HsRead (Ok (example_response ''x'')), HsRead (Ok example_handshake)] =
      map (\<lambda>x. HsRead (Ok x)) skipped @ HsRead (Ok m) # [] \<and>
    msg_body m = Some (Handshake \<lparr>hs_group_id = ''g'', hs_node_identity = Some (example_identity ''a'')\<rparr>) \<and>
    frame (encode_message example_codec example_handshake) = [] @ frame (encode_message example_codec m)"
  using handshake_echoes [OF list_writer_appends example_server_handshake] by blast

text \<open>
  The server registers no client. Whatever connections are accepted and whatever
  handshakes they complete, the group servers stay as they were registered, because the
  future that would register the client is never awaited.
\<close>

theorem server_registers_no_client:
  assumes "\<forall>ev \<in> set evs. \<forall>g gs. ev \<noteq> SvRegister g gs"
  shows "sv_group_servers (sv_run codec wr sv evs) = sv_group_servers sv"
proof -
  have admit: "admit_client groups r = groups" for groups r
    by (simp add: admit_client_def split: option.splits)
  have "sv_group_servers (sv_step codec wr sv ev) = sv_group_servers sv" if "\<And>g gs. ev \<noteq> SvRegister g gs" for sv ev
  proof (cases ev)
    case (SvRegister g gs)
    with that show ?thesis by blast
  qed (simp_all add: sv_defs handler_read_def admit accept_loop_left_def rebind_begin_def
      compare_and_exchange_def split: serve_task.splits result.splits prod.splits option.splits bool.splits)
  with assms show ?thesis by (induction evs arbitrary: sv) simp_all
qed

theorem server_registers_no_client_witness:
  "clients_ins (the (sv_group_servers (sv_run example_codec list_writer
      (register_group_server ((server_new options_default (example_identity ''b''))\<lparr>sv_serve := Accepting\<rparr>)
         ''g'' example_group_server)
      [SvAccepted (Ok []), SvHandler 0 (HsRead (Ok example_handshake))]) ''g'')) = Map.empty"
proof -
  have "clients_ins example_group_server = Map.empty"
    by (simp add: example_group_server_def gs_start_def group_server_new_def)
  then show ?thesis
    by (subst server_registers_no_client) (simp_all add: register_group_server_def)
qed

subsection \<open>Closing\<close>

lemma closed_step:
  assumes "cell_ok sv" and "server_load sv = ServerClosed" and "\<And>u. ev \<noteq> SvBound (Ok u)"
  shows "server_load (sv_step codec wr sv ev) = ServerClosed"
    and "length (sv_handlers (sv_step codec wr sv ev)) = length (sv_handlers sv)"
  using assms
  by (cases ev; auto simp: sv_defs accept_loop_left_eq rebind_begin_eq split: serve_task.splits result.splits)+

text \<open>
  C40: a closed server serves nobody new. As long as no rebinding succeeds afterwards, the state
  stays \<open>Closed\<close> and connections that are still accepted are dropped without a handler.
\<close>

theorem closed_server_accepts_nothing:
  assumes "cell_ok sv" and "server_load sv \<noteq> ServerClosed" and "server_close codec wr sv evs = Some sv'"
    and "\<forall>ev \<in> set (evs @ evs'). \<forall>u. ev \<noteq> SvBound (Ok u)"
  shows "server_load (sv_run codec wr sv' evs') = ServerClosed \<and>
         length (sv_handlers (sv_run codec wr sv' evs')) = length (sv_handlers sv)"
proof -
  have run: "cell_ok (sv_run codec wr t es) \<and> server_load (sv_run codec wr t es) = ServerClosed \<and>
      length (sv_handlers (sv_run codec wr t es)) = length (sv_handlers t)"
    if "cell_ok t" "server_load t = ServerClosed" "\<forall>ev \<in> set es. \<forall>u. ev \<noteq> SvBound (Ok u)" for t es
    using that
  proof (induction es arbitrary: t)
    case (Cons e es)
    with closed_step [OF Cons.prems(1,2), of e codec wr] cell_ok_step [OF Cons.prems(1)] show ?case by simp
  qed simp
  let ?sv1 = "(server_store ServerClosed sv)\<lparr>sv_cancelled := True, sv_tracker_closed := True\<rparr>"
  have sv': "sv' = sv_run codec wr ?sv1 evs"
    using assms(2,3) by (simp add: server_close_def Let_def split: if_splits)
  have "cell_ok sv' \<and> server_load sv' = ServerClosed \<and> length (sv_handlers sv') = length (sv_handlers sv)"
    using run [of ?sv1 evs] assms(4) unfolding sv' by simp
  with run [of sv' evs'] assms(4) show ?thesis by simp
qed

definition example_server :: "bytes s2c_server" where
  "example_server =
     (server_store ServerReady (server_new options_default (example_identity ''b'')))\<lparr>sv_serve := Accepting\<rparr>"

theorem closed_server_accepts_nothing_witness:
  "\<exists>sv'. server_close example_codec list_writer example_server [SvAccepted (Ok [])] = Some sv' \<and>
         sv_handlers (sv_run example_codec list_writer sv' [SvAccepted (Ok [])]) = []"
proof -
  let ?sv1 = "(server_store ServerClosed example_server)\<lparr>sv_cancelled := True, sv_tracker_closed := True\<rparr>"
  let ?sv2 = "?sv1\<lparr>sv_serve := ServeEnded\<rparr>"
  have close: "server_close example_codec list_writer example_server [SvAccepted (Ok [])] = Some ?sv2"
    by (simp add: server_close_def Let_def example_server_def accept_outcome_def accept_loop_left_eq)
  have "sv_handlers example_server = []" by (simp add: example_server_def server_new_def)
  with closed_server_accepts_nothing [OF _ _ close, of "[SvAccepted (Ok [])]"] close show ?thesis
    by (simp add: example_server_def)
qed

text \<open>
  A rebinding can undo \<open>close\<close>. When the accept loop was left and a rebinding is under way
  while the server is closed, a bind that succeeds before the task notices its cancelled token
  stores \<open>Ready\<close> over \<open>Closed\<close>; \<open>close\<close> then returns with the server marked ready and no task
  that serves.
\<close>

theorem close_undone_by_rebind:
  assumes "server_load sv = Binding" and "sv_serve sv = Rebinding backoff" and "\<forall>h \<in> set (sv_handlers sv). h_ended h"
  shows "\<exists>sv'. server_close codec wr sv [SvBound (Ok ()), SvCancelled, SvDrained] = Some sv' \<and>
               server_load sv' = ServerReady \<and> sv_serve sv' = ServeEnded"
  using assms by (simp add: server_close_def Let_def rebind_outcome_def)

theorem close_undone_by_rebind_witness:
  "\<exists>sv'. server_close example_codec list_writer
            ((server_store Binding example_server)\<lparr>sv_serve := Rebinding (backoff_new retry_default)\<rparr>)
            [SvBound (Ok ()), SvCancelled, SvDrained] = Some sv' \<and>
         server_load sv' = ServerReady \<and> sv_serve sv' = ServeEnded"
  by (rule close_undone_by_rebind) (simp_all add: example_server_def server_new_def)

end
