(* ===== verification/Spec2Isabelle.thy ===== *)
theory Spec2Isabelle
  imports S2c_Cluster S2c_Leader_Loop S2c_Client_State S2c_Server
begin

text \<open>
  Verification of \<^verbatim>\<open>s2c-rs\<close>, an implementation in Rust of the S2C protocol: replicated state
  machines whose log lives in an object store. A node joins a group by reading the newest
  entry of the group's log; if there is a leader it connects to it and follows it, otherwise it
  tries to become leader by creating the next entry of the log, which the store grants to one
  node only. Nodes talk over TCP with length-prefixed protobuf messages.

  \<^bold>\<open>Parts and theories.\<close> Paths are those of the repository under \<^verbatim>\<open>src/\<close>.

  \<^item> \<open>S2c_Prelude\<close>: what the sources use of Rust's core: results, panics (\<open>exec\<close>), fixed-width
    integers with wrap-around as in a release build, printing and parsing of \<open>u64\<close>, byte-wise
    order of strings, \<open>to_lowercase\<close> and \<open>contains\<close> (on ASCII), and the contract of an enum in
    an atomic cell (locales \<open>atomic_enum\<close>, \<open>atomic_cas_enum\<close>).
  \<^item> \<open>S2c_Proto\<close>: the messages of \<^verbatim>\<open>proto/messages.proto\<close> and \<^verbatim>\<open>proto/state.proto\<close> as records and
    datatypes. The encodings that prost generates are a parameter (record \<open>prost_codec\<close>) with the
    laws that are relied on as named hypotheses (\<open>message_codec_ok\<close>, \<open>log_codec_ok\<close>,
    \<open>buf_mut_appends\<close>).
  \<^item> \<open>S2c_Config\<close> (\<^verbatim>\<open>src/config.rs\<close>, \<^verbatim>\<open>src/context.rs\<close>), \<open>S2c_Error\<close> (\<^verbatim>\<open>src/error.rs\<close>,
    \<^verbatim>\<open>src/network/error.rs\<close>): options and errors.
  \<^item> \<open>S2c_Backoff\<close> (\<^verbatim>\<open>src/backoff.rs\<close>): the retry counter and its delays, the arithmetic in \<open>f64\<close>
    included; the random jitter is an argument. The locale \<open>retry_budget\<close> is what every retry
    loop relies on: how many attempts are left, and induction along them.
  \<^item> \<open>S2c_Paths\<close> (\<^verbatim>\<open>src/paths.rs\<close>): the keys of the log, with the inverted index.
  \<^item> \<open>S2c_Log\<close> (\<^verbatim>\<open>src/log.rs\<close>): \<open>append\<close>, \<open>get_head\<close>, \<open>get_at\<close>. The object store is a parameter
    (record \<open>object_store\<close>) over an arbitrary state; \<open>create_store\<close>, \<open>sole_writer\<close> and
    \<open>readable_store\<close> name its documented behaviour, \<open>recovering\<close> that its faults run out. The
    contract of a log that is written once
    per index is the locale \<open>write_once_log\<close>, extended by \<open>readable_log\<close>, and interpreted by the
    model. A store in memory serves the examples.
  \<^item> \<open>S2c_Sync_Queue\<close> (\<^verbatim>\<open>src/sync_queue.rs\<close>): the replication queue; locale \<open>fifo_queue\<close>.
  \<^item> \<open>S2c_Message_RW\<close> (\<^verbatim>\<open>src/network/message_rw.rs\<close>): framing over byte streams that are
    parameters, with the panics of its slices, and the fault-injecting reader of the tests. The
    references are a reader that takes a new vector for every body and the format itself. The
    laws of the streams are \<open>reads_stream\<close>, \<open>appends_stream\<close> for what a writer accepts, and
    \<open>buffered_stream\<close> for what a \<open>BufWriter\<close> holds back until it is full or flushed.
  \<^item> \<open>S2c_Inflight\<close> (\<^verbatim>\<open>src/network/inflight.rs\<close>): the table of pending requests and its one-shot
    channels; locale \<open>one_shot_table\<close>.
  \<^item> \<open>S2c_Client\<close> (\<^verbatim>\<open>src/network/client.rs\<close>): the client with its two tasks; \<open>S2c_Client_State\<close>:
    the states a client can get into, with their invariant.
  \<^item> \<open>S2c_Group_Server\<close> (\<^verbatim>\<open>src/network/group_server.rs\<close>) and \<open>S2c_Server\<close>
    (\<^verbatim>\<open>src/network/server.rs\<close>): the server side with its tasks.
  \<^item> \<open>S2c_Fsm\<close> (\<^verbatim>\<open>src/fsm.rs\<close>): the state machine of a node; \<open>S2c_Follower\<close>, \<open>S2c_Leader\<close> and
    \<open>S2c_Leader_Loop\<close> prove what its loops do.
  \<^item> \<open>S2c_Cluster\<close>: all nodes of a group over one store, as an interleaving of small steps; the
    operations of \<open>S2c_Fsm\<close> are shown to be sequences of these steps, for runs that go on as
    well as for those that return. The locale
    \<open>competing_nodes\<close> is the contract of nodes that compete for one place; the abstract election
    is the relation \<open>place_taken\<close>.
  \<^item> This theory: the handshake across client, framing and server.

  \<^bold>\<open>How concurrency is modelled.\<close> A task is a program counter in the record of its component, cut
  at its awaits; everything that can happen between two awaits is an event, and a list of events
  is one interleaving. What the outside world answers (reads, writes, timers, accepted
  connections) comes with the events. Calls that wait for tasks take the events of their waits as
  arguments, and return \<open>None\<close> when they are still waiting at the end. An event that is not
  enabled changes nothing, so theorems over all lists of events cover all interleavings. Locks
  are not modelled separately, since each section they protect is one event; \<open>Acquire\<close> and
  \<open>Release\<close> accesses are atomic.

  \<^bold>\<open>Loops and termination.\<close> Retry loops that may run for ever (\<open>append\<close>, \<open>get_at\<close>,
  \<open>attempt_leadership\<close>, \<open>discover_leader_state\<close>, \<open>join\<close>, \<open>start\<close>) are
  \<open>partial_function (option)\<close>s: \<open>None\<close> is a call that never returns, and there is no fuel. That
  they return is proved where they do (\<open>append_terminates\<close>, \<open>recovering_store_returns\<close>,
  \<open>first_node_leads_despite_faults\<close>) and that they do not where they do not (\<open>append_spins_on_permanent_error\<close>, \<open>get_at_never_gives_up\<close>,
  \<open>no_node_joins_existing_log\<close>). Loops that consume messages are recursive on their input.

  \<^bold>\<open>What is shown.\<close>

  \<^item> The log: an append creates its object with its payload or changes nothing, at most one append
    per index succeeds, and what was appended is read back. The keys of a group are distinct and,
    up to index 8446744073709551615, listed newest first.
  \<^item> Elections: an attempt has three outcomes; in every reachable state of a group at most one node
    leads, its entry is in the log and names it, and the group as a whole implements a register
    that is written once. On a store whose faults run out an attempt returns, and the first node
    of a group leads.
  \<^item> The leader: it never holds more than a minimal batch, and panics exactly on a follow request
    without an identity.
  \<^item> Followers: the queue never has gaps, every request is answered once, the leader is given up
    after exactly the configured silence.
  \<^item> The wire: messages survive framing, oversized ones are skipped, the reused buffer does not
    show and its slices never panic.
  \<^item> The client: a request gets its own answer or an error, at most once; requests leave in order,
    and none is lost while the connection works; \<open>connect\<close> succeeds only with the peer's handshake. In every state its cell, channel
    and table are sound, and no two connections have tasks at once.
  \<^item> The servers: incoming messages are attributed to the node that sent them and stay in order,
    outgoing ones are neither duplicated nor misrouted, a closed server starts no handler. The
    handshake completes once the client's frame has left its buffer, and not before
    (\<open>handshake_waits_for_buffer\<close>).
  \<^item> Where the code does less than it means to, the theorems say so: no second node can join and no
    leader is ever replaced (\<open>no_node_joins_existing_log\<close>, \<open>no_failover\<close>), batches are not written
    (\<open>leader_loop_writes_nothing\<close>, \<open>log_never_grows\<close>), followers accept nothing
    (\<open>follower_never_advances\<close>), a client never reconnects (\<open>no_reconnect_after_cancel\<close>), first
    messages are lost (\<open>dispatcher_loses_first\<close>), one failing client silences its group
    (\<open>read_error_silences_group\<close>), a failed start is final (\<open>failed_start_is_final\<close>).

  \<^bold>\<open>Not modelled.\<close> \<^verbatim>\<open>src/replicator.rs\<close> is commented out as a whole; \<^verbatim>\<open>src/rsm.rs\<close>,
  \<^verbatim>\<open>src/statemachine.rs\<close> and \<^verbatim>\<open>src/object_read_write.rs\<close> hold no operation; \<^verbatim>\<open>src/lib.rs\<close>,
  \<^verbatim>\<open>src/network/mod.rs\<close> and \<^verbatim>\<open>build.rs\<close> declare modules and call the protobuf compiler. Logging
  is left out, as are the contents of error texts beyond those the code inspects. Time is an
  input: a timer is an event that may come at any moment, and the clock of the leader is read
  from its input (\<open>li_elapsed\<close>, in nanoseconds).
\<close>

section \<open>The handshake between a client and a server\<close>

text \<open>
  The handshake of a client that has just connected: its tasks run, a read is under way, and
  the channel has room.
\<close>

definition shaking_hands :: "s2c_client \<Rightarrow> bool" where
  "shaking_hands c =
     (inflight_inv (inflight c) \<and> running c \<and> drain_in c = InReading \<and>
      length (out_channel c) < client_capacity c)"

lemma answered_request:
  assumes "shaking_hands c" and "msg_correlation_id m = cid" and "msg_error m = None"
  shows "\<exists>c'. send_and_await_response c cid payload [] [InRead (Ok m)] = Some (Ok m, c')"
proof -
  obtain rx t where add: "inflight_add (inflight c) cid = (rx, t)" by fastforce
  have "map_of (requests t) cid = Some rx" "inflight_inv t"
    using add assms(1) inflight_inv_add [of "inflight c" cid]
    by (auto simp: inflight_add_def Let_def shaking_hands_def)
  then have "oneshots (inflight_respond t m) rx = Delivered (Ok m)"
    using assms(2) by (simp add: inflight_respond_def Let_def)
  with add assms show ?thesis
    by (simp add: send_and_await_response_def shaking_hands_def drain_in_read_def running_def
        client_load_def Let_def)
qed

lemma frame_read_back:
  assumes "message_codec_ok codec {m}" and "reads_stream rd ahead"
    and "prefix (frame (encode_message codec m)) (ahead r)"
    and "length (encode_message codec m) \<le> unat (reader_max_message_size self)"
  shows "\<exists>self' r'. read_next_message codec rd self r = Return (Ok m, self', r')"
proof -
  obtain rest where "ahead r = frame (encode_message codec m) @ rest" using assms(3) by (auto simp: prefix_def)
  from read_next_message_frame [OF assms(2) this assms(4), of codec] assms(1) show ?thesis
    by (auto simp: message_codec_ok_def)
qed

text \<open>A client that reads no message does not complete its handshake.\<close>

lemma handshake_needs_message:
  assumes "inflight_inv (inflight c)" and "client_handshake codec c uuid evs1 evs2 = Some (Return (Ok h, c'))"
  shows "\<exists>x. InRead (Ok x) \<in> set (evs1 @ evs2)"
  using assms(2) send_and_await_response_ok [OF assms(1)]
  by (fastforce simp: client_handshake_def split: option.splits result.splits body.splits)

text \<open>The server flushes its answer: all of it is sent.\<close>

lemma server_write_sent:
  assumes "buffered_stream wr sent pending cap" and "server_write codec wr w m = (Ok (), w')"
  shows "sent w' = sent w @ pending w @ frame (encode_message codec m)"
proof -
  obtain w1 where "flush wr w1 = (Ok (), w')"
    using assms(2) by (auto simp: server_write_def split: prod.splits result.splits)
  then have "pending w' = []" using buffered_flush [OF assms(1)] by blast
  with server_write_appends [OF buffered_appends [OF assms(1)] assms(2)] show ?thesis by simp
qed

text \<open>
  C29: the handshake waits for the client's buffer. The client's writing task writes the
  handshake message and whatever payloads follow into a \<open>BufWriter\<close> and never flushes it; the
  server flushes its answer. While everything the client wrote fits into the buffer, the server
  has no byte to read, and a client that reads no message does not complete its handshake.
  Once later payloads have pushed the frame out, the handshake completes: the server reads the
  message, echoes it, and returns the client's group and identity; the echo is what the client
  reads, and it settles the client's own request.
\<close>

theorem handshake_waits_for_buffer:
  assumes "m = handshake_message c uuid" and "message_codec_ok codec {m}" and "shaking_hands c"
    and "length (encode_message codec m) \<le> unat (reader_max_message_size server_reader)"
    and "length (encode_message codec m) \<le> unat (reader_max_message_size client_reader)"
    and "buffered_stream cw csent cpending cap" and "csent w0 = []" and "cpending w0 = []"
    and "write_payloads cw w0 (encode_message codec m # ps) = (Ok (), w1)"
    and "reads_stream srd sahead" and "sahead r0 = csent w1"
    and "buffered_stream sw ssent spending cap'" and "ssent v0 = []" and "spending v0 = []"
    and "server_write codec sw v0 m = (Ok (), v1)"
    and "reads_stream crd cahead" and "cahead q0 = ssent v1"
  shows "(framed_size (encode_message codec m # ps) < cap \<longrightarrow> sahead r0 = []) \<and>
         (\<forall>evs1 evs2 h c'. client_handshake codec c uuid evs1 evs2 = Some (Return (Ok h, c')) \<longrightarrow>
            (\<exists>x. InRead (Ok x) \<in> set (evs1 @ evs2))) \<and>
         (prefix (frame (encode_message codec m)) (csent w1) \<longrightarrow>
            (\<exists>h sr r1 cr q1 c'. read_next_message codec srd server_reader r0 = Return (Ok m, sr, r1) \<and>
               server_handshake codec sw v0 [HsRead (Ok m)] = Some (Some h, v1, []) \<and>
               read_next_message codec crd client_reader q0 = Return (Ok m, cr, q1) \<and>
               client_handshake codec c uuid [] [InRead (Ok m)] = Some (Return (Ok h, c')) \<and>
               hs_group_id h = ctx_s2c_group_id (cl_context c) \<and>
               hs_node_identity h = Some (ctx_node_identity (cl_context c))))"
proof (intro conjI impI allI)
  show "sahead r0 = []" if "framed_size (encode_message codec m # ps) < cap"
    using write_payloads_held [OF assms(6,9)] that by (simp add: assms(7,8,11))
  show "\<exists>x. InRead (Ok x) \<in> set (evs1 @ evs2)"
    if "client_handshake codec c uuid evs1 evs2 = Some (Return (Ok h, c'))" for evs1 evs2 h c'
    using assms(3) handshake_needs_message [OF _ that] by (simp add: shaking_hands_def)
  assume out: "prefix (frame (encode_message codec m)) (csent w1)"
  let ?h = "\<lparr>hs_group_id = ctx_s2c_group_id (cl_context c),
             hs_node_identity = Some (ctx_node_identity (cl_context c))\<rparr>"
  have m: "msg_correlation_id m = uuid" "msg_error m = None" "msg_body m = Some (Handshake ?h)"
    by (simp_all add: assms(1) handshake_message_def)
  obtain sr r1 where s: "read_next_message codec srd server_reader r0 = Return (Ok m, sr, r1)"
    using frame_read_back [OF assms(2,10) _ assms(4), of r0] out by (auto simp: assms(11))
  have "cahead q0 = frame (encode_message codec m)"
    using server_write_sent [OF assms(12,15)] by (simp add: assms(13,14,17))
  then obtain cr q1 where q: "read_next_message codec crd client_reader q0 = Return (Ok m, cr, q1)"
    using frame_read_back [OF assms(2,16) _ assms(5), of q0] by auto
  have hs: "server_handshake codec sw v0 [HsRead (Ok m)] = Some (Some ?h, v1, [])"
    using assms(15) by (simp add: handshake_step_def m)
  obtain c' where "client_handshake codec c uuid [] [InRead (Ok m)] = Some (Return (Ok ?h, c'))"
    using answered_request [OF assms(3) m(1,2), of "encode_message codec m"] m(3)
    unfolding client_handshake_def assms(1) [symmetric] by auto
  with s q hs show "\<exists>h sr r1 cr q1 c'. read_next_message codec srd server_reader r0 = Return (Ok m, sr, r1) \<and>
      server_handshake codec sw v0 [HsRead (Ok m)] = Some (Some h, v1, []) \<and>
      read_next_message codec crd client_reader q0 = Return (Ok m, cr, q1) \<and>
      client_handshake codec c uuid [] [InRead (Ok m)] = Some (Return (Ok h, c')) \<and>
      hs_group_id h = ctx_s2c_group_id (cl_context c) \<and>
      hs_node_identity h = Some (ctx_node_identity (cl_context c))"
    by fastforce
qed

definition hands_client :: s2c_client where
  "hands_client = example_client\<lparr>drain_in := InReading\<rparr>"

definition hands_codec :: prost_codec where
  "hands_codec = example_codec\<lparr>encode_message := (\<lambda>m. [8, 8]),
     decode_message := (\<lambda>bs. Ok (handshake_message hands_client ''h''))\<rparr>"

text \<open>
  A buffer of sixteen bytes: the handshake's frame of six alone is held back, a payload of ten
  bytes behind it pushes it out.
\<close>

definition hands_later :: bytes where
  "hands_later = replicate 10 9"

theorem handshake_waits_for_buffer_witness:
  "write_payloads (buf_writer 16) ([], []) [[8, 8]] = (Ok (), ([], frame [8, 8])) \<and>
   write_payloads (buf_writer 16) ([], []) [[8, 8], hands_later] = (Ok (), (frame [8, 8] @ frame hands_later, [])) \<and>
   (\<exists>h sr r1 c'. read_next_message hands_codec list_reader (message_reader_new 1024) (frame [8, 8] @ frame hands_later) =
        Return (Ok (handshake_message hands_client ''h''), sr, r1) \<and>
      server_handshake hands_codec (buf_writer 16) ([], []) [HsRead (Ok (handshake_message hands_client ''h''))] =
        Some (Some h, (frame [8, 8], []), []) \<and>
      client_handshake hands_codec hands_client ''h'' [] [InRead (Ok (handshake_message hands_client ''h''))] =
        Some (Return (Ok h, c')))"
proof -
  let ?m = "handshake_message hands_client ''h''" and ?out = "frame [8, 8] @ frame hands_later"
  have enc: "encode_message hands_codec ?m = [8, 8]" by (simp add: hands_codec_def)
  have codec: "message_codec_ok hands_codec {?m}" by (simp add: message_codec_ok_def hands_codec_def)
  have fits: "length (encode_message hands_codec ?m) \<le> unat (reader_max_message_size (message_reader_new 1024))"
    by (simp add: enc message_reader_new_def)
  have alone: "write_payloads (buf_writer 16) ([], []) [[8, 8]] = (Ok (), ([], frame [8, 8]))"
    by (simp add: write_bytes_def buf_writer_def buf_write_def frame_def)
  have cw: "write_payloads (buf_writer 16) ([], []) (encode_message hands_codec ?m # [hands_later]) = (Ok (), (?out, []))"
    and sw: "server_write hands_codec (buf_writer 16) ([], []) ?m = (Ok (), (frame [8, 8], []))"
    by (simp_all add: enc hands_later_def server_write_def write_bytes_def buf_writer_def buf_write_def frame_def)
  have hands: "shaking_hands hands_client"
    by (simp add: shaking_hands_def hands_client_def example_client_def fresh_client_simps inflight_inv_new running_def
        client_load_def load_client_state_def options_default_def network_default_def)
  have "prefix (frame (encode_message hands_codec ?m)) ?out" by (simp add: enc)
  then show ?thesis
    using handshake_waits_for_buffer [OF refl codec hands fits fits buf_writer_buffered _ _ cw list_reader_reads _
        buf_writer_buffered _ _ sw list_reader_reads, of ?out "frame [8, 8]"] alone cw
    unfolding enc by auto
qed

end
